(* ===== verification/Lsm_Prelude.thy ===== *)
theory Lsm_Prelude
  imports Main "HOL-Library.Word" "HOL-Library.Char_ord" "HOL-Library.List_Lexorder"
    "HOL-Library.Monad_Syntax" "HOL-Library.Sublist"
begin

text \<open>
  Shared vocabulary of the development: the machine integer types of the C++ sources, the
  fact collections the component theories extend, and generic lemmas on lists, options and
  sorted lists.

  A \<^verbatim>\<open>std::string\<close> is a \<^typ>\<open>string\<close> (a list of 8-bit characters);
  \<^verbatim>\<open>std::string::operator<\<close> compares unsigned characters lexicographically, which is the
  order of \<open>HOL-Library.Char_ord\<close> and \<open>HOL-Library.List_Lexorder\<close>.
  A value of type \<^typ>\<open>'a option\<close> returned by a model of a C++ function that is not itself
  declared \<^verbatim>\<open>std::optional\<close> is \<^const>\<open>None\<close> where the C++ function has undefined behaviour
  (a null or dangling dereference, an index out of range) or does not return.
\<close>

type_synonym u8 = "8 word"
type_synonym u16 = "16 word"
type_synonym u32 = "32 word"
type_synonym u64 = "64 word"
type_synonym bytes = "8 word list"

named_theorems refine \<open>refinement equations of the components\<close>

subsection \<open>Lists\<close>

definition nth_opt :: "'a list \<Rightarrow> nat \<Rightarrow> 'a option" where
  "nth_opt xs i = (if i < length xs then Some (xs ! i) else None)"

lemma nth_opt_Some [simp]: "i < length xs \<Longrightarrow> nth_opt xs i = Some (xs ! i)"
  by (simp add: nth_opt_def)

lemma nth_opt_None [simp]: "length xs \<le> i \<Longrightarrow> nth_opt xs i = None"
  by (simp add: nth_opt_def)

lemma takeWhile_filter_sorted:
  assumes "sorted (map f xs)" and "\<And>a b. f a \<le> f b \<Longrightarrow> P b \<Longrightarrow> P a"
  shows "takeWhile P (filter Q xs) = filter Q (takeWhile P xs)"
    and "dropWhile P (filter Q xs) = filter Q (dropWhile P xs)"
proof -
  have none: "filter P xs = []" if "sorted (map f (x # xs))" "\<not> P x" for x xs
    using that assms(2) by (auto simp: filter_empty_conv)
  have "takeWhile P (filter Q xs) = filter Q (takeWhile P xs) \<and>
        dropWhile P (filter Q xs) = filter Q (dropWhile P xs)"
    using assms(1)
  proof (induction xs)
    case Nil
    then show ?case by simp
  next
    case (Cons x xs)
    show ?case
    proof (cases "P x")
      case True
      with Cons show ?thesis by simp
    next
      case False
      with Cons.prems none have "\<forall>y\<in>set xs. \<not> P y" by (auto simp: filter_empty_conv)
      then have "\<forall>y\<in>set (filter Q xs). \<not> P y" by simp
      then have "takeWhile P (filter Q xs) = []" "dropWhile P (filter Q xs) = filter Q xs"
        by (cases "filter Q xs"; simp)+
      with False show ?thesis by simp
    qed
  qed
  then show "takeWhile P (filter Q xs) = filter Q (takeWhile P xs)"
    and "dropWhile P (filter Q xs) = filter Q (dropWhile P xs)" by simp_all
qed

lemma sorted_dropWhile_less:
  fixes f :: "'a \<Rightarrow> 'b::linorder"
  assumes "sorted (map f xs)" "x \<in> set (dropWhile (\<lambda>a. f a < k) xs)"
  shows "k \<le> f x"
  using assms by (induction xs) (auto split: if_splits)

lemma last_in_set_Cons: "last (a # xs) \<in> insert a (set xs)"
  by (induction xs arbitrary: a) auto

lemma upt_snoc: "[0..<Suc n] = [0..<n] @ [n]"
  by simp

lemma list_all2_snoc: "list_all2 P (xs @ [x]) (ys @ [y]) \<longleftrightarrow> list_all2 P xs ys \<and> P x y"
proof (cases "length xs = length ys")
  case False
  then show ?thesis by (auto dest: list_all2_lengthD)
qed (simp add: list_all2_append)

subsection \<open>Option\<close>

lemma bind_Some_conv: "Option.bind m f = Some y \<longleftrightarrow> (\<exists>x. m = Some x \<and> f x = Some y)"
  by (cases m) auto

end
