(* ===== verification/Byte_Buffer.thy ===== *)
theory Byte_Buffer
  imports Lsm_Prelude
begin

text \<open>
  Byte buffers, as the encoders and decoders of the repository use them: \<^verbatim>\<open>memcpy\<close> into and out
  of a \<^verbatim>\<open>std::vector<uint8_t>\<close>, where a transfer beyond the end is undefined (\<^const>\<open>None\<close>), the
  little-endian object representation of the unsigned integers, and the bytes of a string.
\<close>

subsection \<open>Transfers\<close>

definition memcpy_to :: "bytes \<Rightarrow> nat \<Rightarrow> bytes \<Rightarrow> bytes option" where
  "memcpy_to buf off src =
     (if off + length src \<le> length buf
      then Some (take off buf @ src @ drop (off + length src) buf) else None)"

definition read_at :: "bytes \<Rightarrow> nat \<Rightarrow> nat \<Rightarrow> bytes option" where
  "read_at buf off n = (if off + n \<le> length buf then Some (take n (drop off buf)) else None)"

text \<open>Filling a zeroed buffer from left to right.\<close>

lemma memcpy_fill:
  "off = length pre \<Longrightarrow> memcpy_to (pre @ replicate n 0) off src =
     (if length src \<le> n then Some ((pre @ src) @ replicate (n - length src) 0) else None)"
  by (auto simp: memcpy_to_def)

lemma read_at_append:
  "off = length pre \<Longrightarrow> n = length mid \<Longrightarrow> read_at (pre @ mid @ post) off n = Some mid"
  by (simp add: read_at_def)

lemma read_at_end: "off = length pre \<Longrightarrow> n = length mid \<Longrightarrow> read_at (pre @ mid) off n = Some mid"
  by (simp add: read_at_def)

subsection \<open>Integers\<close>

fun le_bytes :: "nat \<Rightarrow> nat \<Rightarrow> bytes" where
  "le_bytes 0 x = []"
| "le_bytes (Suc n) x = of_nat (x mod 256) # le_bytes n (x div 256)"

fun le_val :: "bytes \<Rightarrow> nat" where
  "le_val [] = 0"
| "le_val (b # bs) = unat b + 256 * le_val bs"

lemma length_le_bytes [simp]: "length (le_bytes n x) = n"
  by (induction n x rule: le_bytes.induct) auto

lemma le_bytes_4:
  "le_bytes 4 x = [of_nat (x mod 256), of_nat (x div 256 mod 256), of_nat (x div 256 div 256 mod 256),
     of_nat (x div 256 div 256 div 256 mod 256)]"
proof -
  have "(4::nat) = Suc (Suc (Suc (Suc 0)))" by simp
  then show ?thesis by (simp only: le_bytes.simps)
qed

lemma unat_byte [simp]: "unat (of_nat (x mod 256) :: u8) = x mod 256"
  by (simp add: unat_of_nat)

lemma le_val_le_bytes [simp]: "le_val (le_bytes n x) = x mod 256 ^ n"
proof (induction n x rule: le_bytes.induct)
  case (2 n x)
  then show ?case by (simp add: mod_mult2_eq)
qed simp

lemma le_val_less: "le_val bs < 256 ^ length bs"
proof (induction bs)
  case (Cons b bs)
  have "unat b < 256" using unsigned_less [of b, where ?'a = nat] by simp
  with Cons show ?case by simp
qed simp

definition enc16 :: "u16 \<Rightarrow> bytes" where "enc16 w = le_bytes 2 (unat w)"
definition enc32 :: "u32 \<Rightarrow> bytes" where "enc32 w = le_bytes 4 (unat w)"
definition enc64 :: "u64 \<Rightarrow> bytes" where "enc64 w = le_bytes 8 (unat w)"
definition dec16 :: "bytes \<Rightarrow> u16" where "dec16 bs = of_nat (le_val bs)"
definition dec32 :: "bytes \<Rightarrow> u32" where "dec32 bs = of_nat (le_val bs)"
definition dec64 :: "bytes \<Rightarrow> u64" where "dec64 bs = of_nat (le_val bs)"

lemma length_enc [simp]: "length (enc16 a) = 2" "length (enc32 b) = 4" "length (enc64 c) = 8"
  by (simp_all add: enc16_def enc32_def enc64_def)

lemma dec_enc [simp]: "dec16 (enc16 a) = a" "dec32 (enc32 b) = b" "dec64 (enc64 c) = c"
proof -
  have "unat a mod 256 ^ 2 = unat a" "unat b mod 256 ^ 4 = unat b" "unat c mod 256 ^ 8 = unat c"
    using unsigned_less [of a, where ?'a = nat] unsigned_less [of b, where ?'a = nat]
      unsigned_less [of c, where ?'a = nat] by simp_all
  then show "dec16 (enc16 a) = a" "dec32 (enc32 b) = b" "dec64 (enc64 c) = c"
    by (simp_all only: enc16_def dec16_def enc32_def dec32_def enc64_def dec64_def
        le_val_le_bytes) simp_all
qed

lemma le_bytes_le_val: "le_bytes (length bs) (le_val bs) = bs"
proof (induction bs)
  case (Cons b bs)
  have "unat b < 256" using unsigned_less [of b, where ?'a = nat] by simp
  with Cons show ?case by simp
qed simp

lemma enc_dec32: "length bs = 4 \<Longrightarrow> bs = enc32 (dec32 bs)"
  using le_val_less [of bs] le_bytes_le_val [of bs]
  by (simp add: enc32_def dec32_def unat_of_nat)

lemma unat_of_nat_u16 [simp]: "n < 65536 \<Longrightarrow> unat (of_nat n :: u16) = n"
  by (simp add: unat_of_nat)

subsection \<open>Strings\<close>

definition string_bytes :: "string \<Rightarrow> bytes" where
  "string_bytes s = map (\<lambda>c. of_nat (of_char c)) s"

definition bytes_string :: "bytes \<Rightarrow> string" where
  "bytes_string bs = map (\<lambda>b. char_of (unat b)) bs"

lemma length_string_bytes [simp]: "length (string_bytes s) = length s"
  by (simp add: string_bytes_def)

lemma bytes_string_bytes [simp]: "bytes_string (string_bytes s) = s"
proof -
  have "char_of (unat (of_nat (of_char c) :: u8)) = c" for c
  proof -
    have "(of_char c :: nat) < 256" by (cases c) (simp add: of_char_def)
    then have "unat (of_nat (of_char c) :: u8) = of_char c" by (simp add: unat_of_nat)
    then show ?thesis by simp
  qed
  then show ?thesis by (simp add: bytes_string_def string_bytes_def map_idI)
qed

end
