(* ===== verification/Wal_Record.thy ===== *)
theory Wal_Record
  imports Byte_Buffer
begin

text \<open>
  The records of the write-ahead log, \<^verbatim>\<open>src/wal/record.cpp\<close> and \<^verbatim>\<open>include/wal/record.h\<close>: their
  constructors, the binary encoding and the decoder used at recovery. \<^verbatim>\<open>record_len_\<close> is a
  16-bit field computed from \<^verbatim>\<open>size_t\<close> sums, so it wraps; the encoder allocates
  \<^verbatim>\<open>record_len_\<close> bytes and copies into them, which is out of bounds (\<^const>\<open>None\<close>) when it
  wrapped.
\<close>

subsection \<open>Records\<close>

datatype OperationType = OP_CREATE | OP_COMMIT | OP_ROLLBACK | OP_PUT | OP_DELETE | OP_INVALID u8

text \<open>\<^verbatim>\<open>static_cast\<close> between the enumeration and a byte; values outside the enumerators are kept.\<close>

definition op_byte :: "OperationType \<Rightarrow> u8" where
  "op_byte op = (case op of OP_CREATE \<Rightarrow> 0 | OP_COMMIT \<Rightarrow> 1 | OP_ROLLBACK \<Rightarrow> 2 | OP_PUT \<Rightarrow> 3
     | OP_DELETE \<Rightarrow> 4 | OP_INVALID b \<Rightarrow> b)"

definition byte_op :: "u8 \<Rightarrow> OperationType" where
  "byte_op b = (if b = 0 then OP_CREATE else if b = 1 then OP_COMMIT else if b = 2 then OP_ROLLBACK
     else if b = 3 then OP_PUT else if b = 4 then OP_DELETE else OP_INVALID b)"

record Record =
  rec_tranc_id :: u64
  rec_operation_type :: OperationType
  rec_key :: string
  rec_value :: string
  rec_len :: u16

definition createRecord :: "u64 \<Rightarrow> Record" where
  "createRecord tranc_id = \<lparr>rec_tranc_id = tranc_id, rec_operation_type = OP_CREATE,
     rec_key = [], rec_value = [], rec_len = of_nat (2 + 8 + 1)\<rparr>"

definition commitRecord :: "u64 \<Rightarrow> Record" where
  "commitRecord tranc_id = \<lparr>rec_tranc_id = tranc_id, rec_operation_type = OP_COMMIT,
     rec_key = [], rec_value = [], rec_len = of_nat (2 + 8 + 1)\<rparr>"

definition rollbackRecord :: "u64 \<Rightarrow> Record" where
  "rollbackRecord tranc_id = \<lparr>rec_tranc_id = tranc_id, rec_operation_type = OP_ROLLBACK,
     rec_key = [], rec_value = [], rec_len = of_nat (2 + 8 + 1)\<rparr>"

definition putRecord :: "u64 \<Rightarrow> string \<Rightarrow> string \<Rightarrow> Record" where
  "putRecord tranc_id key value = \<lparr>rec_tranc_id = tranc_id, rec_operation_type = OP_PUT,
     rec_key = key, rec_value = value,
     rec_len = of_nat (2 + 8 + 1 + 2 + length key + 2 + length value)\<rparr>"

definition deleteRecord :: "u64 \<Rightarrow> string \<Rightarrow> Record" where
  "deleteRecord tranc_id key = \<lparr>rec_tranc_id = tranc_id, rec_operation_type = OP_DELETE,
     rec_key = key, rec_value = [], rec_len = of_nat (2 + 8 + 1 + 2 + length key)\<rparr>"

subsection \<open>Encoding\<close>

definition encode_key :: "bytes \<Rightarrow> nat \<Rightarrow> string \<Rightarrow> bytes option" where
  "encode_key rec key_offset key =
     do { rec \<leftarrow> memcpy_to rec key_offset (enc16 (of_nat (length key)));
          memcpy_to rec (key_offset + 2) (string_bytes key) }"

definition Record_encode :: "Record \<Rightarrow> bytes option" where
  "Record_encode r =
     (let key_offset = 2 + 8 + 1
      in do { rec \<leftarrow> memcpy_to (replicate (unat (rec_len r)) 0) 0 (enc16 (rec_len r));
              rec \<leftarrow> memcpy_to rec 2 (enc64 (rec_tranc_id r));
              rec \<leftarrow> memcpy_to rec (2 + 8) [op_byte (rec_operation_type r)];
              (if rec_operation_type r = OP_PUT
               then do { rec \<leftarrow> encode_key rec key_offset (rec_key r);
                         encode_key rec (key_offset + 2 + length (rec_key r)) (rec_value r) }
               else if rec_operation_type r = OP_DELETE
               then encode_key rec key_offset (rec_key r)
               else Some rec) })"

subsection \<open>Decoding\<close>

datatype wal_error = DataLengthMismatch

text \<open>A 16-bit length followed by that many characters.\<close>

definition decode_string :: "bytes \<Rightarrow> nat \<Rightarrow> (string \<times> nat) option" where
  "decode_string data pos =
     do { lb \<leftarrow> read_at data pos 2;
          kb \<leftarrow> read_at data (pos + 2) (unat (dec16 lb));
          Some (bytes_string kb, pos + 2 + unat (dec16 lb)) }"

text \<open>One iteration of the loop of \<^verbatim>\<open>decode\<close>.\<close>

definition decode_one :: "bytes \<Rightarrow> nat \<Rightarrow> (wal_error + Record \<times> nat) option" where
  "decode_one data pos =
     do { lb \<leftarrow> read_at data pos 2;
          let rlen = dec16 lb;
          (if length data < unat rlen then Some (Inl DataLengthMismatch)
           else do {
             tb \<leftarrow> read_at data (pos + 2) 8;
             ob \<leftarrow> read_at data (pos + 10) 1;
             let op = byte_op (hd ob);
             let rec = \<lparr>rec_tranc_id = dec64 tb, rec_operation_type = op, rec_key = [],
                         rec_value = [], rec_len = rlen\<rparr>;
             (if op = OP_PUT
              then do { (key, p1) \<leftarrow> decode_string data (pos + 11);
                        (val, p2) \<leftarrow> decode_string data p1;
                        Some (Inr (rec\<lparr>rec_key := key, rec_value := val\<rparr>, p2)) }
              else if op = OP_DELETE
              then do { (key, p1) \<leftarrow> decode_string data (pos + 11);
                        Some (Inr (rec\<lparr>rec_key := key\<rparr>, p1)) }
              else Some (Inr (rec, pos + 11))) }) }"

lemma decode_string_advances: "decode_string data pos = Some (s, p) \<Longrightarrow> pos < p"
  by (auto simp: decode_string_def bind_Some_conv)

lemma decode_one_advances: "decode_one data pos = Some (Inr (r, p)) \<Longrightarrow> pos < p"
  by (fastforce simp: decode_one_def Let_def bind_Some_conv split: if_splits dest: decode_string_advances)

function decode_loop :: "bytes \<Rightarrow> nat \<Rightarrow> Record list \<Rightarrow> (wal_error + Record list) option" where
  "decode_loop data pos records =
     (if pos < length data
      then case decode_one data pos of
             None \<Rightarrow> None
           | Some (Inl e) \<Rightarrow> Some (Inl e)
           | Some (Inr (r, pos')) \<Rightarrow> decode_loop data pos' (records @ [r])
      else Some (Inr records))"
  by pat_completeness auto
termination
  by (relation "measure (\<lambda>(data, pos, records). length data - pos)")
     (auto dest: decode_one_advances)

declare decode_loop.simps [simp del]

definition Record_decode :: "bytes \<Rightarrow> (wal_error + Record list) option" where
  "Record_decode data =
     (if length data < 2 + 8 + 1 then Some (Inr []) else decode_loop data 0 [])"

definition Record_eq :: "Record \<Rightarrow> Record \<Rightarrow> bool" where
  "Record_eq a b =
     (if rec_tranc_id a \<noteq> rec_tranc_id b \<or> rec_operation_type a \<noteq> rec_operation_type b then False
      else if rec_operation_type a \<in> {OP_CREATE, OP_COMMIT, OP_ROLLBACK} then True
      else if rec_operation_type a = OP_DELETE then rec_key a = rec_key b
      else rec_key a = rec_key b \<and> rec_value a = rec_value b)"

subsection \<open>Layout of an encoded record\<close>

text \<open>What the class can construct.\<close>

inductive constructed :: "Record \<Rightarrow> bool" where
  "constructed (createRecord t)"
| "constructed (commitRecord t)"
| "constructed (rollbackRecord t)"
| "constructed (putRecord t k v)"
| "constructed (deleteRecord t k)"

definition wire_len :: "Record \<Rightarrow> nat" where
  "wire_len r = (if rec_operation_type r = OP_PUT then 15 + length (rec_key r) + length (rec_value r)
     else if rec_operation_type r = OP_DELETE then 13 + length (rec_key r) else 11)"

definition wire_string :: "string \<Rightarrow> bytes" where
  "wire_string s = enc16 (of_nat (length s)) @ string_bytes s"

definition wire :: "Record \<Rightarrow> bytes" where
  "wire r = enc16 (rec_len r) @ enc64 (rec_tranc_id r) @ [op_byte (rec_operation_type r)] @
     (if rec_operation_type r = OP_PUT then wire_string (rec_key r) @ wire_string (rec_value r)
      else if rec_operation_type r = OP_DELETE then wire_string (rec_key r) else [])"

lemma length_wire: "length (wire r) = wire_len r"
  by (simp add: wire_def wire_len_def wire_string_def)

lemma byte_op_byte [simp]: "constructed r \<Longrightarrow> byte_op (op_byte (rec_operation_type r)) = rec_operation_type r"
  by (auto simp: byte_op_def op_byte_def createRecord_def commitRecord_def rollbackRecord_def
      putRecord_def deleteRecord_def elim: constructed.cases)

lemma encode_key_fill:
  "off = length pre \<Longrightarrow> encode_key (pre @ replicate n 0) off s =
     (if 2 + length s \<le> n then Some ((pre @ wire_string s) @ replicate (n - (2 + length s)) 0) else None)"
  by (auto simp: encode_key_def wire_string_def memcpy_fill
      memcpy_fill [where pre = "pre @ enc16 (of_nat (length s))", simplified])

text \<open>The encoder succeeds exactly when the buffer holds the whole record.\<close>

lemma encode_wire:
  "Record_encode r = (if wire_len r \<le> unat (rec_len r)
     then Some (wire r @ replicate (unat (rec_len r) - wire_len r) 0) else None)"
proof -
  define n where "n = unat (rec_len r)"
  let ?h1 = "enc16 (rec_len r)" and ?h2 = "enc16 (rec_len r) @ enc64 (rec_tranc_id r)"
  define h3 where "h3 = ?h2 @ [op_byte (rec_operation_type r)]"
  have l3: "length h3 = 11" by (simp add: h3_def)
  have 1: "memcpy_to (replicate n 0) 0 ?h1 = (if 2 \<le> n then Some (?h1 @ replicate (n - 2) 0) else None)"
    using memcpy_fill [of 0 "[]"] by simp
  have 2: "memcpy_to (?h1 @ replicate m 0) 2 (enc64 (rec_tranc_id r)) =
      (if 8 \<le> m then Some (?h2 @ replicate (m - 8) 0) else None)" for m
    using memcpy_fill [of 2 ?h1] by simp
  have 3: "memcpy_to (?h2 @ replicate m 0) 10 [op_byte (rec_operation_type r)] =
      (if 1 \<le> m then Some (h3 @ replicate (m - 1) 0) else None)" for m
    using memcpy_fill [of 10 ?h2] by (simp add: h3_def)
  have k: "encode_key (h3 @ replicate m 0) 11 s = (if 2 + length s \<le> m
      then Some ((h3 @ wire_string s) @ replicate (m - (2 + length s)) 0) else None)" for m s
    by (rule encode_key_fill) (simp add: l3)
  have v: "encode_key ((h3 @ wire_string s) @ replicate m 0) (13 + length s) s' = (if 2 + length s' \<le> m
      then Some (((h3 @ wire_string s) @ wire_string s') @ replicate (m - (2 + length s')) 0) else None)" for m s s'
    by (rule encode_key_fill) (simp add: wire_string_def l3)
  note v' = v [unfolded append_assoc]
  have w: "wire r = h3 @ (if rec_operation_type r = OP_PUT then wire_string (rec_key r) @ wire_string (rec_value r)
      else if rec_operation_type r = OP_DELETE then wire_string (rec_key r) else [])"
    by (simp add: wire_def h3_def)
  have hdr0: "do { rec \<leftarrow> memcpy_to (replicate n 0) 0 ?h1; rec \<leftarrow> memcpy_to rec 2 (enc64 (rec_tranc_id r));
      memcpy_to rec 10 [op_byte (rec_operation_type r)] } =
      (if 11 \<le> n then Some (h3 @ replicate (n - 11) 0) else None)"
  proof (cases "10 \<le> n")
    case True
    then obtain m where m: "n = 10 + m" using le_Suc_ex by blast
    show ?thesis using 1 2 [of "n - 2"] 3 [of m] by (simp add: m del: append_assoc)
  next
    case False
    then show ?thesis by (auto simp: 1 2)
  qed
  have hdr: "Record_encode r = (if 11 \<le> n
     then (if rec_operation_type r = OP_PUT
               then do { rec \<leftarrow> encode_key (h3 @ replicate (n - 11) 0) 11 (rec_key r);
                         encode_key rec (13 + length (rec_key r)) (rec_value r) }
               else if rec_operation_type r = OP_DELETE
               then encode_key (h3 @ replicate (n - 11) 0) 11 (rec_key r)
               else Some (h3 @ replicate (n - 11) 0)) else None)"
    using hdr0 unfolding Record_encode_def Let_def n_def [symmetric]
    by (auto simp: bind_Some_conv bind_eq_None_conv simp flip: bind_assoc)
  consider "rec_operation_type r = OP_PUT" | "rec_operation_type r = OP_DELETE"
    | "rec_operation_type r \<noteq> OP_PUT" "rec_operation_type r \<noteq> OP_DELETE" by blast
  then show ?thesis
  proof cases
    case 1
    have eq: "n - 11 - (2 + a) - (2 + b) = n - (15 + a + b)" for a b by simp
    from 1 show ?thesis
      by (auto simp: hdr k v' w wire_len_def eq simp flip: n_def simp del: diff_diff_left)
  next
    case 2
    have eq: "n - 11 - (2 + a) = n - (13 + a)" for a by simp
    from 2 show ?thesis by (auto simp: hdr k w wire_len_def eq simp flip: n_def simp del: diff_diff_left)
  next
    case 3
    then show ?thesis by (simp add: hdr w wire_len_def flip: n_def)
  qed
qed

lemma constructed_len: "constructed r \<Longrightarrow> rec_len r = of_nat (wire_len r)"
  by (auto simp: wire_len_def createRecord_def commitRecord_def rollbackRecord_def
      putRecord_def deleteRecord_def elim!: constructed.cases)

lemma decode_wire_string:
  assumes "length s < 65536" "pos = length pre"
  shows "decode_string (pre @ wire_string s @ post) pos = Some (s, pos + 2 + length s)"
proof -
  let ?l = "enc16 (of_nat (length s))"
  have "read_at (pre @ ?l @ string_bytes s @ post) pos 2 = Some ?l"
    by (rule read_at_append) (use assms in auto)
  moreover have "read_at ((pre @ ?l) @ string_bytes s @ post) (pos + 2) (length s) = Some (string_bytes s)"
    by (rule read_at_append) (use assms in auto)
  ultimately show ?thesis using assms by (simp add: decode_string_def wire_string_def)
qed

lemma decode_one_wire:
  assumes c: "constructed r" and l: "wire_len r < 65536" and pos: "pos = length pre"
  shows "decode_one (pre @ wire r @ post) pos = Some (Inr (r, pos + wire_len r))"
proof -
  let ?d = "pre @ wire r @ post" and ?ob = "[op_byte (rec_operation_type r)]"
  define body where "body = (if rec_operation_type r = OP_PUT then wire_string (rec_key r) @ wire_string (rec_value r)
      else if rec_operation_type r = OP_DELETE then wire_string (rec_key r) else [])"
  have d: "?d = pre @ enc16 (rec_len r) @ enc64 (rec_tranc_id r) @ ?ob @ body @ post"
    by (simp add: wire_def body_def)
  have len: "unat (rec_len r) = wire_len r" using constructed_len [OF c] l by simp
  have 1: "read_at ?d pos 2 = Some (enc16 (rec_len r))"
    unfolding d by (rule read_at_append) (use pos in auto)
  have 2: "read_at ?d (pos + 2) 8 = Some (enc64 (rec_tranc_id r))"
    using read_at_append [of "pos + 2" "pre @ enc16 (rec_len r)" 8 "enc64 (rec_tranc_id r)" "?ob @ body @ post"] pos
    by (simp add: d)
  have 3: "read_at ?d (pos + 10) 1 = Some ?ob"
    using read_at_append [of "pos + 10" "pre @ enc16 (rec_len r) @ enc64 (rec_tranc_id r)" 1 ?ob "body @ post"] pos
    by (simp add: d)
  define pre' where "pre' = pre @ enc16 (rec_len r) @ enc64 (rec_tranc_id r) @ ?ob"
  have d': "?d = pre' @ body @ post" and p': "pos + 11 = length pre'" by (simp_all add: d pre'_def pos)
  have fits: "\<not> length ?d < unat (rec_len r)" using len length_wire [of r] by simp
  have key: "decode_string ?d (pos + 11) = Some (rec_key r, pos + 13 + length (rec_key r))"
    if "rec_operation_type r = OP_PUT \<or> rec_operation_type r = OP_DELETE"
  proof -
    have "\<exists>rest. body = wire_string (rec_key r) @ rest" using that by (auto simp: body_def)
    then obtain rest where "body = wire_string (rec_key r) @ rest" by blast
    then have "?d = pre' @ wire_string (rec_key r) @ rest @ post" by (simp add: d')
    moreover have "length (rec_key r) < 65536" using that l by (auto simp: wire_len_def split: if_splits)
    ultimately show ?thesis
      using decode_wire_string [of "rec_key r" "pos + 11" pre' "rest @ post"] p' by (simp only:) simp
  qed
  have val: "decode_string ?d (pos + 13 + length (rec_key r)) =
      Some (rec_value r, pos + 15 + length (rec_key r) + length (rec_value r))"
    if "rec_operation_type r = OP_PUT"
  proof -
    have "?d = (pre' @ wire_string (rec_key r)) @ wire_string (rec_value r) @ post"
      using that by (simp add: d' body_def)
    moreover have "length (rec_value r) < 65536" using that l by (simp add: wire_len_def)
    moreover have "pos + 13 + length (rec_key r) = length (pre' @ wire_string (rec_key r))"
      using p' by (simp add: wire_string_def)
    ultimately show ?thesis
      using decode_wire_string [of "rec_value r" "pos + 13 + length (rec_key r)" "pre' @ wire_string (rec_key r)" post]
      by (simp only:) simp
  qed
  show ?thesis using c
    by (cases rule: constructed.cases)
       (use 1 2 3 fits key val byte_op_byte [OF c] in \<open>simp_all add: decode_one_def Let_def wire_len_def
         createRecord_def commitRecord_def rollbackRecord_def putRecord_def deleteRecord_def\<close>)
qed

definition storable :: "Record \<Rightarrow> bool" where
  "storable r \<longleftrightarrow> constructed r \<and> wire_len r < 65536"

lemma storable_encode: "storable r \<Longrightarrow> Record_encode r = Some (wire r)"
  using constructed_len [of r] by (simp add: encode_wire storable_def)

lemma wire_len_pos: "11 \<le> wire_len r"
  by (simp add: wire_len_def)

text \<open>The loop consumes whole records one by one.\<close>

lemma decode_loop_wires:
  assumes "\<forall>r\<in>set rs. storable r"
  shows "decode_loop (pre @ concat (map wire rs) @ post) (length pre) acc =
    decode_loop (pre @ concat (map wire rs) @ post) (length pre + length (concat (map wire rs))) (acc @ rs)"
  using assms
proof (induction rs arbitrary: pre acc)
  case (Cons r rs)
  let ?d = "pre @ concat (map wire (r # rs)) @ post"
  have r: "constructed r" "wire_len r < 65536" using Cons.prems by (auto simp: storable_def)
  have "decode_one ?d (length pre) = Some (Inr (r, length pre + wire_len r))"
    using decode_one_wire [OF r refl, of pre "concat (map wire rs) @ post"] by simp
  moreover have "length pre < length ?d" using length_wire [of r] wire_len_pos [of r] by simp
  ultimately have "decode_loop ?d (length pre) acc = decode_loop ?d (length (pre @ wire r)) (acc @ [r])"
    by (subst decode_loop.simps) (simp only: if_True option.case sum.case prod.case length_append length_wire)
  also have "\<dots> = decode_loop ?d (length (pre @ wire r) + length (concat (map wire rs))) ((acc @ [r]) @ rs)"
    using Cons.IH [of "pre @ wire r" "acc @ [r]"] Cons.prems by simp
  finally show ?case by (simp add: add.assoc)
qed simp

lemma those_encode:
  "\<forall>r\<in>set rs. storable r \<Longrightarrow> those (map Record_encode rs) = Some (map wire rs)"
  by (induction rs) (auto simp: storable_encode)

lemma decode_wires:
  assumes "\<forall>r\<in>set rs. storable r"
  shows "Record_decode (concat (map wire rs)) = Some (Inr rs)"
proof (cases rs)
  case (Cons r rest)
  then have "11 \<le> length (concat (map wire rs))" using length_wire [of r] wire_len_pos [of r] by simp
  then show ?thesis
    using decode_loop_wires [OF assms, of "[]" "[]" "[]"]
    by (simp add: Record_decode_def decode_loop.simps [of _ "length (concat (map wire rs))"])
qed (simp add: Record_decode_def)

text \<open>What the encoder accepts can be stored.\<close>

lemma encode_storable: "constructed r \<Longrightarrow> Record_encode r \<noteq> None \<Longrightarrow> storable r"
proof -
  assume c: "constructed r" and "Record_encode r \<noteq> None"
  then have "wire_len r \<le> wire_len r mod 65536"
    using constructed_len [OF c] by (simp add: encode_wire unat_of_nat split: if_splits)
  then have "wire_len r < 65536" using mod_less_divisor [of 65536 "wire_len r"] by linarith
  with c show "storable r" by (simp add: storable_def)
qed

subsection \<open>Properties\<close>

text \<open>
  C20: encoding any sequence of records built by the constructors, each of which fits the 16-bit
  length field, succeeds, and decoding the concatenated log returns exactly these records
  in order.
\<close>

theorem wal_roundtrip:
  assumes "\<forall>r\<in>set rs. constructed r \<and> wire_len r < 65536"
  shows "\<exists>bs. those (map Record_encode rs) = Some bs \<and> Record_decode (concat bs) = Some (Inr rs)"
proof -
  have rs: "\<forall>r\<in>set rs. storable r" using assms by (simp add: storable_def)
  with those_encode [OF rs] decode_wires [OF rs] show ?thesis by blast
qed

lemma wal_roundtrip_witness:
  "\<exists>bs. those (map Record_encode [createRecord 7, putRecord 7 ''k'' ''v'', commitRecord 7]) = Some bs \<and>
     Record_decode (concat bs) = Some (Inr [createRecord 7, putRecord 7 ''k'' ''v'', commitRecord 7])"
  using wal_roundtrip [of "[createRecord 7, putRecord 7 ''k'' ''v'', commitRecord 7]"]
  by (simp add: constructed.intros)
     (simp add: wire_len_def createRecord_def putRecord_def commitRecord_def)

text \<open>
  C40: encoding a put record is memory safe exactly when its 15 bytes of framing, the key and the
  value together stay below 65536 bytes; beyond that the length field wraps and the encoder
  writes past the end of its buffer.
\<close>

theorem wal_put_encode_safe_iff:
  "Record_encode (putRecord t k v) \<noteq> None \<longleftrightarrow> 15 + length k + length v < 65536"
proof -
  let ?n = "15 + length k + length v"
  have "wire_len (putRecord t k v) = ?n" by (simp add: wire_len_def putRecord_def)
  moreover have "unat (rec_len (putRecord t k v)) = ?n mod 65536"
    unfolding putRecord_def by (simp add: unat_of_nat del: of_nat_add)
  moreover have "?n \<le> ?n mod 65536 \<longleftrightarrow> ?n < 65536"
    using mod_less_divisor [of 65536 ?n] mod_less [of ?n 65536] by linarith
  ultimately show ?thesis by (simp add: encode_wire)
qed

text \<open>
  A log that ends in a torn record is not detected: when fewer than the 11 header bytes of the
  last record were written, the decoder reads past the end of the data instead of reporting
  an error, as its length check compares with the whole log and not with what is left of it.
\<close>

theorem wal_torn_header_out_of_bounds:
  assumes "\<forall>r\<in>set rs. constructed r \<and> wire_len r < 65536" "constructed r" "wire_len r < 65536"
    and n: "0 < n" "n < 11" and len: "wire_len r \<le> length (concat (map wire rs))"
  shows "Record_decode (concat (map wire rs) @ take n (wire r)) = None"
proof -
  let ?p = "concat (map wire rs)" and ?d = "concat (map wire rs) @ take n (wire r)"
  have rs: "\<forall>r\<in>set rs. storable r" using assms(1) by (simp add: storable_def)
  have rl: "unat (rec_len r) = wire_len r" using constructed_len [OF assms(2)] assms(3) by simp
  have nl: "length (take n (wire r)) = n" using n wire_len_pos [of r] by (simp add: length_wire)
  have lend: "length ?d = length ?p + n" using nl by simp
  have hd: "read_at ?d (length ?p) 2 = Some (enc16 (rec_len r))" if "2 \<le> n"
    using that by (simp add: read_at_def wire_def lend)
  have beyond: "read_at ?d a m = None" if "length ?p + n < a + m" for a m
    using that lend by (simp add: read_at_def)
  have "decode_one ?d (length ?p) = None"
  proof (cases "2 \<le> n")
    case True
    have "\<not> length ?d < unat (rec_len r)" using len rl lend by simp
    then show ?thesis
      using hd [OF True] beyond [of "length ?p + 10" 1] n
      by (cases "read_at ?d (length ?p + 2) 8") (simp_all add: decode_one_def)
  next
    case False
    then show ?thesis using beyond [of "length ?p" 2] by (simp add: decode_one_def)
  qed
  then have "decode_loop ?d (length ?p) rs = None"
    using n lend by (subst decode_loop.simps) (simp only: less_add_same_cancel1 if_True option.case)
  moreover have "11 \<le> length ?d" using len wire_len_pos [of r] by simp
  ultimately show ?thesis
    using decode_loop_wires [OF rs, of "[]" "take n (wire r)" "[]"] by (simp add: Record_decode_def)
qed

lemma wal_torn_header_out_of_bounds_witness:
  "Record_decode (wire (createRecord 1) @ take 5 (wire (commitRecord 1))) = None"
  using wal_torn_header_out_of_bounds [of "[createRecord 1]" "commitRecord 1" 5]
  by (simp add: constructed.intros)
     (simp add: wire_len_def createRecord_def commitRecord_def length_wire)

end
