(* ===== verification/Block_Meta.thy ===== *)
theory Block_Meta
  imports Byte_Buffer
begin

text \<open>
  The metadata section of an SST file, \<^verbatim>\<open>src/block/blockmeta.cpp\<close>: the index entries (offset,
  first key and last key of each block), their encoding and the checked decoder. The hash
  \<^verbatim>\<open>std::hash<std::string_view>\<close> is the parameter \<open>hash\<close>; nothing is assumed of it. Lengths
  are cut to 16 bits and offsets to 32 bits as in the code.
\<close>

record BlockMeta =
  bm_offset :: u64
  bm_first_key :: string
  bm_last_key :: string

subsection \<open>Encoding\<close>

definition entry_bytes :: "BlockMeta \<Rightarrow> nat" where
  "entry_bytes meta = 4 + 2 + length (bm_first_key meta) + 2 + length (bm_last_key meta)"

definition resize :: "bytes \<Rightarrow> nat \<Rightarrow> bytes" where
  "resize buf n = take n buf @ replicate (n - length buf) 0"

text \<open>A cut length and that many characters of the key.\<close>

definition put_key :: "bytes \<Rightarrow> nat \<Rightarrow> string \<Rightarrow> (bytes \<times> nat) option" where
  "put_key buf ptr key =
     (let key_len = (of_nat (length key) :: u16)
      in do { buf \<leftarrow> memcpy_to buf ptr (enc16 key_len);
              buf \<leftarrow> memcpy_to buf (ptr + 2) (string_bytes (take (unat key_len) key));
              Some (buf, ptr + 2 + unat key_len) })"

fun put_entries :: "bytes \<Rightarrow> nat \<Rightarrow> BlockMeta list \<Rightarrow> (bytes \<times> nat) option" where
  "put_entries buf ptr [] = Some (buf, ptr)"
| "put_entries buf ptr (meta # metas) =
     do { buf \<leftarrow> memcpy_to buf ptr (enc32 (ucast (bm_offset meta)));
          (buf, ptr) \<leftarrow> put_key buf (ptr + 4) (bm_first_key meta);
          (buf, ptr) \<leftarrow> put_key buf ptr (bm_last_key meta);
          put_entries buf ptr metas }"

definition encode_meta_to_slice :: "(bytes \<Rightarrow> u64) \<Rightarrow> BlockMeta list \<Rightarrow> bytes \<Rightarrow> bytes option" where
  "encode_meta_to_slice hash meta_entries metadata =
     (let num_entries = (of_nat (length meta_entries) :: u32);
          total_size = 4 + sum_list (map entry_bytes meta_entries) + 4
      in do { buf \<leftarrow> memcpy_to (resize metadata total_size) 0 (enc32 num_entries);
              (buf, ptr) \<leftarrow> put_entries buf 4 meta_entries;
              let h = (ucast (hash (take (ptr - 4) (drop 4 buf))) :: u32);
              memcpy_to buf ptr (enc32 h) })"

subsection \<open>Decoding\<close>

datatype meta_error = InvalidMetadataSize | MetadataHashMismatch

definition get_key :: "bytes \<Rightarrow> nat \<Rightarrow> (string \<times> nat) option" where
  "get_key buf ptr =
     do { lb \<leftarrow> read_at buf ptr 2;
          kb \<leftarrow> read_at buf (ptr + 2) (unat (dec16 lb));
          Some (bytes_string kb, ptr + 2 + unat (dec16 lb)) }"

fun get_entries :: "bytes \<Rightarrow> nat \<Rightarrow> nat \<Rightarrow> BlockMeta list \<Rightarrow> (BlockMeta list \<times> nat) option" where
  "get_entries buf ptr 0 metas = Some (metas, ptr)"
| "get_entries buf ptr (Suc i) metas =
     do { ob \<leftarrow> read_at buf ptr 4;
          (first_key, p1) \<leftarrow> get_key buf (ptr + 4);
          (last_key, p2) \<leftarrow> get_key buf p1;
          get_entries buf p2 i
            (metas @ [\<lparr>bm_offset = ucast (dec32 ob), bm_first_key = first_key, bm_last_key = last_key\<rparr>]) }"

definition decode_meta_from_slice :: "(bytes \<Rightarrow> u64) \<Rightarrow> bytes \<Rightarrow> (meta_error + BlockMeta list) option" where
  "decode_meta_from_slice hash metadata =
     (if length metadata < 4 * 2 then Some (Inl InvalidMetadataSize)
      else do { nb \<leftarrow> read_at metadata 0 4;
                (metas, ptr) \<leftarrow> get_entries metadata 4 (unat (dec32 nb)) [];
                hb \<leftarrow> read_at metadata ptr 4;
                let computed = (ucast (hash (take (ptr - 4) (drop 4 metadata))) :: u32);
                Some (if dec32 hb \<noteq> computed then Inl MetadataHashMismatch else Inr metas) })"

subsection \<open>Layout\<close>

definition meta_ok :: "BlockMeta \<Rightarrow> bool" where
  "meta_ok m \<longleftrightarrow> unat (bm_offset m) < 2 ^ 32 \<and> length (bm_first_key m) < 65536 \<and> length (bm_last_key m) < 65536"

definition key_wire :: "string \<Rightarrow> bytes" where
  "key_wire s = enc16 (of_nat (length s)) @ string_bytes s"

definition meta_wire :: "BlockMeta \<Rightarrow> bytes" where
  "meta_wire m = enc32 (ucast (bm_offset m)) @ key_wire (bm_first_key m) @ key_wire (bm_last_key m)"

lemma length_key_wire [simp]: "length (key_wire s) = 2 + length s"
  by (simp add: key_wire_def)

lemma length_meta_wire: "length (meta_wire m) = entry_bytes m"
  by (simp add: meta_wire_def entry_bytes_def)

lemma memcpy_over:
  "off = length pre \<Longrightarrow> length src \<le> length rest \<Longrightarrow>
   memcpy_to (pre @ rest) off src = Some (pre @ src @ drop (length src) rest)"
  by (simp add: memcpy_to_def)

lemma put_key_over:
  assumes "ptr = length pre" "length s < 65536" "2 + length s \<le> length rest"
  shows "put_key (pre @ rest) ptr s = Some (pre @ key_wire s @ drop (2 + length s) rest, ptr + 2 + length s)"
proof -
  let ?l = "enc16 (of_nat (length s))"
  have "memcpy_to (pre @ rest) ptr ?l = Some (pre @ ?l @ drop 2 rest)"
    using memcpy_over [of ptr pre ?l rest] assms by simp
  moreover have "memcpy_to ((pre @ ?l) @ drop 2 rest) (ptr + 2) (string_bytes s) =
      Some ((pre @ ?l) @ string_bytes s @ drop (length s) (drop 2 rest))"
    using memcpy_over [of "ptr + 2" "pre @ ?l" "string_bytes s" "drop 2 rest"] assms by simp
  ultimately show ?thesis using assms by (simp add: put_key_def key_wire_def add.commute)
qed

lemma get_key_wire:
  assumes "ptr = length pre" "length s < 65536"
  shows "get_key (pre @ key_wire s @ post) ptr = Some (s, ptr + 2 + length s)"
proof -
  let ?l = "enc16 (of_nat (length s))"
  have "read_at (pre @ ?l @ string_bytes s @ post) ptr 2 = Some ?l"
    by (rule read_at_append) (use assms in auto)
  moreover have "read_at ((pre @ ?l) @ string_bytes s @ post) (ptr + 2) (length s) = Some (string_bytes s)"
    by (rule read_at_append) (use assms in auto)
  ultimately show ?thesis using assms by (simp add: get_key_def key_wire_def)
qed

lemma put_entries_over:
  assumes "\<forall>m\<in>set ms. meta_ok m" "ptr = length pre" "sum_list (map entry_bytes ms) \<le> length rest"
  shows "put_entries (pre @ rest) ptr ms =
    Some (pre @ concat (map meta_wire ms) @ drop (sum_list (map entry_bytes ms)) rest,
          ptr + sum_list (map entry_bytes ms))"
  using assms
proof (induction ms arbitrary: pre ptr rest)
  case (Cons m ms)
  let ?o = "enc32 (ucast (bm_offset m))" and ?f = "bm_first_key m" and ?l = "bm_last_key m"
  have ok: "length ?f < 65536" "length ?l < 65536" using Cons.prems(1) by (auto simp: meta_ok_def)
  have room: "8 + length ?f + length ?l \<le> length rest" using Cons.prems(3) by (simp add: entry_bytes_def)
  have 1: "memcpy_to (pre @ rest) ptr ?o = Some (pre @ ?o @ drop 4 rest)"
    using memcpy_over [of ptr pre ?o rest] Cons.prems(2) room by simp
  have 2: "put_key (pre @ ?o @ drop 4 rest) (ptr + 4) ?f =
      Some ((pre @ ?o @ key_wire ?f) @ drop (6 + length ?f) rest, ptr + 6 + length ?f)"
    using put_key_over [of "ptr + 4" "pre @ ?o" ?f "drop 4 rest"] Cons.prems(2) ok room by (simp add: add.commute)
  have 3: "put_key ((pre @ ?o @ key_wire ?f) @ drop (6 + length ?f) rest) (ptr + 6 + length ?f) ?l =
      Some ((pre @ meta_wire m) @ drop (entry_bytes m) rest, ptr + entry_bytes m)"
    using put_key_over [of "ptr + 6 + length ?f" "pre @ ?o @ key_wire ?f" ?l "drop (6 + length ?f) rest"]
      Cons.prems(2) ok room by (simp add: meta_wire_def entry_bytes_def add_ac)
  have "put_entries ((pre @ meta_wire m) @ drop (entry_bytes m) rest) (ptr + entry_bytes m) ms =
      Some ((pre @ meta_wire m) @ concat (map meta_wire ms) @
        drop (sum_list (map entry_bytes ms)) (drop (entry_bytes m) rest),
        ptr + entry_bytes m + sum_list (map entry_bytes ms))"
    by (rule Cons.IH) (use Cons.prems in \<open>auto simp: length_meta_wire\<close>)
  then show ?case using 1 2 3 by (simp add: add_ac)
qed simp

lemma ucast_offset: "unat w < 2 ^ 32 \<Longrightarrow> (ucast (ucast (w :: u64) :: u32) :: u64) = w"
  by (rule word_unat_eq_iff [THEN iffD2]) (simp add: unsigned_ucast_eq unsigned_take_bit_eq take_bit_nat_eq_self)

lemma get_entries_wire:
  assumes "\<forall>m\<in>set ms. meta_ok m" "ptr = length pre"
  shows "get_entries (pre @ concat (map meta_wire ms) @ post) ptr (length ms) acc =
    Some (acc @ ms, ptr + sum_list (map entry_bytes ms))"
  using assms
proof (induction ms arbitrary: pre ptr acc)
  case (Cons m ms)
  let ?o = "enc32 (ucast (bm_offset m))" and ?f = "bm_first_key m" and ?l = "bm_last_key m"
  let ?d = "pre @ concat (map meta_wire (m # ms)) @ post"
  let ?tl = "concat (map meta_wire ms) @ post"
  have ok: "length ?f < 65536" "length ?l < 65536" "unat (bm_offset m) < 2 ^ 32"
    using Cons.prems(1) by (auto simp: meta_ok_def)
  have d: "?d = pre @ ?o @ key_wire ?f @ key_wire ?l @ ?tl" by (simp add: meta_wire_def)
  have 1: "read_at ?d ptr 4 = Some ?o"
    unfolding d by (rule read_at_append) (use Cons.prems(2) in auto)
  have 2: "get_key ?d (ptr + 4) = Some (?f, ptr + 6 + length ?f)"
    using get_key_wire [of "ptr + 4" "pre @ ?o" ?f "key_wire ?l @ ?tl"] Cons.prems(2) ok(1)
    by (simp add: meta_wire_def)
  have 3: "get_key ?d (ptr + 6 + length ?f) = Some (?l, ptr + entry_bytes m)"
    using get_key_wire [of "ptr + 6 + length ?f" "pre @ ?o @ key_wire ?f" ?l ?tl] Cons.prems(2) ok(2)
    by (simp add: meta_wire_def entry_bytes_def)
  have 4: "get_entries ?d (ptr + entry_bytes m) (length ms) (acc @ [m]) =
      Some ((acc @ [m]) @ ms, ptr + entry_bytes m + sum_list (map entry_bytes ms))"
    using Cons.IH [of "ptr + entry_bytes m" "pre @ meta_wire m" "acc @ [m]"] Cons.prems
    by (simp add: length_meta_wire)
  have m: "\<lparr>bm_offset = ucast (dec32 ?o), bm_first_key = ?f, bm_last_key = ?l\<rparr> = m"
    using ucast_offset [OF ok(3)] by simp
  define D where "D = ?d"
  have "get_entries D ptr (Suc (length ms)) acc = Some (acc @ m # ms, ptr + entry_bytes m + sum_list (map entry_bytes ms))"
    using 1 2 3 4 m unfolding D_def [symmetric] by (simp del: dec_enc)
  then show ?case by (simp add: D_def add.assoc)
qed simp

definition section_wire :: "BlockMeta list \<Rightarrow> u32 \<Rightarrow> bytes" where
  "section_wire ms h = enc32 (of_nat (length ms)) @ concat (map meta_wire ms) @ enc32 h"

definition body_hash :: "(bytes \<Rightarrow> u64) \<Rightarrow> BlockMeta list \<Rightarrow> u32" where
  "body_hash hash ms = ucast (hash (concat (map meta_wire ms)))"

lemma length_body: "length (concat (map meta_wire ms)) = sum_list (map entry_bytes ms)"
  by (induction ms) (auto simp: length_meta_wire)

lemma encode_section:
  assumes "\<forall>m\<in>set ms. meta_ok m"
  shows "encode_meta_to_slice hash ms old = Some (section_wire ms (body_hash hash ms))"
proof -
  define N where "N = sum_list (map entry_bytes ms)"
  let ?b = "concat (map meta_wire ms)" and ?n = "enc32 (of_nat (length ms))"
  define r where "r = resize old (4 + N + 4)"
  have lr: "length r = N + 8" by (simp add: resize_def r_def)
  have 1: "memcpy_to r 0 ?n = Some (?n @ drop 4 r)"
    using memcpy_over [of 0 "[]" ?n r] lr by simp
  have 2: "put_entries (?n @ drop 4 r) 4 ms = Some (?n @ ?b @ drop N (drop 4 r), 4 + N)"
    unfolding N_def by (rule put_entries_over [OF assms]) (use lr in \<open>auto simp: N_def\<close>)
  have body: "take N (drop 4 (?n @ ?b @ drop N (drop 4 r))) = ?b"
    by (simp add: N_def length_body)
  have 3: "memcpy_to ((?n @ ?b) @ drop N (drop 4 r)) (4 + N) (enc32 h) = Some (section_wire ms h)" for h
    using memcpy_over [of "4 + N" "?n @ ?b" "enc32 h" "drop N (drop 4 r)"] lr
    by (simp add: length_body N_def section_wire_def)
  show ?thesis
    unfolding encode_meta_to_slice_def Let_def N_def [symmetric] r_def [symmetric]
    using body 3 by (simp only: 1 2 Option.bind.simps prod.case body_hash_def append_assoc diff_add_inverse)
qed

lemma decode_section:
  assumes "\<forall>m\<in>set ms. meta_ok m" "length ms < 2 ^ 32"
  shows "decode_meta_from_slice hash (section_wire ms h) =
    Some (if h = body_hash hash ms then Inr ms else Inl MetadataHashMismatch)"
proof -
  let ?b = "concat (map meta_wire ms)" and ?n = "enc32 (of_nat (length ms))" and ?d = "section_wire ms h"
  define N where "N = sum_list (map entry_bytes ms)"
  have 1: "read_at ?d 0 4 = Some ?n" unfolding section_wire_def
    using read_at_append [of 0 "[]" 4 ?n "?b @ enc32 h"] by (simp only: append_Nil length_enc list.size)
  have cnt: "unat (of_nat (length ms) :: u32) = length ms" using assms(2) by (simp add: unat_of_nat)
  have 2: "get_entries ?d 4 (length ms) [] = Some (ms, 4 + N)"
    using get_entries_wire [OF assms(1), of 4 ?n "enc32 h" "[]"] by (simp add: section_wire_def N_def)
  have 3: "read_at ?d (4 + N) 4 = Some (enc32 h)"
  proof -
    have "length (?n @ ?b) = 4 + N" by (simp only: length_append length_enc length_body N_def)
    then have "read_at ((?n @ ?b) @ enc32 h) (4 + N) 4 = Some (enc32 h)"
      by (intro read_at_end) (simp_all only: length_enc)
    then show ?thesis by (simp only: section_wire_def append_assoc)
  qed
  have 4: "take N (drop 4 ?d) = ?b" by (simp add: section_wire_def N_def length_body)
  have 5: "\<not> length ?d < 8" by (simp add: section_wire_def)
  show ?thesis using 5 4 by (simp add: decode_meta_from_slice_def 1 2 3 cnt body_hash_def)
qed

subsection \<open>Properties\<close>

text \<open>
  C35: the metadata of an SST whose offsets fit 32 bits and whose keys are shorter than 65536 bytes is
  encoded without a write out of bounds, whatever the target vector held before, and decoding
  returns the same entries, for every hash function.
\<close>

theorem blockmeta_roundtrip:
  assumes "\<forall>m\<in>set ms. meta_ok m" "length ms < 2 ^ 32"
  shows "\<exists>b. encode_meta_to_slice hash ms old = Some b \<and> decode_meta_from_slice hash b = Some (Inr ms)"
  using encode_section [OF assms(1)] decode_section [OF assms] by auto

lemma blockmeta_roundtrip_witness:
  "\<exists>b. encode_meta_to_slice (\<lambda>bs. of_nat (le_val bs))
         [\<lparr>bm_offset = 7, bm_first_key = ''a'', bm_last_key = ''m''\<rparr>] [1, 2, 3] = Some b \<and>
       decode_meta_from_slice (\<lambda>bs. of_nat (le_val bs)) b =
         Some (Inr [\<lparr>bm_offset = 7, bm_first_key = ''a'', bm_last_key = ''m''\<rparr>])"
  using blockmeta_roundtrip [of "[\<lparr>bm_offset = 7, bm_first_key = ''a'', bm_last_key = ''m''\<rparr>]"
      "\<lambda>bs. of_nat (le_val bs)" "[1, 2, 3]"]
  by (simp add: meta_ok_def)

text \<open>
  C36: an encoded metadata section whose stored hash was altered is rejected with the hash mismatch
  error, and a section of fewer than eight bytes with the size error.
\<close>

theorem blockmeta_corruption_detected:
  assumes "\<forall>m\<in>set ms. meta_ok m" "length ms < 2 ^ 32"
    and "encode_meta_to_slice hash ms [] = Some b" "length h = 4" "h \<noteq> drop (length b - 4) b"
    and "length short < 8"
  shows "decode_meta_from_slice hash (take (length b - 4) b @ h) = Some (Inl MetadataHashMismatch) \<and>
    decode_meta_from_slice hash short = Some (Inl InvalidMetadataSize)"
proof -
  have b: "b = section_wire ms (body_hash hash ms)" using assms(3) encode_section [OF assms(1)] by simp
  have h: "h = enc32 (dec32 h)" using assms(4) by (rule enc_dec32)
  have "take (length b - 4) b @ h = section_wire ms (dec32 h)"
    using b h by (simp add: section_wire_def)
  moreover have "dec32 h \<noteq> body_hash hash ms" using assms(5) b h by (auto simp: section_wire_def)
  ultimately show ?thesis
    using decode_section [OF assms(1,2), of hash "dec32 h"] assms(6)
    by (simp add: decode_meta_from_slice_def)
qed

lemma blockmeta_corruption_detected_witness:
  "decode_meta_from_slice (\<lambda>bs. 5) (take 4 [0, 0, 0, 0, 5, 0, 0, 0] @ [6, 0, 0, 0]) = Some (Inl MetadataHashMismatch)"
proof -
  have "encode_meta_to_slice (\<lambda>bs. 5) [] [] = Some [0, 0, 0, 0, 5, 0, 0, 0]"
    using encode_section [of "[]" "\<lambda>bs. 5" "[]"]
    by (simp add: section_wire_def body_hash_def enc32_def le_bytes_4)
  from blockmeta_corruption_detected [OF _ _ this, of "[6, 0, 0, 0]" "[]"] show ?thesis by simp
qed

end
