(* ===== verification/Bloom_Filter.thy ===== *)
theory Bloom_Filter
  imports Byte_Buffer
begin

text \<open>
  The Bloom filter of an SST, \<^verbatim>\<open>src/utils/bloom_filter.cpp\<close>: insertion, query, and the binary
  encoding in which it is stored. \<^verbatim>\<open>std::hash<std::string>\<close> is the parameter \<open>hasher\<close>; the double
  hashing computes on 64-bit words and wraps. The floating point computation of the two sizes
  in the constructor is the parameter \<open>sizing\<close>, and \<^verbatim>\<open>false_positive_rate_\<close> is kept as the 64 bits
  of the \<^verbatim>\<open>double\<close>.
\<close>

unbundle bit_operations_syntax

record BloomFilter =
  expected_elements :: u64
  false_positive_rate :: u64
  num_bits :: u64
  num_hashes :: u64
  bits :: "bool list"

definition BloomFilter_new :: "(u64 \<Rightarrow> u64 \<Rightarrow> u64 \<times> u64) \<Rightarrow> u64 \<Rightarrow> u64 \<Rightarrow> BloomFilter" where
  "BloomFilter_new sizing n rate =
     (case sizing n rate of (nb, nh) \<Rightarrow>
        \<lparr>expected_elements = n, false_positive_rate = rate, num_bits = nb, num_hashes = nh,
         bits = replicate (unat nb) False\<rparr>)"

definition hash1 :: "(string \<Rightarrow> u64) \<Rightarrow> string \<Rightarrow> u64" where
  "hash1 hasher key = hasher key"

definition hash2 :: "(string \<Rightarrow> u64) \<Rightarrow> string \<Rightarrow> u64" where
  "hash2 hasher key = hasher (key @ ''salt'')"

text \<open>The bit index of the \<open>idx\<close>-th hash function; the remainder by zero is undefined.\<close>

definition bf_hash :: "(string \<Rightarrow> u64) \<Rightarrow> BloomFilter \<Rightarrow> string \<Rightarrow> nat \<Rightarrow> nat option" where
  "bf_hash hasher bf key idx =
     (if num_bits bf = 0 then None
      else Some (unat ((hash1 hasher key + of_nat idx * hash2 hasher key) mod num_bits bf)))"

fun add_loop :: "(string \<Rightarrow> u64) \<Rightarrow> string \<Rightarrow> nat list \<Rightarrow> BloomFilter \<Rightarrow> BloomFilter option" where
  "add_loop hasher key [] bf = Some bf"
| "add_loop hasher key (i # is) bf =
     do { p \<leftarrow> bf_hash hasher bf key i;
          (if p < length (bits bf) then add_loop hasher key is (bf\<lparr>bits := (bits bf)[p := True]\<rparr>)
           else None) }"

definition BloomFilter_add :: "(string \<Rightarrow> u64) \<Rightarrow> BloomFilter \<Rightarrow> string \<Rightarrow> BloomFilter option" where
  "BloomFilter_add hasher bf key = add_loop hasher key [0..<unat (num_hashes bf)] bf"

fun contains_loop :: "(string \<Rightarrow> u64) \<Rightarrow> string \<Rightarrow> nat list \<Rightarrow> BloomFilter \<Rightarrow> bool option" where
  "contains_loop hasher key [] bf = Some True"
| "contains_loop hasher key (i # is) bf =
     do { p \<leftarrow> bf_hash hasher bf key i;
          b \<leftarrow> nth_opt (bits bf) p;
          (if \<not> b then Some False else contains_loop hasher key is bf) }"

definition possibly_contains :: "(string \<Rightarrow> u64) \<Rightarrow> BloomFilter \<Rightarrow> string \<Rightarrow> bool option" where
  "possibly_contains hasher bf key = contains_loop hasher key [0..<unat (num_hashes bf)] bf"

definition BloomFilter_clear :: "BloomFilter \<Rightarrow> BloomFilter" where
  "BloomFilter_clear bf = bf\<lparr>bits := replicate (length (bits bf)) False\<rparr>"

subsection \<open>Encoding\<close>

definition encode_byte :: "bool list \<Rightarrow> nat \<Rightarrow> nat \<Rightarrow> u8" where
  "encode_byte bs nb i =
     fold (\<lambda>j byte. if i * 8 + j < nb then byte OR push_bit j (of_bool (bs ! (i * 8 + j))) else byte)
       [0..<8] 0"

definition num_bytes :: "u64 \<Rightarrow> nat" where
  "num_bytes nb = unat ((nb + 7) div 8)"

text \<open>Every bit below \<^verbatim>\<open>num_bits_\<close> is read, so a shorter bit vector is read out of range.\<close>

definition BloomFilter_encode :: "BloomFilter \<Rightarrow> bytes option" where
  "BloomFilter_encode bf =
     (if length (bits bf) < min (unat (num_bits bf)) (8 * num_bytes (num_bits bf)) then None
      else Some (enc64 (expected_elements bf) @ enc64 (false_positive_rate bf) @ enc64 (num_bits bf) @
             enc64 (num_hashes bf) @
             map (encode_byte (bits bf) (unat (num_bits bf))) [0..<num_bytes (num_bits bf)]))"

definition decode_byte :: "u8 \<Rightarrow> nat \<Rightarrow> nat \<Rightarrow> bool list \<Rightarrow> bool list" where
  "decode_byte byte nb i bs =
     fold (\<lambda>j bs. if i * 8 + j < nb then bs[i * 8 + j := (drop_bit j byte AND 1 = 1)] else bs) [0..<8] bs"

fun decode_bytes :: "bytes \<Rightarrow> nat \<Rightarrow> nat \<Rightarrow> nat \<Rightarrow> bool list \<Rightarrow> bool list option" where
  "decode_bytes data index nb 0 bs = Some bs"
| "decode_bytes data index nb (Suc n) bs =
     do { bs \<leftarrow> decode_bytes data index nb n bs;
          byte \<leftarrow> nth_opt data (index + n);
          Some (decode_byte byte nb n bs) }"

definition BloomFilter_decode :: "bytes \<Rightarrow> BloomFilter option" where
  "BloomFilter_decode data =
     do { b1 \<leftarrow> read_at data 0 8;
          b2 \<leftarrow> read_at data 8 8;
          b3 \<leftarrow> read_at data 16 8;
          b4 \<leftarrow> read_at data 24 8;
          bs \<leftarrow> decode_bytes data 32 (unat (dec64 b3)) (num_bytes (dec64 b3))
                  (replicate (unat (dec64 b3)) False);
          Some \<lparr>expected_elements = dec64 b1, false_positive_rate = dec64 b2, num_bits = dec64 b3,
                num_hashes = dec64 b4, bits = bs\<rparr> }"

subsection \<open>Insertion and query\<close>

definition bf_wf :: "BloomFilter \<Rightarrow> bool" where
  "bf_wf bf \<longleftrightarrow> 0 < num_bits bf \<and> length (bits bf) = unat (num_bits bf)"

lemma bf_hash_wf:
  assumes "bf_wf bf"
  obtains p where "bf_hash hasher bf key i = Some p" "p < length (bits bf)"
proof -
  have "unat (w mod num_bits bf) < unat (num_bits bf)" for w
    using assms by (simp add: bf_wf_def unat_mod word_less_nat_alt)
  moreover have "num_bits bf \<noteq> 0" using assms by (auto simp: bf_wf_def)
  ultimately show thesis
    using that [of "unat ((hash1 hasher key + of_nat i * hash2 hasher key) mod num_bits bf)"] assms
    by (simp add: bf_hash_def bf_wf_def)
qed

lemma bf_hash_bits [simp]: "bf_hash hasher (bf\<lparr>bits := bs\<rparr>) key i = bf_hash hasher bf key i"
  by (simp add: bf_hash_def)

text \<open>A filter with at least the bits of another one.\<close>

definition bf_le :: "BloomFilter \<Rightarrow> BloomFilter \<Rightarrow> bool" where
  "bf_le a b \<longleftrightarrow> num_bits a = num_bits b \<and> num_hashes a = num_hashes b \<and>
     length (bits a) = length (bits b) \<and> (\<forall>p<length (bits a). bits a ! p \<longrightarrow> bits b ! p)"

lemma bf_le_refl: "bf_le a a"
  by (simp add: bf_le_def)

lemma bf_le_trans: "bf_le a b \<Longrightarrow> bf_le b c \<Longrightarrow> bf_le a c"
  by (auto simp: bf_le_def)

lemma bf_hash_le: "bf_le a b \<Longrightarrow> bf_hash hasher a key i = bf_hash hasher b key i"
  by (simp add: bf_le_def bf_hash_def)

lemma add_loop_wf:
  assumes "bf_wf bf"
  shows "\<exists>bf'. add_loop hasher key is bf = Some bf' \<and> bf_wf bf' \<and> bf_le bf bf' \<and>
    (\<forall>i\<in>set is. \<exists>p. bf_hash hasher bf key i = Some p \<and> bits bf' ! p)"
  using assms
proof (induction "is" arbitrary: bf)
  case (Cons i "is")
  obtain p where p: "bf_hash hasher bf key i = Some p" "p < length (bits bf)"
    using bf_hash_wf [OF Cons.prems] .
  let ?bf = "bf\<lparr>bits := (bits bf)[p := True]\<rparr>"
  have "bf_wf ?bf" using Cons.prems by (simp add: bf_wf_def)
  then obtain bf' where bf': "add_loop hasher key is ?bf = Some bf'" "bf_wf bf'" "bf_le ?bf bf'"
    "\<forall>i\<in>set is. \<exists>p. bf_hash hasher ?bf key i = Some p \<and> bits bf' ! p"
    using Cons.IH by blast
  have "bf_le bf ?bf" using p(2) by (auto simp: bf_le_def nth_list_update)
  moreover have "bits bf' ! p" using bf'(3) p(2) by (simp add: bf_le_def)
  ultimately show ?case using bf' p bf_le_trans by (auto intro!: exI [of _ bf'])
qed (auto simp: bf_le_refl)

lemma contains_loop_True:
  assumes "bf_wf bf" "\<forall>i\<in>set is. \<exists>p. bf_hash hasher bf key i = Some p \<and> bits bf ! p"
  shows "contains_loop hasher key is bf = Some True"
  using assms(2)
proof (induction "is")
  case (Cons i "is")
  obtain p where p: "bf_hash hasher bf key i = Some p" "p < length (bits bf)"
    using bf_hash_wf [OF assms(1)] .
  with Cons show ?case by auto
qed simp

lemma add_contains_later:
  assumes "bf_wf bf"
  shows "\<exists>bf'. BloomFilter_add hasher bf key = Some bf' \<and> bf_wf bf' \<and> bf_le bf bf' \<and>
    (\<forall>c. bf_le bf' c \<longrightarrow> possibly_contains hasher c key = Some True)"
proof -
  obtain bf' where bf': "BloomFilter_add hasher bf key = Some bf'" "bf_wf bf'" "bf_le bf bf'"
    "\<forall>i<unat (num_hashes bf). \<exists>p. bf_hash hasher bf key i = Some p \<and> bits bf' ! p"
    using add_loop_wf [OF assms, of hasher key "[0..<unat (num_hashes bf)]"]
    by (auto simp: BloomFilter_add_def)
  have "possibly_contains hasher c key = Some True" if c: "bf_le bf' c" for c
    unfolding possibly_contains_def
  proof (rule contains_loop_True)
    show "bf_wf c" using bf'(2) c by (auto simp: bf_wf_def bf_le_def)
    have bc: "bf_le bf c" by (rule bf_le_trans [OF bf'(3) c])
    show "\<forall>i\<in>set [0..<unat (num_hashes c)]. \<exists>p. bf_hash hasher c key i = Some p \<and> bits c ! p"
    proof
      fix i assume "i \<in> set [0..<unat (num_hashes c)]"
      then have "i < unat (num_hashes bf)" using bc by (simp add: bf_le_def)
      then obtain p where p: "bf_hash hasher bf key i = Some p" "bits bf' ! p" using bf'(4) by blast
      moreover obtain q where "bf_hash hasher bf key i = Some q" "q < length (bits bf)"
        using bf_hash_wf [OF assms] .
      ultimately have "p < length (bits bf')" using bf'(3) by (simp add: bf_le_def)
      with p c have "bits c ! p" by (simp add: bf_le_def)
      with p bf_hash_le [OF bc] show "\<exists>p. bf_hash hasher c key i = Some p \<and> bits c ! p" by auto
    qed
  qed
  with bf' show ?thesis by blast
qed

fun add_all :: "(string \<Rightarrow> u64) \<Rightarrow> BloomFilter \<Rightarrow> string list \<Rightarrow> BloomFilter option" where
  "add_all hasher bf [] = Some bf"
| "add_all hasher bf (k # ks) = do { bf' \<leftarrow> BloomFilter_add hasher bf k; add_all hasher bf' ks }"

lemma add_all_contains:
  assumes "bf_wf bf"
  shows "\<exists>bf'. add_all hasher bf ks = Some bf' \<and> bf_wf bf' \<and> bf_le bf bf' \<and>
    (\<forall>k\<in>set ks. possibly_contains hasher bf' k = Some True)"
  using assms
proof (induction ks arbitrary: bf)
  case (Cons k ks)
  obtain b1 where b1: "BloomFilter_add hasher bf k = Some b1" "bf_wf b1" "bf_le bf b1"
    "\<And>c. bf_le b1 c \<Longrightarrow> possibly_contains hasher c k = Some True"
    using add_contains_later [OF Cons.prems] by blast
  obtain b2 where b2: "add_all hasher b1 ks = Some b2" "bf_wf b2" "bf_le b1 b2"
    "\<forall>k\<in>set ks. possibly_contains hasher b2 k = Some True"
    using Cons.IH [OF b1(2)] by blast
  show ?case using b1 b2 bf_le_trans by auto
qed (auto simp: bf_le_refl)

subsection \<open>The bit encoding\<close>

lemma bit_encode_fold:
  "bit (fold (\<lambda>j byte. if P j then byte OR push_bit j (of_bool (f j)) else byte) [0..<m] 0 :: u8) p \<longleftrightarrow>
   p < 8 \<and> p < m \<and> P p \<and> f p"
  by (induction m) (auto simp: bit_or_iff bit_push_bit_iff bit_of_bool_iff less_Suc_eq bit_imp_le_length
      dest: bit_imp_le_length)

lemma bit_encode_byte:
  "j < 8 \<Longrightarrow> bit (encode_byte bs nb i) j \<longleftrightarrow> i * 8 + j < nb \<and> bs ! (i * 8 + j)"
  by (simp add: encode_byte_def bit_encode_fold)

lemma drop_bit_and_one: "drop_bit j (w :: u8) AND 1 = 1 \<longleftrightarrow> bit w j"
  by (simp add: bit_iff_odd_drop_bit and_one_eq odd_iff_mod_2_eq_one)

lemma decode_fold:
  "length (fold (\<lambda>j bs. if i * 8 + j < nb then bs[i * 8 + j := g j] else bs) [0..<m] bs) = length bs"
  "p < length bs \<Longrightarrow> fold (\<lambda>j bs. if i * 8 + j < nb then bs[i * 8 + j := g j] else bs) [0..<m] bs ! p =
     (if i * 8 \<le> p \<and> p < i * 8 + m \<and> p < nb then g (p - i * 8) else bs ! p)"
  by (induction m) (auto simp: nth_list_update less_Suc_eq)

lemma decode_byte_nth:
  "length (decode_byte byte nb i bs) = length bs"
  "p < length bs \<Longrightarrow> decode_byte byte nb i bs ! p =
     (if p div 8 = i \<and> p < nb then bit byte (p mod 8) else bs ! p)"
proof -
  show "length (decode_byte byte nb i bs) = length bs" by (simp add: decode_byte_def decode_fold)
  assume "p < length bs"
  moreover have "i * 8 \<le> p \<and> p < i * 8 + 8 \<longleftrightarrow> p div 8 = i" by auto
  moreover have "p - i * 8 = p mod 8" if "p div 8 = i" using that by (auto simp: minus_div_mult_eq_mod)
  ultimately show "decode_byte byte nb i bs ! p =
     (if p div 8 = i \<and> p < nb then bit byte (p mod 8) else bs ! p)"
    by (auto simp: decode_byte_def decode_fold drop_bit_and_one)
qed

lemma decode_bytes_nth:
  assumes "index + n \<le> length data"
  shows "\<exists>bs'. decode_bytes data index nb n bs = Some bs' \<and> length bs' = length bs \<and>
    (\<forall>p<length bs. bs' ! p = (if p div 8 < n \<and> p < nb then bit (data ! (index + p div 8)) (p mod 8) else bs ! p))"
  using assms
proof (induction n)
  case (Suc n)
  then obtain bs' where IH: "decode_bytes data index nb n bs = Some bs'" "length bs' = length bs"
    "\<forall>p<length bs. bs' ! p = (if p div 8 < n \<and> p < nb then bit (data ! (index + p div 8)) (p mod 8) else bs ! p)"
    by auto
  show ?case
    using Suc.prems IH decode_byte_nth [where byte = "data ! (index + n)" and nb = nb and i = n and bs = bs']
    by (auto simp: less_Suc_eq)
qed simp

lemma num_bytes_cover:
  assumes "unat nb + 7 < 2 ^ 64"
  shows "num_bytes nb = (unat nb + 7) div 8"
proof -
  have "unat (nb + 7) = unat nb + 7" using assms by (subst unat_add_lem [THEN iffD1]) auto
  then show ?thesis by (simp add: num_bytes_def unat_div)
qed

subsection \<open>Properties\<close>

text \<open>
  C25: the filter has no false negatives: after any sequence of insertions every inserted key is
  reported as possibly contained, for every hash function, and neither operation indexes the
  bit vector out of range.
\<close>

theorem bloom_no_false_negatives:
  assumes "bf_wf bf" "k \<in> set ks"
  shows "\<exists>bf'. add_all hasher bf ks = Some bf' \<and> bf_wf bf' \<and> possibly_contains hasher bf' k = Some True"
  using add_all_contains [OF assms(1), of hasher ks] assms(2) by blast

lemma bloom_no_false_negatives_witness:
  "\<exists>bf'. add_all (\<lambda>s. of_nat (length s)) (BloomFilter_new (\<lambda>n r. (64, 3)) 5 0) [''a'', ''bc''] = Some bf' \<and>
     possibly_contains (\<lambda>s. of_nat (length s)) bf' ''bc'' = Some True"
  using bloom_no_false_negatives [of "BloomFilter_new (\<lambda>n r. (64, 3)) 5 0" "''bc''" "[''a'', ''bc'']"
      "\<lambda>s. of_nat (length s)"]
  by (auto simp: bf_wf_def BloomFilter_new_def)

text \<open>
  Storing a filter in an SST and reading it back returns the same filter, bit for bit.
\<close>

theorem bloom_roundtrip:
  assumes "bf_wf bf" "unat (num_bits bf) + 7 < 2 ^ 64"
  shows "\<exists>data. BloomFilter_encode bf = Some data \<and> BloomFilter_decode data = Some bf"
proof -
  let ?nb = "unat (num_bits bf)"
  define N where "N = num_bytes (num_bits bf)"
  define body where "body = map (encode_byte (bits bf) ?nb) [0..<N]"
  define hdr where "hdr = enc64 (expected_elements bf) @ enc64 (false_positive_rate bf) @
    enc64 (num_bits bf) @ enc64 (num_hashes bf)"
  have len: "length (bits bf) = ?nb" using assms(1) by (simp add: bf_wf_def)
  have enc: "BloomFilter_encode bf = Some (hdr @ body)"
    using len by (simp add: BloomFilter_encode_def hdr_def body_def N_def)
  have lh: "length hdr = 32" by (simp add: hdr_def)
  have r: "read_at (hdr @ body) 0 8 = Some (enc64 (expected_elements bf))"
    "read_at (hdr @ body) 8 8 = Some (enc64 (false_positive_rate bf))"
    "read_at (hdr @ body) 16 8 = Some (enc64 (num_bits bf))"
    "read_at (hdr @ body) 24 8 = Some (enc64 (num_hashes bf))"
    by (simp_all add: hdr_def read_at_def)
  obtain bs where bs: "decode_bytes (hdr @ body) 32 ?nb N (replicate ?nb False) = Some bs" "length bs = ?nb"
    "\<forall>p<?nb. bs ! p = (if p div 8 < N \<and> p < ?nb then bit ((hdr @ body) ! (32 + p div 8)) (p mod 8) else replicate ?nb False ! p)"
    using decode_bytes_nth [of 32 N "hdr @ body" ?nb "replicate ?nb False"] lh by (auto simp: body_def)
  have "bs = bits bf"
  proof (rule nth_equalityI)
    show "length bs = length (bits bf)" using bs(2) len by simp
    fix p assume "p < length bs"
    then have p: "p < ?nb" using bs(2) by simp
    have "p div 8 < N" unfolding N_def num_bytes_cover [OF assms(2)] using p by linarith
    then have "(hdr @ body) ! (32 + p div 8) = encode_byte (bits bf) ?nb (p div 8)"
      using lh by (simp add: nth_append body_def)
    then show "bs ! p = bits bf ! p"
      using bs(3) p \<open>p div 8 < N\<close> bit_encode_byte [of "p mod 8" "bits bf" ?nb "p div 8"] by simp
  qed
  then have "BloomFilter_decode (hdr @ body) = Some bf"
    using r bs(1) by (simp add: BloomFilter_decode_def N_def)
  with enc show ?thesis by blast
qed

lemma bloom_roundtrip_witness:
  "\<exists>data. BloomFilter_encode (BloomFilter_new (\<lambda>n r. (13, 3)) 5 0) = Some data \<and>
     BloomFilter_decode data = Some (BloomFilter_new (\<lambda>n r. (13, 3)) 5 0)"
  using bloom_roundtrip [of "BloomFilter_new (\<lambda>n r. (13, 3)) 5 0"]
  by (simp add: bf_wf_def BloomFilter_new_def)

end
