(* ===== verification/Block_Cache.thy ===== *)
theory Block_Cache
  imports Lsm_Prelude "HOL-Library.AList"
begin

text \<open>
  The LRU-K block cache, \<^verbatim>\<open>src/block/block_cache.cpp\<close>. A list iterator is an index into
  \<open>nodes\<close>; the two \<^verbatim>\<open>std::list\<close>s hold such indices, so an iterator stays valid when its
  node is spliced, as in C++. Splicing or erasing an iterator that does not belong to the
  list, and \<^verbatim>\<open>back()\<close> of an empty list, are undefined (\<^const>\<open>None\<close>). The hash table is an
  association list with one entry per key. The mutex makes every operation atomic.
\<close>

record 'b CacheItem =
  ci_sst_id :: int
  ci_block_id :: int
  ci_block :: 'b
  ci_access_count :: u64

record 'b BlockCache =
  capacity :: nat
  bc_k :: u64
  nodes :: "'b CacheItem list"
  list_greater_k :: "nat list"
  list_less_k :: "nat list"
  cache_map :: "((int \<times> int) \<times> nat) list"
  total_requests :: u64
  hit_requests :: u64

definition BlockCache_new :: "nat \<Rightarrow> u64 \<Rightarrow> 'b BlockCache" where
  "BlockCache_new cap k = \<lparr>capacity = cap, bc_k = k, nodes = [], list_greater_k = [], list_less_k = [],
     cache_map = [], total_requests = 0, hit_requests = 0\<rparr>"

definition item_key :: "'b CacheItem \<Rightarrow> int \<times> int" where
  "item_key i = (ci_sst_id i, ci_block_id i)"

text \<open>\<^verbatim>\<open>list.splice(list.begin(), list, it)\<close>\<close>

definition splice_front :: "nat list \<Rightarrow> nat \<Rightarrow> nat list option" where
  "splice_front l it = (if it \<in> set l then Some (it # removeAll it l) else None)"

definition update_access_count :: "'b BlockCache \<Rightarrow> nat \<Rightarrow> 'b BlockCache option" where
  "update_access_count c it =
     do { item \<leftarrow> nth_opt (nodes c) it;
          let item = item\<lparr>ci_access_count := ci_access_count item + 1\<rparr>;
          let c = c\<lparr>nodes := (nodes c)[it := item]\<rparr>;
          (if ci_access_count item < bc_k c
           then do { l \<leftarrow> splice_front (list_less_k c) it; Some (c\<lparr>list_less_k := l\<rparr>) }
           else if ci_access_count item = bc_k c
           then if it \<in> set (list_less_k c)
                then Some (c\<lparr>list_less_k := removeAll it (list_less_k c),
                             nodes := nodes c @ [item],
                             list_greater_k := length (nodes c) # list_greater_k c,
                             cache_map := AList.update (item_key item) (length (nodes c)) (cache_map c)\<rparr>)
                else None
           else do { l \<leftarrow> splice_front (list_greater_k c) it; Some (c\<lparr>list_greater_k := l\<rparr>) }) }"

definition BlockCache_get :: "'b BlockCache \<Rightarrow> int \<Rightarrow> int \<Rightarrow> ('b option \<times> 'b BlockCache) option" where
  "BlockCache_get c sst_id block_id =
     (let c = c\<lparr>total_requests := total_requests c + 1\<rparr>
      in case map_of (cache_map c) (sst_id, block_id) of
           None \<Rightarrow> Some (None, c)
         | Some it \<Rightarrow>
             do { c \<leftarrow> update_access_count (c\<lparr>hit_requests := hit_requests c + 1\<rparr>) it;
                  it' \<leftarrow> map_of (cache_map c) (sst_id, block_id);
                  item \<leftarrow> nth_opt (nodes c) it';
                  Some (Some (ci_block item), c) })"

definition evict :: "'b BlockCache \<Rightarrow> 'b BlockCache option" where
  "evict c =
     (if list_less_k c \<noteq> []
      then do { item \<leftarrow> nth_opt (nodes c) (last (list_less_k c));
                Some (c\<lparr>cache_map := AList.delete (item_key item) (cache_map c),
                        list_less_k := butlast (list_less_k c)\<rparr>) }
      else if list_greater_k c \<noteq> []
      then do { item \<leftarrow> nth_opt (nodes c) (last (list_greater_k c));
                Some (c\<lparr>cache_map := AList.delete (item_key item) (cache_map c),
                        list_greater_k := butlast (list_greater_k c)\<rparr>) }
      else None)"

definition BlockCache_put :: "'b BlockCache \<Rightarrow> int \<Rightarrow> int \<Rightarrow> 'b \<Rightarrow> 'b BlockCache option" where
  "BlockCache_put c sst_id block_id block =
     (case map_of (cache_map c) (sst_id, block_id) of
        Some it \<Rightarrow>
          do { item \<leftarrow> nth_opt (nodes c) it;
               update_access_count (c\<lparr>nodes := (nodes c)[it := item\<lparr>ci_block := block\<rparr>]\<rparr>) it }
      | None \<Rightarrow>
          do { c \<leftarrow> (if capacity c \<le> length (cache_map c) then evict c else Some c);
               Some (c\<lparr>nodes := nodes c @ [\<lparr>ci_sst_id = sst_id, ci_block_id = block_id, ci_block = block,
                                            ci_access_count = 1\<rparr>],
                       list_less_k := length (nodes c) # list_less_k c,
                       cache_map := AList.update (sst_id, block_id) (length (nodes c)) (cache_map c)\<rparr>) })"

subsection \<open>The invariant\<close>

definition bc_ids :: "'b BlockCache \<Rightarrow> nat list" where
  "bc_ids c = list_less_k c @ list_greater_k c"

text \<open>
  The hash table indexes exactly the listed nodes by their keys, the nodes of the first list
  were accessed less than \<open>k\<close> times and those of the second at least \<open>k\<close> times.
\<close>

definition bc_index :: "'b BlockCache \<Rightarrow> bool" where
  "bc_index c \<longleftrightarrow> distinct (bc_ids c) \<and> (\<forall>id\<in>set (bc_ids c). id < length (nodes c)) \<and>
     distinct (map fst (cache_map c)) \<and>
     (\<forall>key id. map_of (cache_map c) key = Some id \<longleftrightarrow> id \<in> set (bc_ids c) \<and> item_key (nodes c ! id) = key)"

definition bc_counts :: "'b BlockCache \<Rightarrow> bool" where
  "bc_counts c \<longleftrightarrow>
     (\<forall>id\<in>set (list_less_k c). 1 \<le> ci_access_count (nodes c ! id) \<and> ci_access_count (nodes c ! id) < bc_k c) \<and>
     (\<forall>id\<in>set (list_greater_k c). bc_k c \<le> ci_access_count (nodes c ! id))"

definition bc_inv :: "'b BlockCache \<Rightarrow> bool" where
  "bc_inv c \<longleftrightarrow> 1 \<le> capacity c \<and> 2 \<le> bc_k c \<and> bc_index c \<and> bc_counts c \<and>
     length (cache_map c) \<le> capacity c"

text \<open>The counter of no cached block is about to wrap.\<close>

definition bc_unsaturated :: "'b BlockCache \<Rightarrow> bool" where
  "bc_unsaturated c \<longleftrightarrow> (\<forall>id\<in>set (bc_ids c). unat (ci_access_count (nodes c ! id)) < 2 ^ 64 - 1)"

definition bc_lookup :: "'b BlockCache \<Rightarrow> int \<times> int \<Rightarrow> 'b option" where
  "bc_lookup c key = map_option (\<lambda>id. ci_block (nodes c ! id)) (map_of (cache_map c) key)"

lemma bc_indexD:
  assumes "bc_index c"
  shows "distinct (bc_ids c)" "\<And>id. id \<in> set (bc_ids c) \<Longrightarrow> id < length (nodes c)"
    "distinct (map fst (cache_map c))"
    "\<And>key id. map_of (cache_map c) key = Some id \<longleftrightarrow> id \<in> set (bc_ids c) \<and> item_key (nodes c ! id) = key"
  using assms by (auto simp: bc_index_def)

lemma bc_key_inj:
  assumes "bc_index c" "a \<in> set (bc_ids c)" "b \<in> set (bc_ids c)" "item_key (nodes c ! a) = item_key (nodes c ! b)"
  shows "a = b"
proof -
  have "map_of (cache_map c) (item_key (nodes c ! a)) = Some a"
    "map_of (cache_map c) (item_key (nodes c ! a)) = Some b"
    using bc_indexD(4) [OF assms(1)] assms(2-4) by simp_all
  then show ?thesis by simp
qed

lemma length_distinct_keys: "distinct (map fst al) \<Longrightarrow> length al = card (dom (map_of al))"
  by (simp add: dom_map_of_conv_image_fst distinct_card flip: set_map)

lemma bc_length:
  assumes "bc_index c"
  shows "length (cache_map c) = length (bc_ids c)"
proof -
  have "dom (map_of (cache_map c)) = (\<lambda>id. item_key (nodes c ! id)) ` set (bc_ids c)"
    using bc_indexD(4) [OF assms] by (auto simp: dom_def image_iff) metis
  moreover have "inj_on (\<lambda>id. item_key (nodes c ! id)) (set (bc_ids c))"
    using bc_key_inj [OF assms] by (auto intro: inj_onI)
  ultimately show ?thesis
    using length_distinct_keys [OF bc_indexD(3) [OF assms]] distinct_card [OF bc_indexD(1) [OF assms]]
    by (simp add: card_image)
qed

lemma item_key_update:
  "item_key item = item_key (xs ! it) \<Longrightarrow> item_key (xs[it := item] ! j) = item_key (xs ! j)"
  by (cases "it < length xs"; cases "j = it") (simp_all add: list_update_beyond)

text \<open>Writing the payload of a listed node, or reordering a list, keeps the index.\<close>

lemma bc_index_payload:
  assumes "bc_index c" "item_key item = item_key (nodes c ! it)"
    and "set less' = set (list_less_k c)" "set greater' = set (list_greater_k c)" "distinct less'" "distinct greater'"
  shows "bc_index (c\<lparr>nodes := (nodes c)[it := item], list_less_k := less', list_greater_k := greater'\<rparr>)"
proof -
  have key: "item_key ((nodes c)[it := item] ! id) = item_key (nodes c ! id)" for id
    using assms(2) by (rule item_key_update)
  have "set (list_less_k c) \<inter> set (list_greater_k c) = {}" using bc_indexD(1) [OF assms(1)] by (simp add: bc_ids_def)
  then show ?thesis using bc_indexD [OF assms(1)] assms(3-) by (simp add: bc_index_def bc_ids_def key)
qed

lemma bc_index_promote:
  assumes idx: "bc_index c" and it: "it \<in> set (list_less_k c)" and key: "item_key item = item_key (nodes c ! it)"
  shows "bc_index (c\<lparr>list_less_k := removeAll it (list_less_k c), nodes := (nodes c)[it := item] @ [item],
      list_greater_k := length (nodes c) # list_greater_k c,
      cache_map := AList.update (item_key item) (length (nodes c)) (cache_map c)\<rparr>)" (is "bc_index ?c")
proof -
  note I = bc_indexD [OF idx]
  let ?n = "length (nodes c)"
  have dis: "distinct (list_less_k c)" "distinct (list_greater_k c)" "set (list_less_k c) \<inter> set (list_greater_k c) = {}"
    using I(1) by (auto simp: bc_ids_def)
  have ids: "set (bc_ids ?c) = insert ?n (set (bc_ids c) - {it})" using it dis by (auto simp: bc_ids_def)
  have n: "?n \<notin> set (bc_ids c)" using I(2) by blast
  have keys: "item_key (nodes ?c ! id) = item_key (nodes c ! id)" if "id \<in> set (bc_ids c)" for id
    using I(2) [OF that] item_key_update [OF key] by (simp add: nth_append)
  have keyn: "item_key (nodes ?c ! ?n) = item_key item" by (simp add: nth_append)
  have itin: "it \<in> set (bc_ids c)" using it by (simp add: bc_ids_def)
  have "map_of (cache_map ?c) k = Some id \<longleftrightarrow> id \<in> set (bc_ids ?c) \<and> item_key (nodes ?c ! id) = k" for k id
  proof (cases "id = ?n")
    case True
    then show ?thesis using keyn n I(4) by (auto simp: ids AList.update_conv')
  next
    case False
    have "map_of (cache_map ?c) k = Some id \<longleftrightarrow> k \<noteq> item_key item \<and> map_of (cache_map c) k = Some id"
      using False by (auto simp: AList.update_conv')
    also have "\<dots> \<longleftrightarrow> id \<in> set (bc_ids c) - {it} \<and> item_key (nodes c ! id) = k"
      using I(4) key bc_key_inj [OF idx _ itin] by auto
    also have "\<dots> \<longleftrightarrow> id \<in> set (bc_ids ?c) \<and> item_key (nodes ?c ! id) = k"
      unfolding ids using False keys [of id] by (cases "id \<in> set (bc_ids c)") auto
    finally show ?thesis .
  qed
  moreover have "distinct (bc_ids ?c)" using dis n by (auto simp: bc_ids_def distinct_removeAll)
  moreover have "distinct (map fst (cache_map ?c))" using I(3) by (simp add: distinct_update)
  moreover have "\<forall>id\<in>set (bc_ids ?c). id < length (nodes ?c)"
    unfolding ids using I(2) by (auto simp: less_Suc_eq)
  ultimately show ?thesis unfolding bc_index_def by blast
qed

lemma bc_index_shrink:
  assumes idx: "bc_index c" and ids: "bc_ids c = pre @ x # post" "less' @ greater' = pre @ post"
  shows "bc_index (c\<lparr>cache_map := AList.delete (item_key (nodes c ! x)) (cache_map c),
           list_less_k := less', list_greater_k := greater'\<rparr>)" (is "bc_index ?c")
proof -
  note I = bc_indexD [OF idx]
  have ids': "bc_ids ?c = pre @ post" using ids(2) by (simp add: bc_ids_def)
  have "distinct (pre @ x # post)" using I(1) ids(1) by simp
  then have set': "set (bc_ids ?c) = set (bc_ids c) - {x}" and d: "distinct (bc_ids ?c)"
    by (auto simp: ids' ids(1))
  have x: "x \<in> set (bc_ids c)" by (simp add: ids(1))
  have "map_of (cache_map ?c) k = Some j \<longleftrightarrow> j \<in> set (bc_ids ?c) \<and> item_key (nodes ?c ! j) = k" for k j
  proof -
    have "map_of (cache_map ?c) k = Some j \<longleftrightarrow> k \<noteq> item_key (nodes c ! x) \<and> map_of (cache_map c) k = Some j"
      by (auto simp: AList.delete_conv')
    also have "\<dots> \<longleftrightarrow> j \<in> set (bc_ids ?c) \<and> item_key (nodes c ! j) = k"
      using I(4) bc_key_inj [OF idx _ x] unfolding set' by auto
    finally show ?thesis by simp
  qed
  moreover have "distinct (map fst (cache_map ?c))" using I(3) by (simp add: distinct_delete)
  moreover have "\<forall>j\<in>set (bc_ids ?c). j < length (nodes ?c)" using I(2) set' by auto
  ultimately show ?thesis using d unfolding bc_index_def by blast
qed

lemma bc_index_insert:
  assumes idx: "bc_index c" and new: "map_of (cache_map c) (item_key item) = None"
  shows "bc_index (c\<lparr>nodes := nodes c @ [item], list_less_k := length (nodes c) # list_less_k c,
           cache_map := AList.update (item_key item) (length (nodes c)) (cache_map c)\<rparr>)" (is "bc_index ?c")
proof -
  note I = bc_indexD [OF idx]
  let ?n = "length (nodes c)"
  have n: "?n \<notin> set (bc_ids c)" using I(2) by blast
  have ids: "bc_ids ?c = ?n # bc_ids c" by (simp add: bc_ids_def)
  have nonew: "item_key (nodes c ! j) \<noteq> item_key item" if "j \<in> set (bc_ids c)" for j
    using that new I(4) [of "item_key item" j] by auto
  have old: "nodes ?c ! j = nodes c ! j" if "j \<in> set (bc_ids c)" for j
    using I(2) [OF that] by (simp add: nth_append)
  have "map_of (cache_map ?c) k = Some j \<longleftrightarrow> j \<in> set (bc_ids ?c) \<and> item_key (nodes ?c ! j) = k" for k j
  proof (cases "j = ?n")
    case True
    then show ?thesis using n I(4) by (auto simp: ids AList.update_conv')
  next
    case False
    have "map_of (cache_map ?c) k = Some j \<longleftrightarrow> k \<noteq> item_key item \<and> map_of (cache_map c) k = Some j"
      using False by (auto simp: AList.update_conv')
    also have "\<dots> \<longleftrightarrow> j \<in> set (bc_ids c) \<and> item_key (nodes c ! j) = k" using I(4) nonew by auto
    also have "\<dots> \<longleftrightarrow> j \<in> set (bc_ids ?c) \<and> item_key (nodes ?c ! j) = k"
      unfolding ids using False old by auto
    finally show ?thesis .
  qed
  moreover have "distinct (bc_ids ?c)" using I(1) n by (simp add: ids)
  moreover have "distinct (map fst (cache_map ?c))" using I(3) by (simp add: distinct_update)
  moreover have "\<forall>j\<in>set (bc_ids ?c). j < length (nodes ?c)" unfolding ids using I(2) by (auto simp: less_Suc_eq)
  ultimately show ?thesis unfolding bc_index_def by blast
qed

subsection \<open>Operations keep the invariant\<close>

lemma unat_Suc_word:
  assumes "unat (w :: u64) < 2 ^ 64 - 1"
  shows "unat (w + 1) = Suc (unat w)"
  using unat_add_lem [of w 1] assms by simp

lemma splice_front_ok:
  "it \<in> set l \<Longrightarrow> distinct l \<Longrightarrow>
   \<exists>l'. splice_front l it = Some l' \<and> set l' = set l \<and> distinct l' \<and> length l' = length l"
  by (auto simp: splice_front_def distinct_removeAll distinct_remove1_removeAll [symmetric] length_remove1
      intro: Suc_pred length_pos_if_in_set)

lemma update_access_count_ok:
  assumes inv: "bc_inv c" and it: "it \<in> set (bc_ids c)" and unsat: "unat (ci_access_count (nodes c ! it)) < 2 ^ 64 - 1"
  shows "\<exists>c'. update_access_count c it = Some c' \<and> bc_inv c' \<and> bc_lookup c' = bc_lookup c"
proof -
  have idx: "bc_index c" and cnt: "bc_counts c" using inv by (auto simp: bc_inv_def)
  note I = bc_indexD [OF idx]
  have dis: "distinct (list_less_k c)" "distinct (list_greater_k c)" "set (list_less_k c) \<inter> set (list_greater_k c) = {}"
    using I(1) by (auto simp: bc_ids_def)
  define item where "item = (nodes c ! it)\<lparr>ci_access_count := ci_access_count (nodes c ! it) + 1\<rparr>"
  have nth: "nth_opt (nodes c) it = Some (nodes c ! it)" "it < length (nodes c)" using I(2) [OF it] by simp_all
  have key: "item_key item = item_key (nodes c ! it)" by (simp add: item_def item_key_def)
  have blk: "ci_block item = ci_block (nodes c ! it)" by (simp add: item_def)
  have up: "unat (ci_access_count item) = Suc (unat (ci_access_count (nodes c ! it)))"
    using unat_Suc_word [OF unsat] by (simp add: item_def)
  have step: "update_access_count c it =
     (if ci_access_count item < bc_k c
      then do { l \<leftarrow> splice_front (list_less_k c) it; Some (c\<lparr>nodes := (nodes c)[it := item], list_less_k := l\<rparr>) }
      else if ci_access_count item = bc_k c
      then if it \<in> set (list_less_k c)
           then Some (c\<lparr>list_less_k := removeAll it (list_less_k c), nodes := (nodes c)[it := item] @ [item],
                        list_greater_k := length (nodes c) # list_greater_k c,
                        cache_map := AList.update (item_key item) (length (nodes c)) (cache_map c)\<rparr>)
           else None
      else do { l \<leftarrow> splice_front (list_greater_k c) it; Some (c\<lparr>nodes := (nodes c)[it := item], list_greater_k := l\<rparr>) })"
    unfolding update_access_count_def nth(1) Option.bind.simps Let_def item_def [symmetric] by simp
  have less: "it \<in> set (list_less_k c) \<longleftrightarrow> ci_access_count (nodes c ! it) < bc_k c"
    using it cnt by (auto simp: bc_ids_def bc_counts_def not_less)
  have look: "bc_lookup (c\<lparr>nodes := (nodes c)[it := item], list_less_k := a, list_greater_k := b\<rparr>) = bc_lookup c" for a b
  proof -
    have "ci_block ((nodes c)[it := item] ! j) = ci_block (nodes c ! j)" for j
      using blk nth(2) by (cases "j = it") simp_all
    then show ?thesis by (simp add: bc_lookup_def fun_eq_iff)
  qed
  consider (lt) "ci_access_count item < bc_k c" | (eq) "ci_access_count item = bc_k c" | (gt) "bc_k c < ci_access_count item"
    by fastforce
  then show ?thesis
  proof cases
    case lt
    then have "it \<in> set (list_less_k c)" using up less by (simp add: word_less_nat_alt)
    then obtain l where l: "splice_front (list_less_k c) it = Some l" "set l = set (list_less_k c)" "distinct l"
      using splice_front_ok dis(1) by blast
    let ?c = "c\<lparr>nodes := (nodes c)[it := item], list_less_k := l, list_greater_k := list_greater_k c\<rparr>"
    have "bc_index ?c" by (rule bc_index_payload [OF idx key l(2) refl l(3) dis(2)])
    moreover have "bc_counts ?c"
      using cnt l(2) lt up nth(2) dis \<open>it \<in> set (list_less_k c)\<close>
      by (auto simp: bc_counts_def nth_list_update word_le_nat_alt)
    ultimately have "bc_inv ?c" using inv by (simp add: bc_inv_def)
    then show ?thesis using lt l(1) look [of "list_greater_k c" l] by (simp add: step)
  next
    case eq
    then have itl: "it \<in> set (list_less_k c)" using up less by (simp add: word_less_nat_alt)
    let ?c = "c\<lparr>list_less_k := removeAll it (list_less_k c), nodes := (nodes c)[it := item] @ [item],
                list_greater_k := length (nodes c) # list_greater_k c,
                cache_map := AList.update (item_key item) (length (nodes c)) (cache_map c)\<rparr>"
    have idx': "bc_index ?c" by (rule bc_index_promote [OF idx itl key])
    have old: "nodes ?c ! j = nodes c ! j" if "j \<in> set (bc_ids c)" "j \<noteq> it" for j
      using I(2) [OF that(1)] that(2) by (simp add: nth_append)
    have "bc_counts ?c"
    proof -
      have "ci_access_count (nodes ?c ! j) = ci_access_count (nodes c ! j)" if "j \<in> set (bc_ids c)" "j \<noteq> it" for j
        using old [OF that] by simp
      moreover have "nodes ?c ! length (nodes c) = item" by (simp add: nth_append)
      moreover have "it \<notin> set (list_greater_k c)" using dis itl by auto
      ultimately show ?thesis using cnt eq unfolding bc_counts_def
        by (auto simp: bc_ids_def) metis+
    qed
    moreover have "length (cache_map ?c) = length (cache_map c)"
      using bc_length [OF idx'] bc_length [OF idx] itl dis(1) length_pos_if_in_set [OF itl]
      by (simp add: bc_ids_def distinct_remove1_removeAll [symmetric] length_remove1 Suc_pred length_pos_if_in_set)
    ultimately have "bc_inv ?c" using inv idx' by (simp add: bc_inv_def)
    moreover have "bc_lookup ?c = bc_lookup c"
    proof
      fix k
      show "bc_lookup ?c k = bc_lookup c k"
      proof (cases "k = item_key item")
        case True
        moreover have "map_of (cache_map c) (item_key item) = Some it" using I(4) it key by simp
        ultimately show ?thesis using blk by (simp add: bc_lookup_def AList.update_conv' nth_append)
      next
        case False
        have "nodes ?c ! j = nodes c ! j" if "map_of (cache_map c) k = Some j" for j
          using that I(4) [of k j] False key old [of j] by auto
        with False show ?thesis by (cases "map_of (cache_map c) k") (auto simp: bc_lookup_def AList.update_conv')
      qed
    qed
    ultimately show ?thesis using eq itl by (simp add: step)
  next
    case gt
    then have "it \<notin> set (list_less_k c)" using up less by (simp add: word_less_nat_alt)
    then have itg: "it \<in> set (list_greater_k c)" using it by (simp add: bc_ids_def)
    then obtain l where l: "splice_front (list_greater_k c) it = Some l" "set l = set (list_greater_k c)" "distinct l"
      using splice_front_ok dis(2) by blast
    let ?c = "c\<lparr>nodes := (nodes c)[it := item], list_less_k := list_less_k c, list_greater_k := l\<rparr>"
    have "bc_index ?c" by (rule bc_index_payload [OF idx key refl l(2) dis(1) l(3)])
    moreover have "bc_counts ?c"
      using cnt l(2) gt nth(2) dis itg by (auto simp: bc_counts_def nth_list_update)
    ultimately have "bc_inv ?c" using inv by (simp add: bc_inv_def)
    then show ?thesis using gt l(1) look [of l "list_less_k c"] by (auto simp: step)
  qed
qed

lemma evict_ok:
  assumes inv: "bc_inv c" and full: "capacity c \<le> length (cache_map c)"
  obtains c' x where "evict c = Some c'" "bc_index c'" "bc_counts c'" "length (cache_map c') < capacity c'"
    "x = (if list_less_k c \<noteq> [] then last (list_less_k c) else last (list_greater_k c))" "x \<in> set (bc_ids c)"
    "capacity c' = capacity c" "bc_k c' = bc_k c" "nodes c' = nodes c"
    "cache_map c' = AList.delete (item_key (nodes c ! x)) (cache_map c)"
proof -
  have idx: "bc_index c" and cnt: "bc_counts c" and cap: "1 \<le> capacity c" "length (cache_map c) \<le> capacity c"
    using inv by (auto simp: bc_inv_def)
  let ?x = "if list_less_k c \<noteq> [] then last (list_less_k c) else last (list_greater_k c)"
  define less' where "less' = (if list_less_k c \<noteq> [] then butlast (list_less_k c) else list_less_k c)"
  define greater' where "greater' = (if list_less_k c \<noteq> [] then list_greater_k c else butlast (list_greater_k c))"
  have ne: "bc_ids c \<noteq> []" using bc_length [OF idx] full cap by auto
  have lg: "list_less_k c = [] \<Longrightarrow> list_greater_k c \<noteq> []" using ne by (simp add: bc_ids_def)
  have ids: "\<exists>pre post. bc_ids c = pre @ ?x # post \<and> less' @ greater' = pre @ post"
  proof (cases "list_less_k c = []")
    case True
    then show ?thesis
      by (intro exI [of _ "butlast (list_greater_k c)"] exI [of _ "[]"]) (simp add: bc_ids_def less'_def greater'_def lg)
  next
    case False
    then show ?thesis
      by (intro exI [of _ "butlast (list_less_k c)"] exI [of _ "list_greater_k c"])
         (simp add: bc_ids_def less'_def greater'_def flip: append_butlast_last_id)
  qed
  then obtain pre post where pp: "bc_ids c = pre @ ?x # post" "less' @ greater' = pre @ post" by blast
  then have xin: "?x \<in> set (bc_ids c)" by simp
  let ?c = "c\<lparr>cache_map := AList.delete (item_key (nodes c ! ?x)) (cache_map c), list_less_k := less', list_greater_k := greater'\<rparr>"
  have idx': "bc_index ?c" by (rule bc_index_shrink [OF idx pp])
  have "evict c = Some ?c"
    using bc_indexD(2) [OF idx xin] lg by (auto simp: evict_def less'_def greater'_def split: if_splits)
  moreover have "bc_counts ?c"
    using cnt by (auto simp: bc_counts_def less'_def greater'_def dest: in_set_butlastD)
  moreover have "length (cache_map ?c) < capacity c"
  proof -
    have "length (bc_ids ?c) = length (less' @ greater')" by (simp add: bc_ids_def)
    then have "Suc (length (bc_ids ?c)) = length (bc_ids c)" by (simp only: pp) simp
    then show ?thesis using bc_length [OF idx'] bc_length [OF idx] cap by simp
  qed
  ultimately show thesis using that idx' xin by simp
qed

lemma bc_lookup_delete:
  assumes "bc_index c"
  shows "map_option (\<lambda>j. ci_block (nodes c ! j)) (map_of (AList.delete k (cache_map c)) k') =
    (if k' = k then None else bc_lookup c k')"
  by (simp add: bc_lookup_def AList.delete_conv')

text \<open>The key that a \<^verbatim>\<open>put\<close> of a new key pushes out of a full cache.\<close>

definition victim :: "'b BlockCache \<Rightarrow> (int \<times> int) option" where
  "victim c = (if length (cache_map c) < capacity c then None
     else Some (item_key (nodes c ! (if list_less_k c \<noteq> [] then last (list_less_k c) else last (list_greater_k c)))))"

lemma put_new_ok:
  assumes inv: "bc_inv c" and new: "map_of (cache_map c) (sst, blk) = None"
  shows "\<exists>c'. BlockCache_put c sst blk b = Some c' \<and> bc_inv c' \<and>
    bc_lookup c' = (\<lambda>k. if k = (sst, blk) then Some b else if Some k = victim c then None else bc_lookup c k)"
proof -
  have idx: "bc_index c" and cnt: "bc_counts c" and k2: "2 \<le> bc_k c" and cap: "1 \<le> capacity c"
    using inv by (auto simp: bc_inv_def)
  let ?item = "\<lparr>ci_sst_id = sst, ci_block_id = blk, ci_block = b, ci_access_count = 1\<rparr>"
  have fin: "?thesis" if c1: "(if capacity c \<le> length (cache_map c) then evict c else Some c) = Some c1"
    "bc_index c1" "bc_counts c1" "length (cache_map c1) < capacity c1" "capacity c1 = capacity c" "bc_k c1 = bc_k c"
    "map_of (cache_map c1) (sst, blk) = None"
    "\<And>k. bc_lookup c1 k = (if Some k = victim c then None else bc_lookup c k)" for c1
  proof -
    let ?c = "c1\<lparr>nodes := nodes c1 @ [?item], list_less_k := length (nodes c1) # list_less_k c1,
             cache_map := AList.update (item_key ?item) (length (nodes c1)) (cache_map c1)\<rparr>"
    have ik: "item_key ?item = (sst, blk)" by (simp add: item_key_def)
    have idx': "bc_index ?c" by (rule bc_index_insert [OF c1(2)]) (use c1(7) ik in simp)
    have old: "nodes ?c ! j = nodes c1 ! j" if "j \<in> set (bc_ids c1)" for j
      using bc_indexD(2) [OF c1(2) that] by (simp add: nth_append)
    have "bc_counts ?c"
      using c1(3,6) old k2 by (auto simp: bc_counts_def bc_ids_def word_le_nat_alt word_less_nat_alt)
    moreover have "length (cache_map ?c) \<le> capacity ?c"
      using bc_length [OF idx'] bc_length [OF c1(2)] c1(4) by (simp add: bc_ids_def)
    ultimately have inv': "bc_inv ?c" using idx' c1(5,6) cap k2 by (simp add: bc_inv_def)
    have "bc_lookup ?c k = (if k = (sst, blk) then Some b else if Some k = victim c then None else bc_lookup c k)" for k
    proof (cases "k = (sst, blk)")
      case False
      have "bc_lookup ?c k = bc_lookup c1 k"
      proof (cases "map_of (cache_map c1) k")
        case (Some j)
        then have "nodes ?c ! j = nodes c1 ! j" using bc_indexD(4) [OF c1(2), of k j] by (intro old) simp
        then show ?thesis using False Some by (simp add: bc_lookup_def AList.update_conv' ik)
      qed (use False in \<open>simp add: bc_lookup_def AList.update_conv' ik\<close>)
      with False c1(8) show ?thesis by simp
    qed (simp add: bc_lookup_def AList.update_conv' ik)
    moreover have "BlockCache_put c sst blk b = Some ?c" using new c1(1) by (simp add: BlockCache_put_def ik)
    ultimately show ?thesis using inv' by (intro exI [of _ ?c]) (simp add: fun_eq_iff)
  qed
  show ?thesis
  proof (cases "capacity c \<le> length (cache_map c)")
    case True
    obtain c1 x where e: "evict c = Some c1" "bc_index c1" "bc_counts c1" "length (cache_map c1) < capacity c1"
      "x = (if list_less_k c \<noteq> [] then last (list_less_k c) else last (list_greater_k c))" "x \<in> set (bc_ids c)"
      "capacity c1 = capacity c" "bc_k c1 = bc_k c" "nodes c1 = nodes c"
      "cache_map c1 = AList.delete (item_key (nodes c ! x)) (cache_map c)"
      by (rule evict_ok [OF inv True])
    have v: "victim c = Some (item_key (nodes c ! x))" using True e(5) by (simp add: victim_def)
    show ?thesis
    proof (rule fin [of c1])
      show "map_of (cache_map c1) (sst, blk) = None" using new by (simp add: e(10) AList.delete_conv')
      show "bc_lookup c1 k = (if Some k = victim c then None else bc_lookup c k)" for k
        using bc_lookup_delete [OF idx, of "item_key (nodes c ! x)" k] by (simp add: bc_lookup_def [of c1] e(9,10) v)
    qed (use e True in auto)
  next
    case False
    then show ?thesis by (intro fin [of c]) (use idx cnt new in \<open>auto simp: victim_def\<close>)
  qed
qed

lemma bc_frame:
  "bc_inv (c\<lparr>total_requests := a, hit_requests := b\<rparr>) = bc_inv c"
  "bc_lookup (c\<lparr>total_requests := a, hit_requests := b\<rparr>) = bc_lookup c"
  "bc_inv (c\<lparr>total_requests := a\<rparr>) = bc_inv c"
  "bc_lookup (c\<lparr>total_requests := a\<rparr>) = bc_lookup c"
  by (simp_all add: bc_inv_def bc_index_def bc_counts_def bc_ids_def bc_lookup_def fun_eq_iff)

lemma get_ok:
  assumes inv: "bc_inv c" and uns: "bc_unsaturated c"
  shows "\<exists>c'. BlockCache_get c sst blk = Some (bc_lookup c (sst, blk), c') \<and> bc_inv c' \<and> bc_lookup c' = bc_lookup c"
proof (cases "map_of (cache_map c) (sst, blk)")
  case None
  then show ?thesis using inv by (simp add: BlockCache_get_def bc_frame) (simp add: bc_lookup_def)
next
  case (Some it)
  let ?c = "c\<lparr>total_requests := total_requests c + 1, hit_requests := hit_requests c + 1\<rparr>"
  have it: "it \<in> set (bc_ids c)" using Some inv by (auto simp: bc_inv_def bc_index_def)
  obtain c' where c': "update_access_count ?c it = Some c'" "bc_inv c'" "bc_lookup c' = bc_lookup ?c"
    using update_access_count_ok [of ?c it] it inv uns by (auto simp: bc_frame bc_ids_def bc_unsaturated_def)
  have eq: "bc_lookup c' = bc_lookup c" using c'(3) by (simp only: bc_frame)
  have "bc_lookup c (sst, blk) = Some (ci_block (nodes c ! it))" using Some by (simp add: bc_lookup_def)
  with eq have "bc_lookup c' (sst, blk) = Some (ci_block (nodes c ! it))" by simp
  then obtain j where j: "map_of (cache_map c') (sst, blk) = Some j" "ci_block (nodes c' ! j) = ci_block (nodes c ! it)"
    by (auto simp: bc_lookup_def)
  moreover have "j < length (nodes c')" using j(1) c'(2) by (auto simp: bc_inv_def bc_index_def)
  ultimately show ?thesis
    using Some c' eq by (simp add: BlockCache_get_def) (simp add: bc_lookup_def)
qed

lemma put_old_ok:
  assumes inv: "bc_inv c" and uns: "bc_unsaturated c" and old: "map_of (cache_map c) (sst, blk) = Some it"
  shows "\<exists>c'. BlockCache_put c sst blk b = Some c' \<and> bc_inv c' \<and>
    bc_lookup c' = (\<lambda>k. if k = (sst, blk) then Some b else bc_lookup c k)"
proof -
  have idx: "bc_index c" and cnt: "bc_counts c" using inv by (auto simp: bc_inv_def)
  note I = bc_indexD [OF idx]
  have it: "it \<in> set (bc_ids c)" "it < length (nodes c)" using old I(2,4) by auto
  let ?item = "(nodes c ! it)\<lparr>ci_block := b\<rparr>"
  let ?c = "c\<lparr>nodes := (nodes c)[it := ?item]\<rparr>"
  have "bc_index (c\<lparr>nodes := (nodes c)[it := ?item], list_less_k := list_less_k c, list_greater_k := list_greater_k c\<rparr>)"
    by (rule bc_index_payload [OF idx]) (use I(1) in \<open>auto simp: item_key_def bc_ids_def\<close>)
  moreover have counts: "ci_access_count ((nodes c)[it := ?item] ! j) = ci_access_count (nodes c ! j)" for j
    using it(2) by (cases "j = it") simp_all
  ultimately have inv': "bc_inv ?c" using inv cnt by (simp add: bc_inv_def bc_counts_def)
  have "bc_lookup ?c k = (if k = (sst, blk) then Some b else bc_lookup c k)" for k
  proof (cases "map_of (cache_map c) k")
    case (Some j)
    then have "j = it \<longleftrightarrow> k = (sst, blk)" using old I(4) [of k j] I(4) [of "(sst, blk)" it] by auto
    with Some it(2) show ?thesis by (auto simp: bc_lookup_def)
  qed (use old in \<open>auto simp: bc_lookup_def\<close>)
  then have look: "bc_lookup ?c = (\<lambda>k. if k = (sst, blk) then Some b else bc_lookup c k)" by (simp add: fun_eq_iff)
  obtain c' where "update_access_count ?c it = Some c'" "bc_inv c'" "bc_lookup c' = bc_lookup ?c"
    using update_access_count_ok [OF inv', of it] it(1) uns counts
    by (auto simp: bc_ids_def bc_unsaturated_def)
  with look it(2) old show ?thesis by (simp add: BlockCache_put_def)
qed

subsection \<open>Properties\<close>

text \<open>
  C22: with a capacity of at least one and \<^verbatim>\<open>k\<close> at least two, every operation on the cache is
  defined and keeps the invariant: the hash table indexes exactly the nodes of the two lists,
  each node is in the list its access count belongs to, and the cache never exceeds its
  capacity. A lookup returns the cached block and changes no content; a \<^verbatim>\<open>put\<close> binds the key
  and drops at most the victim.
\<close>

theorem blockcache_operations_correct:
  assumes "bc_inv c" "bc_unsaturated c"
  shows "(\<exists>c'. BlockCache_get c sst blk = Some (bc_lookup c (sst, blk), c') \<and> bc_inv c' \<and> bc_lookup c' = bc_lookup c) \<and>
    (\<exists>c'. BlockCache_put c sst blk b = Some c' \<and> bc_inv c' \<and>
      bc_lookup c' = (\<lambda>k. if k = (sst, blk) then Some b
        else if bc_lookup c (sst, blk) = None \<and> Some k = victim c then None else bc_lookup c k))"
proof -
  have "\<exists>c'. BlockCache_put c sst blk b = Some c' \<and> bc_inv c' \<and>
      bc_lookup c' = (\<lambda>k. if k = (sst, blk) then Some b
        else if bc_lookup c (sst, blk) = None \<and> Some k = victim c then None else bc_lookup c k)"
  proof (cases "map_of (cache_map c) (sst, blk)")
    case None
    then have n: "bc_lookup c (sst, blk) = None" by (simp add: bc_lookup_def)
    show ?thesis unfolding n simp_thms by (rule put_new_ok [OF assms(1) None])
  next
    case (Some it)
    then have "bc_lookup c (sst, blk) \<noteq> None" by (simp add: bc_lookup_def)
    then show ?thesis using put_old_ok [OF assms Some, of b] by (auto simp: fun_eq_iff)
  qed
  with get_ok [OF assms] show ?thesis by blast
qed

lemma bc_inv_new: "1 \<le> cap \<Longrightarrow> 2 \<le> k \<Longrightarrow> bc_inv (BlockCache_new cap k) \<and> bc_unsaturated (BlockCache_new cap k)"
  by (simp add: bc_inv_def bc_index_def bc_counts_def bc_ids_def BlockCache_new_def bc_unsaturated_def)

lemma blockcache_operations_correct_witness:
  "\<exists>c'. BlockCache_put (BlockCache_new 2 8) 1 4 ''block'' = Some c' \<and> bc_inv c' \<and> bc_lookup c' (1, 4) = Some ''block''"
proof -
  have "(2::u64) \<le> 8" by code_simp
  then have "bc_inv (BlockCache_new 2 8)" "bc_unsaturated (BlockCache_new 2 8)" using bc_inv_new [of 2 8] by auto
  from blockcache_operations_correct [OF this, of 1 4 "''block''"] show ?thesis by auto
qed

text \<open>
  The victim of a full cache is a cached key that was accessed fewer than \<^verbatim>\<open>k\<close> times, unless every
  cached block was accessed at least \<^verbatim>\<open>k\<close> times.
\<close>

theorem blockcache_evicts_cold_first:
  assumes "bc_inv c" "victim c = Some key"
  shows "\<exists>it. map_of (cache_map c) key = Some it \<and>
    (ci_access_count (nodes c ! it) < bc_k c \<or>
     (\<forall>key' it'. map_of (cache_map c) key' = Some it' \<longrightarrow> bc_k c \<le> ci_access_count (nodes c ! it')))"
proof -
  have idx: "bc_index c" and cnt: "bc_counts c" and full: "capacity c \<le> length (cache_map c)"
    using assms by (auto simp: bc_inv_def victim_def split: if_splits)
  obtain x where x: "x = (if list_less_k c \<noteq> [] then last (list_less_k c) else last (list_greater_k c))"
    "x \<in> set (bc_ids c)"
    by (rule evict_ok [OF assms(1) full])
  have key: "key = item_key (nodes c ! x)" using assms(2) x(1) by (simp add: victim_def split: if_splits)
  have "map_of (cache_map c) key = Some x" using bc_indexD(4) [OF idx] x(2) key by simp
  moreover have "ci_access_count (nodes c ! x) < bc_k c" if "list_less_k c \<noteq> []"
    using that cnt x(1) by (auto simp: bc_counts_def)
  moreover have "bc_k c \<le> ci_access_count (nodes c ! j)" if "list_less_k c = []" "map_of (cache_map c) k' = Some j" for k' j
    using that cnt bc_indexD(4) [OF idx, of k' j] by (auto simp: bc_counts_def bc_ids_def)
  ultimately show ?thesis by metis
qed

lemma blockcache_evicts_cold_first_witness:
  "\<exists>it. map_of (cache_map (the (BlockCache_put (BlockCache_new 1 8) 1 4 ()))) (1, 4) = Some it"
proof -
  have "(2::u64) \<le> 8" by code_simp
  then have i: "bc_inv (BlockCache_new 1 8 :: unit BlockCache)" "bc_unsaturated (BlockCache_new 1 8 :: unit BlockCache)"
    using bc_inv_new [of 1 8] by auto
  obtain c' where c': "BlockCache_put (BlockCache_new 1 8) 1 4 () = Some c'" "bc_inv c'"
    using put_new_ok [OF i(1), of 1 4 "()"] by (auto simp: BlockCache_new_def)
  then have "victim c' = Some (1, 4)"
    by (auto simp: BlockCache_put_def BlockCache_new_def victim_def item_key_def)
  from blockcache_evicts_cold_first [OF c'(2) this] c'(1) show ?thesis by auto
qed

end
