(* ===== verification/Tran_Manager.thy ===== *)
theory Tran_Manager
  imports Byte_Buffer
begin

text \<open>
  The bookkeeping of transaction ids in \<^verbatim>\<open>TranManager\<close> (\<^verbatim>\<open>src/lsm/transation.cpp\<close>) and the set
  compression of \<^verbatim>\<open>include/utils/set_operation.h\<close>. A \<^verbatim>\<open>std::set<uint64_t>\<close> is its ascending
  list of elements and a \<^verbatim>\<open>std::map\<close> from ids its association list in ascending order, so that
  loops visit them in the order of the containers.
\<close>

subsection \<open>Ordered containers\<close>

fun set_insert :: "u64 \<Rightarrow> u64 list \<Rightarrow> u64 list" where
  "set_insert x [] = [x]"
| "set_insert x (y # ys) = (if x < y then x # y # ys else if x = y then y # ys else y # set_insert x ys)"

fun map_put :: "u64 \<Rightarrow> 'a \<Rightarrow> (u64 \<times> 'a) list \<Rightarrow> (u64 \<times> 'a) list" where
  "map_put k v [] = [(k, v)]"
| "map_put k v ((k', v') # m) =
     (if k < k' then (k, v) # (k', v') # m else if k = k' then (k, v) # m else (k', v') # map_put k v m)"

definition map_erase :: "u64 \<Rightarrow> (u64 \<times> 'a) list \<Rightarrow> (u64 \<times> 'a) list" where
  "map_erase k m = filter (\<lambda>(k', v). k' \<noteq> k) m"

text \<open>The first loop of \<^verbatim>\<open>compressSet\<close>: the end of the leading run of consecutive ids, and what follows it.\<close>

fun compress_run :: "u64 \<Rightarrow> u64 list \<Rightarrow> u64 \<times> u64 list" where
  "compress_run lst [] = (lst, [])"
| "compress_run lst (x # xs) = (if x = lst + 1 then compress_run x xs else (lst, x # xs))"

definition compressSet :: "u64 list \<Rightarrow> u64 list" where
  "compressSet s =
     (case s of
        [] \<Rightarrow> []
      | x # xs \<Rightarrow> (case compress_run x xs of (lst, rest) \<Rightarrow> foldl (\<lambda>r y. set_insert y r) [] (lst # rest)))"

subsection \<open>The manager\<close>

datatype TransactionState = OP_COMMITTED | ABORTED

record TranManager =
  nextTransactionId :: u64
  readyToFlushTrancIds :: "(u64 \<times> TransactionState) list"
  flushedTrancIds :: "u64 list"

text \<open>A manager on a directory without a transaction id file.\<close>

definition TranManager_new :: TranManager where
  "TranManager_new = \<lparr>nextTransactionId = 1, readyToFlushTrancIds = [], flushedTrancIds = set_insert 0 []\<rparr>"

definition getNextTransactionId :: "TranManager \<Rightarrow> u64 \<times> TranManager" where
  "getNextTransactionId t = (nextTransactionId t, t\<lparr>nextTransactionId := nextTransactionId t + 1\<rparr>)"

definition add_ready_to_flush_tranc_id :: "TranManager \<Rightarrow> u64 \<Rightarrow> TransactionState \<Rightarrow> TranManager" where
  "add_ready_to_flush_tranc_id t tranc_id state =
     t\<lparr>readyToFlushTrancIds := map_put tranc_id state (readyToFlushTrancIds t)\<rparr>"

text \<open>The loop over \<^verbatim>\<open>readyToFlushTrancIds_\<close>: the new flushed set and the ids to remove.\<close>

fun flushed_scan :: "u64 \<Rightarrow> (u64 \<times> TransactionState) list \<Rightarrow> u64 list \<Rightarrow> u64 list \<Rightarrow> u64 list \<times> u64 list" where
  "flushed_scan tid [] flushed needRemove = (flushed, needRemove)"
| "flushed_scan tid ((readyId, state) # rest) flushed needRemove =
     (if readyId < tid \<and> state = ABORTED
      then flushed_scan tid rest (set_insert readyId flushed) (needRemove @ [readyId])
      else if readyId = tid then (set_insert readyId flushed, needRemove @ [readyId])
      else flushed_scan tid rest flushed needRemove)"

definition add_flushed_tranc_id :: "TranManager \<Rightarrow> u64 \<Rightarrow> TranManager" where
  "add_flushed_tranc_id t tranc_id =
     (case flushed_scan tranc_id (readyToFlushTrancIds t) (flushedTrancIds t) [] of
        (flushed, needRemove) \<Rightarrow>
          t\<lparr>readyToFlushTrancIds := foldl (\<lambda>m i. map_erase i m) (readyToFlushTrancIds t) needRemove,
            flushedTrancIds := compressSet flushed\<rparr>)"

text \<open>\<^verbatim>\<open>*rbegin()\<close> and \<^verbatim>\<open>*begin()\<close> of the flushed set, undefined when it is empty.\<close>

definition get_max_flushed_tranc_id :: "TranManager \<Rightarrow> u64 option" where
  "get_max_flushed_tranc_id t = (if flushedTrancIds t = [] then None else Some (last (flushedTrancIds t)))"

definition get_checkpoint_tranc_id :: "TranManager \<Rightarrow> u64 option" where
  "get_checkpoint_tranc_id t = (if flushedTrancIds t = [] then None else Some (hd (flushedTrancIds t)))"

text \<open>
  \<^verbatim>\<open>init_new_wal\<close>: the log files of the directory are removed, and the flushed set restarts at the last
  id handed out. The directory is its list of file names.
\<close>

definition init_new_wal :: "string list \<Rightarrow> TranManager \<Rightarrow> string list \<times> TranManager" where
  "init_new_wal files t =
     (filter (\<lambda>f. \<not> prefix ''wal.'' f) files,
      t\<lparr>flushedTrancIds := set_insert (nextTransactionId t - 1) []\<rparr>)"

subsection \<open>The transaction id file\<close>

fun put_ids :: "bytes \<Rightarrow> nat \<Rightarrow> u64 list \<Rightarrow> bytes option" where
  "put_ids buf offset [] = Some buf"
| "put_ids buf offset (i # is) = do { buf \<leftarrow> memcpy_to buf offset (enc64 i); put_ids buf (offset + 8) is }"

text \<open>The file object overwrites from offset 0; a longer old content keeps its tail.\<close>

definition write_tranc_id_file :: "TranManager \<Rightarrow> bytes \<Rightarrow> bytes option" where
  "write_tranc_id_file t file =
     do { buf \<leftarrow> memcpy_to (replicate (8 * (length (flushedTrancIds t) + 2)) 0) 0 (enc64 (nextTransactionId t));
          buf \<leftarrow> memcpy_to buf 8 (enc64 (of_nat (length (flushedTrancIds t))));
          buf \<leftarrow> put_ids buf 16 (flushedTrancIds t);
          Some (buf @ drop (length buf) file) }"

fun get_ids :: "bytes \<Rightarrow> nat \<Rightarrow> nat \<Rightarrow> u64 list \<Rightarrow> u64 list option" where
  "get_ids file offset 0 flushed = Some flushed"
| "get_ids file offset (Suc n) flushed =
     do { b \<leftarrow> read_at file offset 8; get_ids file (offset + 8) n (set_insert (dec64 b) flushed) }"

definition read_tranc_id_file :: "TranManager \<Rightarrow> bytes \<Rightarrow> TranManager option" where
  "read_tranc_id_file t file =
     do { nb \<leftarrow> read_at file 0 8;
          sb \<leftarrow> read_at file 8 8;
          flushed \<leftarrow> get_ids file 16 (unat (dec64 sb)) (flushedTrancIds t);
          Some (t\<lparr>nextTransactionId := dec64 nb, flushedTrancIds := flushed\<rparr>) }"

text \<open>A manager on a directory that has the file.\<close>

definition TranManager_open :: "bytes \<Rightarrow> TranManager option" where
  "TranManager_open file =
     read_tranc_id_file \<lparr>nextTransactionId = 1, readyToFlushTrancIds = [], flushedTrancIds = []\<rparr> file"

subsection \<open>Lemmas on the containers\<close>

lemma set_set_insert [simp]: "set (set_insert x s) = insert x (set s)"
  by (induction s) auto

lemma sorted_set_insert: "sorted_wrt (<) s \<Longrightarrow> sorted_wrt (<) (set_insert x s)"
  by (induction s) auto

lemma set_insert_snoc: "\<forall>y\<in>set s. y < x \<Longrightarrow> set_insert x s = s @ [x]"
  by (induction s) auto

lemma foldl_set_insert:
  "sorted_wrt (<) (acc @ xs) \<Longrightarrow> foldl (\<lambda>r y. set_insert y r) acc xs = acc @ xs"
proof (induction xs arbitrary: acc)
  case (Cons x xs)
  have "set_insert x acc = acc @ [x]" using Cons.prems by (intro set_insert_snoc) (simp add: sorted_wrt_append)
  then show ?case using Cons.IH [of "acc @ [x]"] Cons.prems by simp
qed simp

lemma compress_run_split:
  assumes "compress_run x xs = (l, rest)" "sorted_wrt (<) (x # xs)"
  shows "sorted_wrt (<) (l # rest) \<and> x \<le> l \<and> set (x # xs) = {x..l} \<union> set rest \<and>
    (rest = [] \<or> hd rest \<noteq> l + 1)"
  using assms
proof (induction xs arbitrary: x)
  case (Cons y ys)
  show ?case
  proof (cases "y = x + 1")
    case True
    have lt: "x < y" using Cons.prems(2) by simp
    have IH: "sorted_wrt (<) (l # rest) \<and> y \<le> l \<and> set (y # ys) = {y..l} \<union> set rest \<and> (rest = [] \<or> hd rest \<noteq> l + 1)"
      using Cons.IH [of y] Cons.prems True by simp
    have "insert x {y..l} = {x..l}" if "y \<le> l"
    proof -
      have "z = x \<or> y \<le> z" if "x \<le> z" for z
        using that lt True by (metis inc_le order_le_less)
      moreover have "x \<le> l" using lt that by simp
      ultimately show ?thesis using lt by (intro set_eqI) (metis atLeastAtMost_iff insert_iff order.refl order.strict_implies_order order.trans)
    qed
    with IH lt show ?thesis by auto
  next
    case False
    then show ?thesis using Cons.prems by auto
  qed
qed auto

lemma compressSet_split:
  assumes "sorted_wrt (<) (x # xs)"
  obtains l rest where "compressSet (x # xs) = l # rest" "sorted_wrt (<) (l # rest)" "x \<le> l"
    "set (x # xs) = {x..l} \<union> set rest" "rest = [] \<or> hd rest \<noteq> l + 1"
proof -
  obtain l rest where r: "compress_run x xs = (l, rest)" by (cases "compress_run x xs")
  note c = compress_run_split [OF r assms]
  then have "compressSet (x # xs) = l # rest"
    using foldl_set_insert [of "[]" "l # rest"] by (simp add: compressSet_def r)
  with c that show thesis by blast
qed

text \<open>
  The ids a flushed set stands for: everything up to its smallest element, the checkpoint, and its
  elements.
\<close>

definition covered :: "u64 list \<Rightarrow> u64 set" where
  "covered s = (case s of [] \<Rightarrow> {} | x # xs \<Rightarrow> {..x} \<union> set s)"

lemma covered_iff: "sorted_wrt (<) s \<Longrightarrow> y \<in> covered s \<longleftrightarrow> s \<noteq> [] \<and> y \<le> hd s \<or> y \<in> set s"
  by (cases s) (auto simp: covered_def)

lemma covered_insert:
  assumes "sorted_wrt (<) s" "s \<noteq> []"
  shows "y \<in> covered (set_insert x s) \<Longrightarrow> y \<in> covered s \<or> y = x"
    and "y \<in> covered s \<or> y = x \<Longrightarrow> hd s \<le> x \<Longrightarrow> y \<in> covered (set_insert x s)"
  using assms by (cases s; auto simp: covered_def split: if_splits)+

lemma flushed_scan_sorted:
  "sorted_wrt (<) fl \<Longrightarrow> flushed_scan tid ready fl rem = (fl', rem') \<Longrightarrow> sorted_wrt (<) fl'"
proof (induction tid ready fl rem rule: flushed_scan.induct)
  case (2 tid i st rest fl rem)
  then show ?case using sorted_set_insert [of fl i] by (auto split: if_splits)
qed auto

text \<open>The ids the scan moves: aborted ready ids below \<open>tid\<close>, and \<open>tid\<close> itself when it is ready.\<close>

definition moved :: "u64 \<Rightarrow> (u64 \<times> TransactionState) list \<Rightarrow> u64 set" where
  "moved tid ready = {i. \<exists>st. (i, st) \<in> set ready \<and> (i < tid \<and> st = ABORTED \<or> i = tid)}"

lemma moved_Cons:
  "moved tid ((i, st) # rest) = (if i < tid \<and> st = ABORTED \<or> i = tid then insert i (moved tid rest) else moved tid rest)"
  by (auto simp: moved_def)

lemma flushed_scan_sets:
  assumes "sorted_wrt (<) (map fst ready)" "flushed_scan tid ready fl rem = (fl', rem')"
  shows "set fl' = set fl \<union> moved tid ready \<and> set rem' = set rem \<union> moved tid ready"
  using assms
proof (induction tid ready fl rem rule: flushed_scan.induct)
  case (2 tid i st rest fl rem)
  have later: "i < j" if "(j, s) \<in> set rest" for j s using 2(3) that by force
  have none: "moved i rest = {}" using later by (fastforce simp: moved_def)
  consider (a) "i < tid \<and> st = ABORTED" | (b) "\<not> (i < tid \<and> st = ABORTED)" "i = tid" | (c) "\<not> (i < tid \<and> st = ABORTED)" "i \<noteq> tid"
    by blast
  then show ?case
  proof cases
    case a
    then show ?thesis using 2(1) [OF a] 2(3,4) by (auto simp: moved_Cons)
  next
    case b
    then show ?thesis using 2(4) none by (auto simp: moved_Cons)
  next
    case c
    then show ?thesis using 2(2) [OF c] 2(3,4) by (auto simp: moved_Cons)
  qed
qed (auto simp: moved_def)

lemma set_map_erase_all: "set (foldl (\<lambda>m i. map_erase i m) m is) = {(k, v) \<in> set m. k \<notin> set is}"
  by (induction "is" arbitrary: m) (auto simp: map_erase_def)

lemma last_Max:
  fixes ys :: "u64 list"
  assumes "sorted_wrt (<) ys" "ys \<noteq> []"
  shows "last ys = Max (set ys)"
proof -
  have "y \<le> last ys" if "y \<in> set ys" for y
    using assms that by (induction ys) (auto intro: less_imp_le)
  then show ?thesis using assms(2) by (intro Max_eqI [symmetric]) auto
qed

lemma covered_compress:
  assumes "sorted_wrt (<) s"
  shows "covered (compressSet s) = covered s"
proof (cases s)
  case (Cons x xs)
  have "sorted_wrt (<) (x # xs)" using assms Cons by simp
  then obtain l rest where c: "compressSet (x # xs) = l # rest" "x \<le> l" "set (x # xs) = {x..l} \<union> set rest"
    by (rule compressSet_split)
  have "{..x} \<union> {x..l} = {..l}" using c(2) by (auto intro: order.trans)
  then have "{..x} \<union> set (x # xs) = {..l} \<union> set rest" unfolding c(3) by blast
  moreover have "covered (compressSet s) = {..l} \<union> set rest" unfolding Cons c(1) by (auto simp: covered_def)
  ultimately show ?thesis unfolding Cons by (simp only: covered_def list.case)
qed (simp add: compressSet_def)

lemma compressSet_last:
  assumes "sorted_wrt (<) s" "s \<noteq> []"
  shows "last (compressSet s) = last s"
proof -
  obtain x xs where s: "s = x # xs" using assms(2) by (cases s) auto
  obtain l rest where c: "compressSet (x # xs) = l # rest" "sorted_wrt (<) (l # rest)" "x \<le> l"
    "set (x # xs) = {x..l} \<union> set rest" using assms(1) unfolding s by (rule compressSet_split)
  have "Max (set (x # xs)) = Max (set (l # rest))"
  proof (rule Max_eq_if)
    show "\<forall>a\<in>set (x # xs). \<exists>b\<in>set (l # rest). a \<le> b" using c(4) by auto
    show "\<forall>b\<in>set (l # rest). \<exists>a\<in>set (x # xs). b \<le> a" using c(3,4) by auto
  qed auto
  then show ?thesis using last_Max [OF c(2)] last_Max [OF assms] by (simp only: s c(1)) simp
qed

lemma compressSet_sorted:
  assumes "sorted_wrt (<) s"
  shows "sorted_wrt (<) (compressSet s)" "compressSet s = [] \<longleftrightarrow> s = []"
proof -
  have "sorted_wrt (<) (compressSet s) \<and> (compressSet s = [] \<longleftrightarrow> s = [])"
  proof (cases s)
    case (Cons x xs)
    obtain l rest where "compressSet (x # xs) = l # rest" "sorted_wrt (<) (l # rest)"
      using assms unfolding Cons by (rule compressSet_split)
    then show ?thesis by (simp add: Cons)
  qed (simp add: compressSet_def)
  then show "sorted_wrt (<) (compressSet s)" "compressSet s = [] \<longleftrightarrow> s = []" by auto
qed

lemma set_subset_covered: "set s \<subseteq> covered s"
  by (cases s) (auto simp: covered_def)

subsection \<open>The file\<close>

definition ids_wire :: "u64 list \<Rightarrow> bytes" where
  "ids_wire is = concat (map enc64 is)"

lemma length_ids_wire [simp]: "length (ids_wire is) = 8 * length is"
  by (induction "is") (auto simp: ids_wire_def)

lemma put_ids_fill:
  assumes "off = length pre" "n = 8 * length is"
  shows "put_ids (pre @ replicate n 0) off is = Some (pre @ ids_wire is)"
  using assms
proof (induction "is" arbitrary: pre off n)
  case (Cons i "is")
  have "memcpy_to (pre @ replicate n 0) off (enc64 i) = Some ((pre @ enc64 i) @ replicate (n - 8) 0)"
    using memcpy_fill [OF Cons.prems(1), of n "enc64 i"] Cons.prems(2) by simp
  moreover have "put_ids ((pre @ enc64 i) @ replicate (n - 8) 0) (off + 8) is = Some ((pre @ enc64 i) @ ids_wire is)"
    by (rule Cons.IH) (use Cons.prems in auto)
  ultimately show ?case by (simp add: ids_wire_def)
qed (simp add: ids_wire_def)

lemma get_ids_wire:
  assumes "off = length pre" "sorted_wrt (<) (acc @ is)"
  shows "get_ids (pre @ ids_wire is @ post) off (length is) acc = Some (acc @ is)"
  using assms
proof (induction "is" arbitrary: pre off acc)
  case (Cons i "is")
  have 1: "read_at (pre @ enc64 i @ ids_wire is @ post) off 8 = Some (enc64 i)"
    by (rule read_at_append) (use Cons.prems in auto)
  have 2: "set_insert i acc = acc @ [i]" using Cons.prems(2) by (intro set_insert_snoc) (simp add: sorted_wrt_append)
  have 3: "get_ids ((pre @ enc64 i) @ ids_wire is @ post) (off + 8) (length is) (acc @ [i]) = Some ((acc @ [i]) @ is)"
    by (rule Cons.IH) (use Cons.prems in auto)
  show ?case using 1 2 3 by (simp add: ids_wire_def)
qed simp

lemma write_file_wire:
  "write_tranc_id_file t file =
     Some ((enc64 (nextTransactionId t) @ enc64 (of_nat (length (flushedTrancIds t)))) @ ids_wire (flushedTrancIds t) @
       drop (16 + 8 * length (flushedTrancIds t)) file)"
proof -
  let ?a = "enc64 (nextTransactionId t)" and ?b = "enc64 (of_nat (length (flushedTrancIds t)))"
  define n where "n = 8 * length (flushedTrancIds t)"
  have 1: "memcpy_to (replicate (n + 16) 0) 0 ?a = Some (?a @ replicate (n + 8) 0)"
    using memcpy_fill [of 0 "[]" "n + 16" ?a] by simp
  have 2: "memcpy_to (?a @ replicate (n + 8) 0) 8 ?b = Some ((?a @ ?b) @ replicate n 0)"
    using memcpy_fill [of 8 ?a "n + 8" ?b] by simp
  have 3: "put_ids ((?a @ ?b) @ replicate n 0) 16 (flushedTrancIds t) = Some ((?a @ ?b) @ ids_wire (flushedTrancIds t))"
    by (rule put_ids_fill) (simp_all add: n_def)
  have 4: "8 * (length (flushedTrancIds t) + 2) = n + 16" by (simp add: n_def)
  show ?thesis unfolding write_tranc_id_file_def 4 1 using 2 3 by (simp add: n_def)
qed

subsection \<open>Properties\<close>

text \<open>
  C38: \<^verbatim>\<open>compressSet\<close> replaces the leading run of consecutive ids by its last element. The ids the set
  stands for do not change, the result is sorted, and its first element is not followed by
  its successor, so the checkpoint is as large as it can be.
\<close>

theorem compressSet_correct:
  assumes "sorted_wrt (<) s" "s \<noteq> []"
  shows "covered (compressSet s) = covered s \<and> sorted_wrt (<) (compressSet s) \<and>
    last (compressSet s) = last s \<and> hd (compressSet s) + 1 \<notin> set (tl (compressSet s))"
proof -
  obtain x xs where s: "s = x # xs" using assms(2) by (cases s) auto
  obtain l rest where c: "compressSet (x # xs) = l # rest" "sorted_wrt (<) (l # rest)" "x \<le> l"
    "set (x # xs) = {x..l} \<union> set rest" "rest = [] \<or> hd rest \<noteq> l + 1"
    using assms(1) unfolding s by (rule compressSet_split)
  note compressSet_last [OF assms]
  moreover have "l + 1 \<notin> set rest"
  proof
    assume "l + 1 \<in> set rest"
    moreover have "l < r" if "r \<in> set rest" for r using c(2) that by simp
    ultimately obtain r rs where "rest = r # rs" "l + 1 \<in> set rs" using c(5) by (cases rest) auto
    then have "l < r" "r < l + 1" using c(2) by auto
    then show False using inc_le [of l r] by simp
  qed
  ultimately show ?thesis using covered_compress [OF assms(1)] c(1,2) by (simp add: s)
qed

lemma compressSet_correct_witness: "covered (compressSet [3, 4, 5, 8]) = covered [3, 4, 5, 8]"
  using compressSet_correct [of "[3, 4, 5, 8]"] by simp

text \<open>
  C37: reporting a transaction as flushed adds exactly the ids that this settles: the transaction
  itself if it is ready, and the aborted transactions with smaller ids. They leave the
  ready map and nothing else does, so no committed transaction is taken for flushed before
  its own data is.
\<close>

theorem add_flushed_tranc_id_correct:
  assumes "sorted_wrt (<) (map fst (readyToFlushTrancIds t))" "sorted_wrt (<) (flushedTrancIds t)"
    and "flushedTrancIds t \<noteq> []" "\<forall>i\<in>set (map fst (readyToFlushTrancIds t)). hd (flushedTrancIds t) < i"
  shows "covered (flushedTrancIds (add_flushed_tranc_id t tid)) =
      covered (flushedTrancIds t) \<union> moved tid (readyToFlushTrancIds t) \<and>
    set (readyToFlushTrancIds (add_flushed_tranc_id t tid)) =
      {(i, st) \<in> set (readyToFlushTrancIds t). i \<notin> moved tid (readyToFlushTrancIds t)}"
proof -
  let ?r = "readyToFlushTrancIds t" and ?f = "flushedTrancIds t"
  obtain fl rem where scan: "flushed_scan tid ?r ?f [] = (fl, rem)" by (cases "flushed_scan tid ?r ?f []")
  have fl: "set fl = set ?f \<union> moved tid ?r" "set rem = moved tid ?r"
    using flushed_scan_sets [OF assms(1) scan] by auto
  have so: "sorted_wrt (<) fl" by (rule flushed_scan_sorted [OF assms(2) scan])
  have above: "hd ?f < i" if "i \<in> moved tid ?r" for i using assms(4) that by (force simp: moved_def)
  have ne: "fl \<noteq> []" using fl(1) assms(3) by auto
  have "hd fl = hd ?f"
  proof -
    have "hd ?f \<in> set fl" using fl(1) assms(3) by simp
    moreover have "hd ?f \<le> y" if "y \<in> set fl" for y
      using that fl(1) above assms(2,3) by (cases ?f) (auto intro: less_imp_le)
    moreover have "hd fl \<le> y" if "y \<in> set fl" for y using that so ne by (cases fl) (auto intro: less_imp_le)
    ultimately show ?thesis using ne by (meson hd_in_set order.antisym)
  qed
  then have "covered fl = covered ?f \<union> moved tid ?r"
    using covered_iff [OF so] covered_iff [OF assms(2)] fl(1) ne assms(3) by (auto simp: set_eq_iff)
  then show ?thesis
    using covered_compress [OF so] fl(2) by (simp add: add_flushed_tranc_id_def scan set_map_erase_all)
qed

lemma add_flushed_tranc_id_correct_witness:
  "covered (flushedTrancIds (add_flushed_tranc_id
     \<lparr>nextTransactionId = 9, readyToFlushTrancIds = [(3, ABORTED), (4, OP_COMMITTED), (5, OP_COMMITTED)],
      flushedTrancIds = [2]\<rparr> 5)) = covered [2] \<union> {3, 5}"
proof -
  have "moved 5 [(3, ABORTED), (4, OP_COMMITTED), (5, OP_COMMITTED)] = {3, 5}" by (simp add: moved_Cons) (simp add: moved_def)
  with add_flushed_tranc_id_correct [of
     "\<lparr>nextTransactionId = 9, readyToFlushTrancIds = [(3, ABORTED), (4, OP_COMMITTED), (5, OP_COMMITTED)],
      flushedTrancIds = [2]\<rparr>" 5]
  show ?thesis by simp
qed

text \<open>
  A manager opened on the file that another one wrote at shutdown continues with the same next
  transaction id and the same flushed set, whatever the file held before.
\<close>

theorem tranc_id_file_roundtrip:
  assumes "sorted_wrt (<) (flushedTrancIds t)" "length (flushedTrancIds t) < 2 ^ 64"
  shows "\<exists>file'. write_tranc_id_file t old = Some file' \<and>
    TranManager_open file' = Some (t\<lparr>readyToFlushTrancIds := []\<rparr>)"
proof -
  let ?a = "enc64 (nextTransactionId t)" and ?b = "enc64 (of_nat (length (flushedTrancIds t)))"
  let ?w = "ids_wire (flushedTrancIds t)" and ?d = "drop (16 + 8 * length (flushedTrancIds t)) old"
  define f where "f = (?a @ ?b) @ ?w @ ?d"
  have cnt: "unat (of_nat (length (flushedTrancIds t)) :: u64) = length (flushedTrancIds t)"
    using assms(2) by (simp add: unat_of_nat)
  have 1: "read_at f 0 8 = Some ?a" "read_at f 8 8 = Some ?b" by (simp_all add: f_def read_at_def)
  have 2: "get_ids f 16 (length (flushedTrancIds t)) [] = Some (flushedTrancIds t)"
    using get_ids_wire [of 16 "?a @ ?b" "[]" "flushedTrancIds t" ?d] assms(1) by (simp add: f_def)
  have "TranManager_open f = Some (t\<lparr>readyToFlushTrancIds := []\<rparr>)"
    by (simp add: TranManager_open_def read_tranc_id_file_def 1 2 cnt)
  with write_file_wire [of t old] show ?thesis by (simp add: f_def)
qed

lemma tranc_id_file_roundtrip_witness:
  "\<exists>file'. write_tranc_id_file \<lparr>nextTransactionId = 6, readyToFlushTrancIds = [], flushedTrancIds = [3, 5]\<rparr> [1] = Some file' \<and>
     TranManager_open file' = Some \<lparr>nextTransactionId = 6, readyToFlushTrancIds = [], flushedTrancIds = [3, 5]\<rparr>"
  using tranc_id_file_roundtrip [of "\<lparr>nextTransactionId = 6, readyToFlushTrancIds = [], flushedTrancIds = [3, 5]\<rparr>" "[1]"]
  by simp

end
