(* ===== verification/Lsm_Engine.thy ===== *)
theory Lsm_Engine
  imports Tran_Manager
begin

text \<open>
  The storage engine interface and the class \<^verbatim>\<open>LSM\<close> of \<^verbatim>\<open>src/lsm/engine.cpp\<close>.

  The operations of \<^verbatim>\<open>LSMEngine\<close> and of the memory table are exercises in this repository: their
  bodies are stubs. They are therefore a parameter \<open>E\<close> of everything built on them, a record
  of operations on an engine state; \<open>stub_engine\<close> is the one the sources contain. An iterator
  pair is the list of key-value pairs between its two ends.

  The locale \<open>mvcc_engine\<close> states what the comments of the engine promise, \<open>lsm_store\<close> what the
  clients of \<^verbatim>\<open>LSM\<close> rely on: the store behaves as a map, \<open>view\<close>, as long as transaction ids do not
  run out. \<open>can s n\<close> says that \<open>n\<close> more operations are possible from state \<open>s\<close>. The sublocale
  shows that \<^verbatim>\<open>LSM\<close>, with the ids it draws from the transaction manager, turns the first
  contract into the second.
\<close>

record 's engine_ops =
  eng_get :: "'s \<Rightarrow> string \<Rightarrow> u64 \<Rightarrow> (string \<times> u64) option"
  eng_get_batch :: "'s \<Rightarrow> string list \<Rightarrow> u64 \<Rightarrow> (string \<times> (string \<times> u64) option) list"
  eng_put :: "'s \<Rightarrow> string \<Rightarrow> string \<Rightarrow> u64 \<Rightarrow> 's"
  eng_put_batch :: "'s \<Rightarrow> (string \<times> string) list \<Rightarrow> u64 \<Rightarrow> 's"
  eng_remove :: "'s \<Rightarrow> string \<Rightarrow> u64 \<Rightarrow> 's"
  eng_remove_batch :: "'s \<Rightarrow> string list \<Rightarrow> u64 \<Rightarrow> 's"
  eng_clear :: "'s \<Rightarrow> 's"
  eng_flush :: "'s \<Rightarrow> 's"
  eng_iters :: "'s \<Rightarrow> u64 \<Rightarrow> (string \<Rightarrow> int) \<Rightarrow> (string \<times> string) list option"
  eng_mem_get :: "'s \<Rightarrow> string \<Rightarrow> u64 \<Rightarrow> (string \<times> u64) option"
  eng_mem_put :: "'s \<Rightarrow> string \<Rightarrow> string \<Rightarrow> u64 \<Rightarrow> 's"
  eng_sst_get :: "'s \<Rightarrow> string \<Rightarrow> u64 \<Rightarrow> (string \<times> u64) option"

text \<open>
  The engine of the sources, with its operations still to be implemented; only \<^verbatim>\<open>clear\<close>, which
  works on the memory table and the files of the directory, is there.
\<close>

definition stub_engine :: "('s \<Rightarrow> 's) \<Rightarrow> 's engine_ops" where
  "stub_engine clear =
     \<lparr>eng_get = (\<lambda>s key tranc_id. None), eng_get_batch = (\<lambda>s keys tranc_id. []),
      eng_put = (\<lambda>s key value tranc_id. s), eng_put_batch = (\<lambda>s kvs tranc_id. s),
      eng_remove = (\<lambda>s key tranc_id. s), eng_remove_batch = (\<lambda>s keys tranc_id. s),
      eng_clear = clear, eng_flush = (\<lambda>s. s),
      eng_iters = (\<lambda>s tranc_id predicate. None), eng_mem_get = (\<lambda>s key tranc_id. None),
      eng_mem_put = (\<lambda>s key value tranc_id. s), eng_sst_get = (\<lambda>s key tranc_id. None)\<rparr>"

subsection \<open>LSM\<close>

record 's LSM =
  engine :: 's
  tran_manager :: TranManager

definition next_id :: "'s LSM \<Rightarrow> u64 \<times> 's LSM" where
  "next_id s = (case getNextTransactionId (tran_manager s) of (i, t) \<Rightarrow> (i, s\<lparr>tran_manager := t\<rparr>))"

definition LSM_get :: "'s engine_ops \<Rightarrow> 's LSM \<Rightarrow> string \<Rightarrow> string option \<times> 's LSM" where
  "LSM_get E s key =
     (case next_id s of (tranc_id, s) \<Rightarrow> (map_option fst (eng_get E (engine s) key tranc_id), s))"

definition LSM_get_batch ::
    "'s engine_ops \<Rightarrow> 's LSM \<Rightarrow> string list \<Rightarrow> (string \<times> string option) list \<times> 's LSM" where
  "LSM_get_batch E s keys =
     (case next_id s of (tranc_id, s) \<Rightarrow>
        (map (\<lambda>(key, value). (key, map_option fst value)) (eng_get_batch E (engine s) keys tranc_id), s))"

definition LSM_put :: "'s engine_ops \<Rightarrow> 's LSM \<Rightarrow> string \<Rightarrow> string \<Rightarrow> 's LSM" where
  "LSM_put E s key value =
     (case next_id s of (tranc_id, s) \<Rightarrow> s\<lparr>engine := eng_put E (engine s) key value tranc_id\<rparr>)"

definition LSM_put_batch :: "'s engine_ops \<Rightarrow> 's LSM \<Rightarrow> (string \<times> string) list \<Rightarrow> 's LSM" where
  "LSM_put_batch E s kvs =
     (case next_id s of (tranc_id, s) \<Rightarrow> s\<lparr>engine := eng_put_batch E (engine s) kvs tranc_id\<rparr>)"

definition LSM_remove :: "'s engine_ops \<Rightarrow> 's LSM \<Rightarrow> string \<Rightarrow> 's LSM" where
  "LSM_remove E s key =
     (case next_id s of (tranc_id, s) \<Rightarrow> s\<lparr>engine := eng_remove E (engine s) key tranc_id\<rparr>)"

definition LSM_remove_batch :: "'s engine_ops \<Rightarrow> 's LSM \<Rightarrow> string list \<Rightarrow> 's LSM" where
  "LSM_remove_batch E s keys =
     (case next_id s of (tranc_id, s) \<Rightarrow> s\<lparr>engine := eng_remove_batch E (engine s) keys tranc_id\<rparr>)"

definition LSM_clear :: "'s engine_ops \<Rightarrow> 's LSM \<Rightarrow> 's LSM" where
  "LSM_clear E s = s\<lparr>engine := eng_clear E (engine s)\<rparr>"

definition LSM_flush :: "'s engine_ops \<Rightarrow> 's LSM \<Rightarrow> 's LSM" where
  "LSM_flush E s = s\<lparr>engine := eng_flush E (engine s)\<rparr>"

definition LSM_iters ::
    "'s engine_ops \<Rightarrow> 's LSM \<Rightarrow> u64 \<Rightarrow> (string \<Rightarrow> int) \<Rightarrow> (string \<times> string) list option" where
  "LSM_iters E s tranc_id predicate = eng_iters E (engine s) tranc_id predicate"

subsection \<open>Maps of strings\<close>

type_synonym kv = "string \<Rightarrow> string option"

text \<open>Writing an empty value deletes the key.\<close>

definition kv_put :: "string \<Rightarrow> string \<Rightarrow> kv \<Rightarrow> kv" where
  "kv_put k v m = m(k := if v = [] then None else Some v)"

definition kv_del :: "string \<Rightarrow> kv \<Rightarrow> kv" where
  "kv_del k m = m(k := None)"

definition kv_puts :: "(string \<times> string) list \<Rightarrow> kv \<Rightarrow> kv" where
  "kv_puts kvs m = foldl (\<lambda>m (k, v). kv_put k v m) m kvs"

definition kv_dels :: "string list \<Rightarrow> kv \<Rightarrow> kv" where
  "kv_dels ks m = foldl (\<lambda>m k. kv_del k m) m ks"

lemma kv_put_apply [simp]: "kv_put k v m k' = (if k' = k then (if v = [] then None else Some v) else m k')"
  by (simp add: kv_put_def)

lemma kv_del_apply [simp]: "kv_del k m k' = (if k' = k then None else m k')"
  by (simp add: kv_del_def)

lemma kv_dels_apply [simp]: "kv_dels ks m k' = (if k' \<in> set ks then None else m k')"
  by (induction ks arbitrary: m) (auto simp: kv_dels_def)

lemma kv_puts_simps [simp]:
  "kv_puts [] m = m" "kv_puts ((k, v) # kvs) m = kv_puts kvs (kv_put k v m)"
  by (simp_all add: kv_puts_def)

lemma kv_puts_append: "kv_puts (xs @ ys) m = kv_puts ys (kv_puts xs m)"
  by (simp add: kv_puts_def)

lemma kv_puts_other: "k \<notin> fst ` set kvs \<Longrightarrow> kv_puts kvs m k = m k"
  by (induction kvs arbitrary: m) auto

text \<open>The comparison the prefix queries pass to the engine: \<^verbatim>\<open>-elem.compare(0, p.size(), p)\<close>, up to sign.\<close>

definition prefix_compare :: "string \<Rightarrow> string \<Rightarrow> int" where
  "prefix_compare p k =
     (let h = take (length p) k in if h < p then 1 else if h = p then 0 else -1)"

lemma prefix_compare_0 [simp]: "prefix_compare p k = 0 \<longleftrightarrow> prefix p k"
  by (auto simp: prefix_compare_def Let_def take_is_prefix prefix_def) (metis append_take_drop_id)

text \<open>The answer to a prefix query on a map: all matching pairs in key order, nothing when there is none.\<close>

definition prefix_answer :: "kv \<Rightarrow> string \<Rightarrow> (string \<times> string) list option \<Rightarrow> bool" where
  "prefix_answer m p r \<longleftrightarrow>
     (case r of
        None \<Rightarrow> \<forall>k. prefix p k \<longrightarrow> m k = None
      | Some xs \<Rightarrow> xs \<noteq> [] \<and> sorted_wrt (<) (map fst xs) \<and>
          (\<forall>k v. (k, v) \<in> set xs \<longleftrightarrow> prefix p k \<and> m k = Some v))"

subsection \<open>Sequences of operations\<close>

datatype lsm_op = Get string | GetBatch "string list" | Put string string | PutBatch "(string \<times> string) list"
  | Remove string | RemoveBatch "string list"

text \<open>The answer of an operation: the keys that were asked for with their values.\<close>

fun lsm_exec :: "'s engine_ops \<Rightarrow> 's LSM \<Rightarrow> lsm_op \<Rightarrow> (string \<times> string option) list \<times> 's LSM" where
  "lsm_exec E s (Get k) = (case LSM_get E s k of (v, s) \<Rightarrow> ([(k, v)], s))"
| "lsm_exec E s (GetBatch ks) = LSM_get_batch E s ks"
| "lsm_exec E s (Put k v) = ([], LSM_put E s k v)"
| "lsm_exec E s (PutBatch kvs) = ([], LSM_put_batch E s kvs)"
| "lsm_exec E s (Remove k) = ([], LSM_remove E s k)"
| "lsm_exec E s (RemoveBatch ks) = ([], LSM_remove_batch E s ks)"

fun kv_exec :: "kv \<Rightarrow> lsm_op \<Rightarrow> (string \<times> string option) list \<times> kv" where
  "kv_exec m (Get k) = ([(k, m k)], m)"
| "kv_exec m (GetBatch ks) = (map (\<lambda>k. (k, m k)) ks, m)"
| "kv_exec m (Put k v) = ([], kv_put k v m)"
| "kv_exec m (PutBatch kvs) = ([], kv_puts kvs m)"
| "kv_exec m (Remove k) = ([], kv_del k m)"
| "kv_exec m (RemoveBatch ks) = ([], kv_dels ks m)"

fun lsm_run :: "'s engine_ops \<Rightarrow> 's LSM \<Rightarrow> lsm_op list \<Rightarrow> (string \<times> string option) list list \<times> 's LSM" where
  "lsm_run E s [] = ([], s)"
| "lsm_run E s (op # ops) =
     (case lsm_exec E s op of (r, s) \<Rightarrow> case lsm_run E s ops of (rs, s) \<Rightarrow> (r # rs, s))"

fun kv_run :: "kv \<Rightarrow> lsm_op list \<Rightarrow> (string \<times> string option) list list \<times> kv" where
  "kv_run m [] = ([], m)"
| "kv_run m (op # ops) =
     (case kv_exec m op of (r, m) \<Rightarrow> case kv_run m ops of (rs, m) \<Rightarrow> (r # rs, m))"

subsection \<open>The contract of the clients\<close>

locale lsm_store =
  fixes E :: "'s engine_ops"
    and view :: "'s LSM \<Rightarrow> kv"
    and can :: "'s LSM \<Rightarrow> nat \<Rightarrow> bool"
  assumes can_less: "can s n \<Longrightarrow> m \<le> n \<Longrightarrow> can s m"
    and view_nonempty: "can s n \<Longrightarrow> view s k \<noteq> Some []"
    and get_law: "can s (Suc n) \<Longrightarrow> fst (LSM_get E s k) = view s k \<and>
      view (snd (LSM_get E s k)) = view s \<and> can (snd (LSM_get E s k)) n"
    and get_batch_law: "can s (Suc n) \<Longrightarrow> fst (LSM_get_batch E s ks) = map (\<lambda>k. (k, view s k)) ks \<and>
      view (snd (LSM_get_batch E s ks)) = view s \<and> can (snd (LSM_get_batch E s ks)) n"
    and put_law: "can s (Suc n) \<Longrightarrow> view (LSM_put E s k v) = kv_put k v (view s) \<and> can (LSM_put E s k v) n"
    and remove_law: "can s (Suc n) \<Longrightarrow> view (LSM_remove E s k) = kv_del k (view s) \<and> can (LSM_remove E s k) n"
    and put_batch_law: "can s (Suc n) \<Longrightarrow>
      view (LSM_put_batch E s kvs) = kv_puts kvs (view s) \<and> can (LSM_put_batch E s kvs) n"
    and remove_batch_law: "can s (Suc n) \<Longrightarrow>
      view (LSM_remove_batch E s ks) = kv_dels ks (view s) \<and> can (LSM_remove_batch E s ks) n"
    and iters_law: "can s n \<Longrightarrow> prefix_answer (view s) p (LSM_iters E s 0 (prefix_compare p))"
begin

lemma get_cases:
  assumes "can s (Suc n)"
  obtains s' where "LSM_get E s k = (view s k, s')" "view s' = view s" "can s' n"
  using get_law [OF assms, of k] by (cases "LSM_get E s k") auto

lemma run_ok:
  "can s (n + length ops) \<Longrightarrow> fst (lsm_run E s ops) = fst (kv_run (view s) ops) \<and>
   view (snd (lsm_run E s ops)) = snd (kv_run (view s) ops) \<and> can (snd (lsm_run E s ops)) n"
proof (induction ops arbitrary: s)
  case (Cons op ops)
  have c: "can s (Suc (n + length ops))" using Cons.prems by simp
  have step: "fst (lsm_exec E s op) = fst (kv_exec (view s) op) \<and> view (snd (lsm_exec E s op)) = snd (kv_exec (view s) op) \<and>
      can (snd (lsm_exec E s op)) (n + length ops)"
  proof (cases op)
    case (Get k)
    then show ?thesis using get_law [OF c, of k] by (simp add: split_beta)
  next
    case (GetBatch ks)
    then show ?thesis using get_batch_law [OF c, of ks] by (simp add: split_beta)
  next
    case (Put k v)
    then show ?thesis using put_law [OF c, of k v] by simp
  next
    case (PutBatch kvs)
    then show ?thesis using put_batch_law [OF c, of kvs] by simp
  next
    case (Remove k)
    then show ?thesis using remove_law [OF c, of k] by simp
  next
    case (RemoveBatch ks)
    then show ?thesis using remove_batch_law [OF c, of ks] by simp
  qed
  then show ?case using Cons.IH [of "snd (lsm_exec E s op)"] by (simp add: split_beta Let_def)
qed simp

lemma iters_Some:
  "can s n \<Longrightarrow> LSM_iters E s 0 (prefix_compare p) = Some xs \<Longrightarrow>
   (k, v) \<in> set xs \<longleftrightarrow> prefix p k \<and> view s k = Some v"
  using iters_law [of s n p] by (simp add: prefix_answer_def)

end

subsection \<open>The contract of the engine\<close>

text \<open>
  \<open>bounded s t\<close>: every version in the engine has a transaction id below \<open>t\<close>. A reader that is at least
  as new sees the map \<open>content\<close>; a writer that is at least as new updates it.
\<close>

locale mvcc_engine =
  fixes E :: "'s engine_ops"
    and content :: "'s \<Rightarrow> kv"
    and bounded :: "'s \<Rightarrow> nat \<Rightarrow> bool"
  assumes bounded_mono: "bounded s t \<Longrightarrow> t \<le> t' \<Longrightarrow> bounded s t'"
    and content_nonempty: "bounded s t \<Longrightarrow> content s k \<noteq> Some []"
    and eng_get_law: "bounded s t \<Longrightarrow> t \<le> unat i \<Longrightarrow> i \<noteq> 0 \<Longrightarrow> map_option fst (eng_get E s k i) = content s k"
    and eng_get_batch_law: "bounded s t \<Longrightarrow> t \<le> unat i \<Longrightarrow> i \<noteq> 0 \<Longrightarrow>
      map (\<lambda>(k, v). (k, map_option fst v)) (eng_get_batch E s ks i) = map (\<lambda>k. (k, content s k)) ks"
    and eng_put_law: "bounded s t \<Longrightarrow> t \<le> unat i \<Longrightarrow> content (eng_put E s k v i) = kv_put k v (content s)"
    and eng_put_inv: "bounded s t \<Longrightarrow> t \<le> unat i \<Longrightarrow> bounded (eng_put E s k v i) (Suc (unat i))"
    and eng_remove_law: "bounded s t \<Longrightarrow> t \<le> unat i \<Longrightarrow> content (eng_remove E s k i) = kv_del k (content s)"
    and eng_remove_inv: "bounded s t \<Longrightarrow> t \<le> unat i \<Longrightarrow> bounded (eng_remove E s k i) (Suc (unat i))"
    and eng_put_batch_law: "bounded s t \<Longrightarrow> t \<le> unat i \<Longrightarrow> content (eng_put_batch E s kvs i) = kv_puts kvs (content s)"
    and eng_put_batch_inv: "bounded s t \<Longrightarrow> t \<le> unat i \<Longrightarrow> bounded (eng_put_batch E s kvs i) (Suc (unat i))"
    and eng_remove_batch_law: "bounded s t \<Longrightarrow> t \<le> unat i \<Longrightarrow> content (eng_remove_batch E s ks i) = kv_dels ks (content s)"
    and eng_remove_batch_inv: "bounded s t \<Longrightarrow> t \<le> unat i \<Longrightarrow> bounded (eng_remove_batch E s ks i) (Suc (unat i))"
    and eng_iters_law: "bounded s t \<Longrightarrow> prefix_answer (content s) p (eng_iters E s 0 (prefix_compare p))"

definition lsm_can :: "('s \<Rightarrow> nat \<Rightarrow> bool) \<Rightarrow> 's LSM \<Rightarrow> nat \<Rightarrow> bool" where
  "lsm_can bounded s n \<longleftrightarrow> (let t = unat (nextTransactionId (tran_manager s))
     in bounded (engine s) t \<and> 0 < t \<and> t + n < 2 ^ 64)"

definition lsm_view :: "('s \<Rightarrow> kv) \<Rightarrow> 's LSM \<Rightarrow> kv" where
  "lsm_view content s = content (engine s)"

lemma next_id_simps [simp]:
  "fst (next_id s) = nextTransactionId (tran_manager s)"
  "engine (snd (next_id s)) = engine s"
  "nextTransactionId (tran_manager (snd (next_id s))) = nextTransactionId (tran_manager s) + 1"
  by (simp_all add: next_id_def getNextTransactionId_def)

lemma unat_Suc_id: "unat (w :: u64) + Suc n < 2 ^ 64 \<Longrightarrow> unat (w + 1) = Suc (unat w)"
  using unat_add_lem [of w 1] by simp

lemma lsm_canD:
  assumes "lsm_can bounded s (Suc n)"
  shows "bounded (engine s) (unat (nextTransactionId (tran_manager s)))" "nextTransactionId (tran_manager s) \<noteq> 0"
    "unat (nextTransactionId (tran_manager s) + 1) = Suc (unat (nextTransactionId (tran_manager s)))"
    "Suc (unat (nextTransactionId (tran_manager s))) + n < 2 ^ 64"
  using assms unat_Suc_id [of "nextTransactionId (tran_manager s)" n] by (auto simp: lsm_can_def Let_def)

sublocale mvcc_engine \<subseteq> store: lsm_store E "lsm_view content" "lsm_can bounded"
proof unfold_locales
  fix s :: "'s LSM" and n m k v kvs ks p
  show "lsm_can bounded s n \<Longrightarrow> m \<le> n \<Longrightarrow> lsm_can bounded s m" by (simp add: lsm_can_def Let_def)
  show "lsm_can bounded s n \<Longrightarrow> lsm_view content s k \<noteq> Some []"
    using content_nonempty by (auto simp: lsm_can_def lsm_view_def Let_def)
  show "lsm_can bounded s n \<Longrightarrow> prefix_answer (lsm_view content s) p (LSM_iters E s 0 (prefix_compare p))"
    using eng_iters_law by (auto simp: lsm_can_def lsm_view_def LSM_iters_def Let_def)
  assume "lsm_can bounded s (Suc n)"
  note c = lsm_canD [OF this]
  let ?i = "nextTransactionId (tran_manager s)"
  have i: "bounded (engine s) (Suc (unat ?i))" by (rule bounded_mono [OF c(1)]) simp
  note step = next_id_def getNextTransactionId_def lsm_view_def lsm_can_def Let_def c(3)
  show "fst (LSM_get E s k) = lsm_view content s k \<and> lsm_view content (snd (LSM_get E s k)) = lsm_view content s \<and>
      lsm_can bounded (snd (LSM_get E s k)) n"
    using eng_get_law [OF c(1) order.refl c(2), of k] i c(4) by (simp add: LSM_get_def step)
  show "fst (LSM_get_batch E s ks) = map (\<lambda>k. (k, lsm_view content s k)) ks \<and>
      lsm_view content (snd (LSM_get_batch E s ks)) = lsm_view content s \<and> lsm_can bounded (snd (LSM_get_batch E s ks)) n"
    using eng_get_batch_law [OF c(1) order.refl c(2), of ks] i c(4) by (simp add: LSM_get_batch_def step)
  show "lsm_view content (LSM_put E s k v) = kv_put k v (lsm_view content s) \<and> lsm_can bounded (LSM_put E s k v) n"
    using eng_put_law [OF c(1) order.refl] eng_put_inv [OF c(1) order.refl] c(4) by (simp add: LSM_put_def step del: kv_put_apply kv_del_apply kv_dels_apply)
  show "lsm_view content (LSM_remove E s k) = kv_del k (lsm_view content s) \<and> lsm_can bounded (LSM_remove E s k) n"
    using eng_remove_law [OF c(1) order.refl] eng_remove_inv [OF c(1) order.refl] c(4) by (simp add: LSM_remove_def step del: kv_put_apply kv_del_apply kv_dels_apply)
  show "lsm_view content (LSM_put_batch E s kvs) = kv_puts kvs (lsm_view content s) \<and> lsm_can bounded (LSM_put_batch E s kvs) n"
    using eng_put_batch_law [OF c(1) order.refl] eng_put_batch_inv [OF c(1) order.refl] c(4)
    by (simp add: LSM_put_batch_def step del: kv_put_apply kv_del_apply kv_dels_apply)
  show "lsm_view content (LSM_remove_batch E s ks) = kv_dels ks (lsm_view content s) \<and> lsm_can bounded (LSM_remove_batch E s ks) n"
    using eng_remove_batch_law [OF c(1) order.refl] eng_remove_batch_inv [OF c(1) order.refl] c(4)
    by (simp add: LSM_remove_batch_def step del: kv_put_apply kv_del_apply kv_dels_apply)
qed

context mvcc_engine
begin

lemma lsm_run_ok:
  assumes "lsm_can bounded s (length ops)"
  shows "fst (lsm_run E s ops) = fst (kv_run (content (engine s)) ops) \<and>
    content (engine (snd (lsm_run E s ops))) = snd (kv_run (content (engine s)) ops)"
  using store.run_ok [of s 0 ops] assms by (simp add: lsm_view_def)

end

end
