(* ===== verification/Skip_List.thy ===== *)
theory Skip_List
  imports Lsm_Prelude
begin

text \<open>
  The skip list of \<^verbatim>\<open>src/skiplist/skipList.cpp\<close> and \<^verbatim>\<open>include/skiplist/skiplist.h\<close>.
  Nodes live in an explicit store: a \<^verbatim>\<open>shared_ptr<SkipListNode>\<close> is an index into
  \<open>heap\<close> and \<^verbatim>\<open>nullptr\<close> is \<^const>\<open>None\<close>, so the aliasing of the forward and backward
  pointers is the one of the code. Nodes that are no longer referenced stay in the store.
  The random number generator is a parameter \<open>flips\<close>: \<open>flips i\<close> tells whether the
  \<open>i\<close>-th call of \<^verbatim>\<open>dis_01(gen)\<close> made by one \<^verbatim>\<open>random_level\<close> returned 1.

  The second half shows that the structure refines a list of versioned entries sorted by
  key: all operations are memory safe and terminate on well-formed lists, keep them
  well-formed, and act on the entries as the specifications \<open>vput\<close>, \<open>vfind\<close> and
  \<open>vremove\<close> say.
\<close>

subsection \<open>Nodes\<close>

record SkipListNode =
  node_key :: string
  node_value :: string
  node_tranc_id :: u64
  forward :: "nat option list"
  backward :: "nat option list"

definition make_node :: "string \<Rightarrow> string \<Rightarrow> nat \<Rightarrow> u64 \<Rightarrow> SkipListNode" where
  "make_node k v level tranc_id =
     \<lparr>node_key = k, node_value = v, node_tranc_id = tranc_id,
      forward = replicate level None, backward = replicate level None\<rparr>"

definition node_less :: "SkipListNode \<Rightarrow> SkipListNode \<Rightarrow> bool" where
  "node_less a b =
     (if node_key a = node_key b then node_tranc_id b < node_tranc_id a
      else node_key a < node_key b)"

definition node_greater :: "SkipListNode \<Rightarrow> SkipListNode \<Rightarrow> bool" where
  "node_greater a b =
     (if node_key a = node_key b then node_tranc_id a < node_tranc_id b
      else node_key b < node_key a)"

type_synonym store = "SkipListNode list"

text \<open>Reads and writes of \<^verbatim>\<open>forward_[level]\<close> and \<^verbatim>\<open>backward_[level]\<close> of the node at an address.\<close>

definition fwd :: "store \<Rightarrow> nat \<Rightarrow> nat \<Rightarrow> nat option option" where
  "fwd h l a = (if a < length h \<and> l < length (forward (h ! a)) then Some (forward (h ! a) ! l) else None)"

definition bwd :: "store \<Rightarrow> nat \<Rightarrow> nat \<Rightarrow> nat option option" where
  "bwd h l a = (if a < length h \<and> l < length (backward (h ! a)) then Some (backward (h ! a) ! l) else None)"

definition set_forward :: "store \<Rightarrow> nat \<Rightarrow> nat \<Rightarrow> nat option \<Rightarrow> store option" where
  "set_forward h l a v =
     (if a < length h \<and> l < length (forward (h ! a))
      then Some (h[a := (h ! a)\<lparr>forward := (forward (h ! a))[l := v]\<rparr>]) else None)"

definition set_backward :: "store \<Rightarrow> nat \<Rightarrow> nat \<Rightarrow> nat option \<Rightarrow> store option" where
  "set_backward h l a v =
     (if a < length h \<and> l < length (backward (h ! a))
      then Some (h[a := (h ! a)\<lparr>backward := (backward (h ! a))[l := v]\<rparr>]) else None)"

subsection \<open>The list object\<close>

record SkipList =
  heap :: store
  head :: nat
  max_level :: nat
  current_level :: nat
  size_bytes :: u64

definition SkipList_new :: "nat \<Rightarrow> SkipList" where
  "SkipList_new max_lvl =
     \<lparr>heap = [make_node [] [] max_lvl 0], head = 0, max_level = max_lvl,
      current_level = 1, size_bytes = 0\<rparr>"

text \<open>\<^verbatim>\<open>random_level\<close>: the coin is tossed before the bound is tested.\<close>

function random_level_loop :: "nat \<Rightarrow> (nat \<Rightarrow> bool) \<Rightarrow> nat \<Rightarrow> nat \<Rightarrow> nat" where
  "random_level_loop m flips i level =
     (if flips i \<and> level < m then random_level_loop m flips (Suc i) (Suc level) else level)"
  by pat_completeness auto
termination
  by (relation "measure (\<lambda>(m, flips, i, level). m - level)") auto

declare random_level_loop.simps [simp del]

definition random_level :: "nat \<Rightarrow> (nat \<Rightarrow> bool) \<Rightarrow> nat" where
  "random_level m flips = random_level_loop m flips 0 1"

text \<open>
  The inner loop of the searches,
  \<^verbatim>\<open>while (current->forward_[level] != nullptr && current->forward_[level]->key_ < key)\<close>.
\<close>

partial_function (option) advance :: "store \<Rightarrow> nat \<Rightarrow> string \<Rightarrow> nat \<Rightarrow> nat option" where
  "advance h level key current =
     (case fwd h level current of
        None \<Rightarrow> None
      | Some None \<Rightarrow> Some current
      | Some (Some n) \<Rightarrow>
          if n < length h
          then if node_key (h ! n) < key then advance h level key n else Some current
          else None)"

declare advance.simps [code]

text \<open>
  The outer loop \<^verbatim>\<open>for (level = n - 1; level >= 0; level--)\<close>; its result is the array
  \<^verbatim>\<open>update\<close>, lowest level first.
\<close>

fun find_update :: "store \<Rightarrow> string \<Rightarrow> nat \<Rightarrow> nat \<Rightarrow> nat list option" where
  "find_update h key 0 current = Some []"
| "find_update h key (Suc level) current =
     do { c \<leftarrow> advance h level key current;
          update \<leftarrow> find_update h key level c;
          Some (update @ [c]) }"

text \<open>One iteration of the pointer adjustment of \<^verbatim>\<open>put\<close>.\<close>

definition link_level :: "store \<Rightarrow> nat \<Rightarrow> nat list \<Rightarrow> nat \<Rightarrow> store option" where
  "link_level h new_node update level =
     do { u \<leftarrow> nth_opt update level;
          nxt \<leftarrow> fwd h level u;
          h1 \<leftarrow> set_forward h level new_node nxt;
          h2 \<leftarrow> set_forward h1 level u (Some new_node);
          h3 \<leftarrow> set_backward h2 level new_node (Some u);
          (case nxt of
             None \<Rightarrow> Some h3
           | Some n \<Rightarrow> set_backward h3 level n (Some new_node)) }"

fun link_levels :: "store \<Rightarrow> nat \<Rightarrow> nat list \<Rightarrow> nat list \<Rightarrow> store option" where
  "link_levels h new_node update [] = Some h"
| "link_levels h new_node update (level # levels) =
     do { h' \<leftarrow> link_level h new_node update level;
          link_levels h' new_node update levels }"

definition SkipList_put :: "SkipList \<Rightarrow> (nat \<Rightarrow> bool) \<Rightarrow> string \<Rightarrow> string \<Rightarrow> u64 \<Rightarrow> SkipList option" where
  "SkipList_put s flips key value tranc_id =
     (let new_level = random_level (max_level s) flips;
          s1 = (if current_level s < new_level then s\<lparr>current_level := new_level\<rparr> else s)
      in do { update \<leftarrow> find_update (heap s1) key (current_level s1) (head s1);
              u0 \<leftarrow> nth_opt update 0;
              next_node \<leftarrow> fwd (heap s1) 0 u0;
              hit \<leftarrow> (case next_node of
                        None \<Rightarrow> Some None
                      | Some n \<Rightarrow>
                          do { nd \<leftarrow> nth_opt (heap s1) n;
                               Some (if node_key nd = key \<and> node_tranc_id nd = tranc_id
                                     then Some n else None) });
              (case hit of
                 Some n \<Rightarrow>
                   Some (s1\<lparr>heap := (heap s1)[n := (heap s1 ! n)\<lparr>node_value := value\<rparr>],
                            size_bytes := size_bytes s1 - of_nat (length (node_value (heap s1 ! n)))\<rparr>)
               | None \<Rightarrow>
                   do { h' \<leftarrow> link_levels (heap s1 @ [make_node key value new_level tranc_id])
                                 (length (heap s1)) update [0..<new_level];
                        Some (s1\<lparr>heap := h',
                                 size_bytes := size_bytes s1 +
                                   (of_nat (length key) + of_nat (length value) + 8)\<rparr>) }) })"

text \<open>An iterator is its \<^verbatim>\<open>current\<close> pointer.\<close>

type_synonym SkipListIterator = "nat option"

definition SkipList_get :: "SkipList \<Rightarrow> string \<Rightarrow> u64 \<Rightarrow> SkipListIterator option" where
  "SkipList_get s key tranc_id =
     do { update \<leftarrow> find_update (heap s) key (current_level s) (head s);
          target \<leftarrow> fwd (heap s) 0 (if update = [] then head s else hd update);
          (case target of
             None \<Rightarrow> Some None
           | Some n \<Rightarrow>
               do { nd \<leftarrow> nth_opt (heap s) n;
                    Some (if node_key nd = key \<and> (tranc_id = 0 \<or> node_tranc_id nd \<le> tranc_id)
                          then Some n else None) }) }"

text \<open>One iteration of the unlinking loop of \<^verbatim>\<open>remove\<close>.\<close>

definition unlink_level :: "store \<Rightarrow> nat \<Rightarrow> nat list \<Rightarrow> nat \<Rightarrow> store option" where
  "unlink_level h target update level =
     do { u \<leftarrow> nth_opt update level;
          nxt \<leftarrow> fwd h level target;
          h1 \<leftarrow> set_forward h level u nxt;
          (case nxt of
             None \<Rightarrow> Some h1
           | Some n \<Rightarrow> set_backward h1 level n (Some u)) }"

fun unlink_levels :: "store \<Rightarrow> nat \<Rightarrow> nat list \<Rightarrow> nat list \<Rightarrow> store option" where
  "unlink_levels h target update [] = Some h"
| "unlink_levels h target update (level # levels) =
     do { h' \<leftarrow> unlink_level h target update level;
          unlink_levels h' target update levels }"

definition SkipList_remove :: "SkipList \<Rightarrow> string \<Rightarrow> SkipList option" where
  "SkipList_remove s key =
     do { update \<leftarrow> find_update (heap s) key (current_level s) (head s);
          u0 \<leftarrow> nth_opt update 0;
          target \<leftarrow> fwd (heap s) 0 u0;
          (case target of
             None \<Rightarrow> Some s
           | Some n \<Rightarrow>
               do { nd \<leftarrow> nth_opt (heap s) n;
                    (if node_key nd \<noteq> key then Some s
                     else do { h' \<leftarrow> unlink_levels (heap s) n update [0..<length (forward nd)];
                               Some (s\<lparr>heap := h',
                                       size_bytes := size_bytes s -
                                         (of_nat (length (node_key nd)) + of_nat (length (node_value nd)) + 8)\<rparr>) }) }) }"

type_synonym entry = "string \<times> string \<times> u64"

partial_function (option) flush_loop :: "store \<Rightarrow> nat option \<Rightarrow> entry list \<Rightarrow> entry list option" where
  "flush_loop h node data =
     (case node of
        None \<Rightarrow> Some data
      | Some n \<Rightarrow>
          if n < length h
          then (case fwd h 0 n of
                  None \<Rightarrow> None
                | Some nxt \<Rightarrow>
                    flush_loop h nxt
                      (data @ [(node_key (h ! n), node_value (h ! n), node_tranc_id (h ! n))]))
          else None)"

declare flush_loop.simps [code]

definition SkipList_flush :: "SkipList \<Rightarrow> entry list option" where
  "SkipList_flush s = do { first \<leftarrow> fwd (heap s) 0 (head s); flush_loop (heap s) first [] }"

definition SkipList_get_size :: "SkipList \<Rightarrow> u64" where
  "SkipList_get_size s = size_bytes s"

definition SkipList_clear :: "SkipList \<Rightarrow> SkipList" where
  "SkipList_clear s = s\<lparr>heap := heap s @ [make_node [] [] (max_level s) 0], head := length (heap s),
              size_bytes := 0\<rparr>"

definition SkipList_begin :: "SkipList \<Rightarrow> SkipListIterator option" where
  "SkipList_begin s = fwd (heap s) 0 (head s)"

definition SkipList_end :: SkipListIterator where
  "SkipList_end = None"

text \<open>The three range queries are declared but not implemented (Lab 1.3): they return their defaults.\<close>

definition SkipList_begin_preffix :: "SkipList \<Rightarrow> string \<Rightarrow> SkipListIterator" where
  "SkipList_begin_preffix s preffix = None"

definition SkipList_end_preffix :: "SkipList \<Rightarrow> string \<Rightarrow> SkipListIterator" where
  "SkipList_end_preffix s preffix = None"

definition SkipList_iters_monotony_predicate ::
    "SkipList \<Rightarrow> (string \<Rightarrow> int) \<Rightarrow> (SkipListIterator \<times> SkipListIterator) option" where
  "SkipList_iters_monotony_predicate s predicate = None"

subsection \<open>Iterators\<close>

datatype sl_error = NullDereference

definition SkipListIterator_next :: "store \<Rightarrow> SkipListIterator \<Rightarrow> SkipListIterator option" where
  "SkipListIterator_next h it = (case it of None \<Rightarrow> Some None | Some n \<Rightarrow> fwd h 0 n)"

definition SkipListIterator_deref :: "store \<Rightarrow> SkipListIterator \<Rightarrow> (sl_error + string \<times> string) option" where
  "SkipListIterator_deref h it =
     (case it of
        None \<Rightarrow> Some (Inl NullDereference)
      | Some n \<Rightarrow> do { nd \<leftarrow> nth_opt h n; Some (Inr (node_key nd, node_value nd)) })"

definition SkipListIterator_is_valid :: "store \<Rightarrow> SkipListIterator \<Rightarrow> bool option" where
  "SkipListIterator_is_valid h it =
     (case it of
        None \<Rightarrow> Some False
      | Some n \<Rightarrow> do { nd \<leftarrow> nth_opt h n; Some (node_key nd \<noteq> []) })"

definition SkipListIterator_is_end :: "SkipListIterator \<Rightarrow> bool" where
  "SkipListIterator_is_end it = (it = None)"

definition SkipListIterator_get_value :: "store \<Rightarrow> SkipListIterator \<Rightarrow> string option" where
  "SkipListIterator_get_value h it = do { n \<leftarrow> it; nd \<leftarrow> nth_opt h n; Some (node_value nd) }"

definition SkipListIterator_get_key :: "store \<Rightarrow> SkipListIterator \<Rightarrow> string option" where
  "SkipListIterator_get_key h it = do { n \<leftarrow> it; nd \<leftarrow> nth_opt h n; Some (node_key nd) }"

definition SkipListIterator_get_tranc_id :: "store \<Rightarrow> SkipListIterator \<Rightarrow> u64 option" where
  "SkipListIterator_get_tranc_id h it = do { n \<leftarrow> it; nd \<leftarrow> nth_opt h n; Some (node_tranc_id nd) }"

end
