(* ===== verification/Skip_List_Correct.thy ===== *)
theory Skip_List_Correct
  imports Skip_List
begin

text \<open>
  Correctness of the skip list. \<open>path\<close> and \<open>linked\<close> describe one level as a doubly
  linked list in the store; \<open>sl_rep s xs\<close> is the representation invariant: \<open>xs\<close> are the
  addresses of the nodes in list order, every level links exactly the nodes that are tall
  enough, and keys are sorted. The lemmas marked \<open>refine\<close> relate each operation to the
  specification on entries.
\<close>

subsection \<open>Doubly linked segments\<close>

fun path :: "(nat \<Rightarrow> nat option option) \<Rightarrow> (nat \<Rightarrow> nat option option) \<Rightarrow> nat \<Rightarrow> nat list \<Rightarrow> bool" where
  "path f g a [] = True"
| "path f g a (b # bs) = (f a = Some (Some b) \<and> g b = Some (Some a) \<and> path f g b bs)"

definition linked :: "(nat \<Rightarrow> nat option option) \<Rightarrow> (nat \<Rightarrow> nat option option) \<Rightarrow> nat \<Rightarrow> nat list \<Rightarrow> bool" where
  "linked f g a xs \<longleftrightarrow> path f g a xs \<and> f (last (a # xs)) = Some None"

lemma path_append: "path f g a (xs @ ys) \<longleftrightarrow> path f g a xs \<and> path f g (last (a # xs)) ys"
  by (induction xs arbitrary: a) auto

lemma path_cong:
  assumes "\<And>x. x \<in> set (butlast (a # xs)) \<Longrightarrow> f x = f' x" "\<And>x. x \<in> set xs \<Longrightarrow> g x = g' x"
  shows "path f g a xs = path f' g' a xs"
  using assms
proof (induction xs arbitrary: a)
  case (Cons b bs)
  have "path f g b bs = path f' g' b bs" by (rule Cons.IH) (use Cons.prems in auto)
  with Cons.prems show ?case by auto
qed simp

lemma last_not_butlast: "distinct (a # xs) \<Longrightarrow> last (a # xs) \<notin> set (butlast (a # xs))"
proof (induction xs arbitrary: a)
  case (Cons b bs)
  have "last (b # bs) \<in> set (b # bs)" by (rule last_in_set) simp
  with Cons.prems have "last (b # bs) \<noteq> a" by auto
  with Cons show ?case by auto
qed simp

lemma linked_append:
  "linked f g a (xs @ ys) \<longleftrightarrow> path f g a xs \<and> linked f g (last (a # xs)) ys"
  by (auto simp: linked_def path_append)

lemma linked_simps [simp]:
  "linked f g a [] \<longleftrightarrow> f a = Some None"
  "linked f g a (b # bs) \<longleftrightarrow> f a = Some (Some b) \<and> g b = Some (Some a) \<and> linked f g b bs"
  by (auto simp: linked_def)

lemma linked_last: "linked f g a xs \<Longrightarrow> f (last (a # xs)) = Some None"
  by (simp add: linked_def)

lemma linked_cong:
  assumes "\<And>x. x \<in> insert a (set xs) \<Longrightarrow> f x = f' x" "\<And>x. x \<in> set xs \<Longrightarrow> g x = g' x"
  shows "linked f g a xs = linked f' g' a xs"
proof -
  have "path f g a xs = path f' g' a xs"
    by (rule path_cong) (use assms in_set_butlastD [of _ "a # xs"] in \<open>auto simp del: butlast.simps\<close>)
  moreover have "f (last (a # xs)) = f' (last (a # xs))"
    using assms(1) [OF last_in_set_Cons [of a xs]] .
  ultimately show ?thesis by (simp add: linked_def)
qed

text \<open>The successor of the last node of a prefix.\<close>

lemma linked_succ:
  "linked f g a (xs @ ys) \<Longrightarrow> f (last (a # xs)) = Some (case ys of [] \<Rightarrow> None | y # _ \<Rightarrow> Some y)"
  using linked_last [of f g a xs] by (cases ys) (auto simp: linked_append)

lemma linked_insert:
  assumes l: "linked f g a (xs @ ys)" and d: "distinct (a # xs @ ys)"
    and n: "n \<notin> set (a # xs @ ys)" and p: "p = last (a # xs)"
    and f': "f' n = f p" "f' p = Some (Some n)" "\<And>x. x \<noteq> n \<Longrightarrow> x \<noteq> p \<Longrightarrow> f' x = f x"
    and g': "g' n = Some (Some p)" "\<And>y. f p = Some (Some y) \<Longrightarrow> g' y = Some (Some n)"
            "\<And>x. x \<noteq> n \<Longrightarrow> f p \<noteq> Some (Some x) \<Longrightarrow> g' x = g x"
  shows "linked f' g' a (xs @ n # ys)"
proof -
  have fp: "f p = Some (case ys of [] \<Rightarrow> None | y # _ \<Rightarrow> Some y)"
    using linked_succ [OF l] p by simp
  have disj: "p \<in> insert a (set xs)" using p last_in_set_Cons by simp
  have "path f g a xs" using l by (simp add: linked_append)
  moreover have "path f g a xs = path f' g' a xs"
  proof (rule path_cong)
    fix x assume x: "x \<in> set (butlast (a # xs))"
    then have "x \<in> set (a # xs)" by (rule in_set_butlastD)
    moreover have "x \<noteq> p" using last_not_butlast [of a xs] d x p by auto
    moreover have "x \<noteq> n" using calculation(1) n by auto
    ultimately show "f x = f' x" using f'(3) [of x] by simp
  next
    fix x assume x: "x \<in> set xs"
    then have "f p \<noteq> Some (Some x)" using fp d by (cases ys) auto
    moreover have "x \<noteq> n" using x n by auto
    ultimately show "g x = g' x" using g'(3) by simp
  qed
  ultimately have px: "path f' g' a xs" by simp
  have "linked f' g' n ys"
  proof (cases ys)
    case Nil
    with fp f'(1) show ?thesis by simp
  next
    case (Cons y zs)
    have ly: "linked f g y zs" using l by (simp add: linked_append Cons)
    have "linked f g y zs = linked f' g' y zs"
    proof (rule linked_cong)
      fix x assume "x \<in> insert y (set zs)"
      then have "x \<noteq> n" "x \<noteq> p" using n d disj Cons by auto
      then show "f x = f' x" using f'(3) by simp
    next
      fix x assume "x \<in> set zs"
      then have "x \<noteq> n" "f p \<noteq> Some (Some x)" using fp n d Cons by auto
      then show "g x = g' x" using g'(3) by simp
    qed
    with ly fp f'(1) g'(2) Cons show ?thesis by auto
  qed
  with px p f'(2) g'(1) show ?thesis by (simp add: linked_append)
qed

lemma linked_delete:
  assumes l: "linked f g a (xs @ t # ys)" and d: "distinct (a # xs @ t # ys)"
    and p: "p = last (a # xs)"
    and f': "f' p = f t" "\<And>x. x \<noteq> p \<Longrightarrow> f' x = f x"
    and g': "\<And>y. f t = Some (Some y) \<Longrightarrow> g' y = Some (Some p)"
            "\<And>x. f t \<noteq> Some (Some x) \<Longrightarrow> g' x = g x"
  shows "linked f' g' a (xs @ ys)"
proof -
  have lt: "linked f g t ys" using l by (simp add: linked_append)
  have ft: "f t = Some (case ys of [] \<Rightarrow> None | y # _ \<Rightarrow> Some y)"
    using linked_succ [of f g t "[]" ys] lt by simp
  have pin: "p \<in> insert a (set xs)" using p last_in_set_Cons by simp
  have "path f g a xs" using l by (simp add: linked_append)
  moreover have "path f g a xs = path f' g' a xs"
  proof (rule path_cong)
    fix x assume x: "x \<in> set (butlast (a # xs))"
    have "x \<noteq> p" using last_not_butlast [of a xs] d x p by auto
    then show "f x = f' x" using f'(2) by auto
  next
    fix x assume x: "x \<in> set xs"
    then have "f t \<noteq> Some (Some x)" using ft d by (cases ys) auto
    then show "g x = g' x" using g'(2) by auto
  qed
  ultimately have px: "path f' g' a xs" by simp
  have "linked f' g' p ys"
  proof (cases ys)
    case Nil
    with ft f'(1) show ?thesis by simp
  next
    case (Cons y zs)
    have ly: "linked f g y zs" using lt by (simp add: Cons)
    have "linked f g y zs = linked f' g' y zs"
    proof (rule linked_cong)
      fix x assume "x \<in> insert y (set zs)"
      then have "x \<noteq> p" using d pin Cons by auto
      then show "f x = f' x" using f'(2) by simp
    next
      fix x assume "x \<in> set zs"
      then have "f t \<noteq> Some (Some x)" using ft d Cons by auto
      then show "g x = g' x" using g'(2) by simp
    qed
    with ly ft f'(1) g'(1) Cons show ?thesis by auto
  qed
  with px p show ?thesis by (simp add: linked_append)
qed

subsection \<open>Store updates\<close>

text \<open>Everything of a store but the pointers themselves.\<close>

definition shape :: "store \<Rightarrow> (string \<times> string \<times> u64 \<times> nat \<times> nat) list" where
  "shape h = map (\<lambda>n. (node_key n, node_value n, node_tranc_id n, length (forward n), length (backward n))) h"

abbreviation keyof :: "store \<Rightarrow> nat \<Rightarrow> string" where
  "keyof h a \<equiv> node_key (h ! a)"

abbreviation ht :: "store \<Rightarrow> nat \<Rightarrow> nat" where
  "ht h a \<equiv> length (forward (h ! a))"

abbreviation bht :: "store \<Rightarrow> nat \<Rightarrow> nat" where
  "bht h a \<equiv> length (backward (h ! a))"

definition entry_at :: "store \<Rightarrow> nat \<Rightarrow> entry" where
  "entry_at h a = (node_key (h ! a), node_value (h ! a), node_tranc_id (h ! a))"

lemma shape_length: "shape h = shape h' \<Longrightarrow> length h = length h'"
  by (drule arg_cong [where f = length]) (simp add: shape_def)

lemma shape_nth:
  assumes "shape h = shape h'" "a < length h"
  shows "keyof h a = keyof h' a" "ht h a = ht h' a" "bht h a = bht h' a" "entry_at h a = entry_at h' a"
proof -
  have "shape h ! a = shape h' ! a" using assms by simp
  then show "keyof h a = keyof h' a" "ht h a = ht h' a" "bht h a = bht h' a" "entry_at h a = entry_at h' a"
    using assms shape_length [OF assms(1)] by (simp_all add: shape_def entry_at_def)
qed

lemma shape_update:
  "a < length h \<Longrightarrow> length fs = ht h a \<Longrightarrow> shape (h[a := (h ! a)\<lparr>forward := fs\<rparr>]) = shape h"
  "a < length h \<Longrightarrow> length bs = bht h a \<Longrightarrow> shape (h[a := (h ! a)\<lparr>backward := bs\<rparr>]) = shape h"
  by (auto simp: shape_def list_eq_iff_nth_eq nth_list_update)

lemma fwd_None_iff [simp]: "fwd h l a = None \<longleftrightarrow> \<not> (a < length h \<and> l < ht h a)"
  by (auto simp: fwd_def)

lemma set_forward_ok:
  assumes "a < length h" "l < ht h a"
  obtains h' where "set_forward h l a v = Some h'" "shape h' = shape h" "bwd h' = bwd h"
    "fwd h' l = (fwd h l)(a := Some v)" "\<And>l'. l' \<noteq> l \<Longrightarrow> fwd h' l' = fwd h l'"
proof
  let ?h = "h[a := (h ! a)\<lparr>forward := (forward (h ! a))[l := v]\<rparr>]"
  show "set_forward h l a v = Some ?h" using assms by (simp add: set_forward_def)
  show "shape ?h = shape h" using assms by (simp add: shape_update)
  show "bwd ?h = bwd h" using assms by (auto simp: bwd_def fun_eq_iff nth_list_update)
  show "fwd ?h l = (fwd h l)(a := Some v)"
    using assms by (auto simp: fwd_def fun_eq_iff nth_list_update)
  show "fwd ?h l' = fwd h l'" if "l' \<noteq> l" for l'
    using that assms by (auto simp: fwd_def fun_eq_iff nth_list_update)
qed

lemma set_backward_ok:
  assumes "a < length h" "l < bht h a"
  obtains h' where "set_backward h l a v = Some h'" "shape h' = shape h" "fwd h' = fwd h"
    "bwd h' l = (bwd h l)(a := Some v)" "\<And>l'. l' \<noteq> l \<Longrightarrow> bwd h' l' = bwd h l'"
proof
  let ?h = "h[a := (h ! a)\<lparr>backward := (backward (h ! a))[l := v]\<rparr>]"
  show "set_backward h l a v = Some ?h" using assms by (simp add: set_backward_def)
  show "shape ?h = shape h" using assms by (simp add: shape_update)
  show "fwd ?h = fwd h" using assms by (auto simp: fwd_def fun_eq_iff nth_list_update)
  show "bwd ?h l = (bwd h l)(a := Some v)"
    using assms by (auto simp: bwd_def fun_eq_iff nth_list_update)
  show "bwd ?h l' = bwd h l'" if "l' \<noteq> l" for l'
    using that assms by (auto simp: bwd_def fun_eq_iff nth_list_update)
qed

text \<open>The two pointer surgeries, as functions of the old pointers.\<close>

lemma link_level_ok:
  assumes l: "l < length update" "u = update ! l"
    and u: "u < length h" "l < ht h u" and n: "n < length h" "l < ht h n" "l < bht h n" "n \<noteq> u"
    and y: "\<And>y. fwd h l u = Some (Some y) \<Longrightarrow> y < length h \<and> l < bht h y \<and> y \<noteq> n"
  obtains h' where "link_level h n update l = Some h'" "shape h' = shape h"
    "\<And>l'. l' \<noteq> l \<Longrightarrow> fwd h' l' = fwd h l'" "\<And>l'. l' \<noteq> l \<Longrightarrow> bwd h' l' = bwd h l'"
    "fwd h' l n = fwd h l u" "fwd h' l u = Some (Some n)"
    "\<And>x. x \<noteq> n \<Longrightarrow> x \<noteq> u \<Longrightarrow> fwd h' l x = fwd h l x"
    "bwd h' l n = Some (Some u)" "\<And>y. fwd h l u = Some (Some y) \<Longrightarrow> bwd h' l y = Some (Some n)"
    "\<And>x. x \<noteq> n \<Longrightarrow> fwd h l u \<noteq> Some (Some x) \<Longrightarrow> bwd h' l x = bwd h l x"
proof -
  obtain nxt where nxt: "fwd h l u = Some nxt" using u by (cases "fwd h l u") auto
  obtain h1 where h1: "set_forward h l n nxt = Some h1" "shape h1 = shape h" "bwd h1 = bwd h"
    "fwd h1 l = (fwd h l)(n := Some nxt)" "\<And>l'. l' \<noteq> l \<Longrightarrow> fwd h1 l' = fwd h l'"
    by (rule set_forward_ok [OF n(1,2), of nxt]) auto
  note s1 = shape_nth [OF h1(2)] shape_length [OF h1(2)]
  obtain h2 where h2: "set_forward h1 l u (Some n) = Some h2" "shape h2 = shape h1" "bwd h2 = bwd h1"
    "fwd h2 l = (fwd h1 l)(u := Some (Some n))" "\<And>l'. l' \<noteq> l \<Longrightarrow> fwd h2 l' = fwd h1 l'"
    by (rule set_forward_ok [of u h1 l "Some n"]) (use u s1 in auto)
  note s2 = shape_nth [OF h2(2)] shape_length [OF h2(2)]
  obtain h3 where h3: "set_backward h2 l n (Some u) = Some h3" "shape h3 = shape h2" "fwd h3 = fwd h2"
    "bwd h3 l = (bwd h2 l)(n := Some (Some u))" "\<And>l'. l' \<noteq> l \<Longrightarrow> bwd h3 l' = bwd h2 l'"
    by (rule set_backward_ok [of n h2 l "Some u"]) (use n s1 s2 in auto)
  note s3 = shape_nth [OF h3(2)] shape_length [OF h3(2)]
  note facts = h1 h2 h3 l nxt
  show thesis
  proof (cases nxt)
    case None
    show thesis
      by (rule that [of h3]) (use facts n None in \<open>auto simp: link_level_def\<close>)
  next
    case (Some y)
    then have yl: "y < length h" "l < bht h y" "y \<noteq> n" using nxt assms(9) by auto
    obtain h4 where h4: "set_backward h3 l y (Some n) = Some h4" "shape h4 = shape h3" "fwd h4 = fwd h3"
      "bwd h4 l = (bwd h3 l)(y := Some (Some n))" "\<And>l'. l' \<noteq> l \<Longrightarrow> bwd h4 l' = bwd h3 l'"
      by (rule set_backward_ok [of y h3 l "Some n"]) (use yl s1 s2 s3 in auto)
    show thesis
      by (rule that [of h4]) (use facts h4 n yl Some in \<open>auto simp: link_level_def\<close>)
  qed
qed

lemma unlink_level_ok:
  assumes l: "l < length update" "u = update ! l"
    and u: "u < length h" "l < ht h u" and t: "t < length h" "l < ht h t"
    and y: "\<And>y. fwd h l t = Some (Some y) \<Longrightarrow> y < length h \<and> l < bht h y"
  obtains h' where "unlink_level h t update l = Some h'" "shape h' = shape h"
    "\<And>l'. l' \<noteq> l \<Longrightarrow> fwd h' l' = fwd h l'" "\<And>l'. l' \<noteq> l \<Longrightarrow> bwd h' l' = bwd h l'"
    "fwd h' l u = fwd h l t" "\<And>x. x \<noteq> u \<Longrightarrow> fwd h' l x = fwd h l x"
    "\<And>y. fwd h l t = Some (Some y) \<Longrightarrow> bwd h' l y = Some (Some u)"
    "\<And>x. fwd h l t \<noteq> Some (Some x) \<Longrightarrow> bwd h' l x = bwd h l x"
proof -
  obtain nxt where nxt: "fwd h l t = Some nxt" using t by (cases "fwd h l t") auto
  obtain h1 where h1: "set_forward h l u nxt = Some h1" "shape h1 = shape h" "bwd h1 = bwd h"
    "fwd h1 l = (fwd h l)(u := Some nxt)" "\<And>l'. l' \<noteq> l \<Longrightarrow> fwd h1 l' = fwd h l'"
    by (rule set_forward_ok [OF u(1,2), of nxt]) auto
  note s1 = shape_nth [OF h1(2)] shape_length [OF h1(2)]
  show thesis
  proof (cases nxt)
    case None
    show thesis
      by (rule that [of h1]) (use h1 l nxt None in \<open>auto simp: unlink_level_def\<close>)
  next
    case (Some y)
    then have yl: "y < length h" "l < bht h y" using nxt assms(7) by auto
    obtain h2 where h2: "set_backward h1 l y (Some u) = Some h2" "shape h2 = shape h1" "fwd h2 = fwd h1"
      "bwd h2 l = (bwd h1 l)(y := Some (Some u))" "\<And>l'. l' \<noteq> l \<Longrightarrow> bwd h2 l' = bwd h1 l'"
      by (rule set_backward_ok [of y h1 l "Some u"]) (use yl s1 in auto)
    show thesis
      by (rule that [of h2]) (use h1 h2 l nxt Some in \<open>auto simp: unlink_level_def\<close>)
  qed
qed

subsection \<open>The representation invariant\<close>

abbreviation at_level :: "store \<Rightarrow> nat \<Rightarrow> nat list \<Rightarrow> nat list" where
  "at_level h l xs \<equiv> filter (\<lambda>a. l < ht h a) xs"

definition sl_rep :: "SkipList \<Rightarrow> nat list \<Rightarrow> bool" where
  "sl_rep s xs \<longleftrightarrow>
     distinct (head s # xs) \<and>
     (\<forall>a\<in>set (head s # xs). a < length (heap s) \<and> bht (heap s) a = ht (heap s) a) \<and>
     1 \<le> current_level s \<and> current_level s \<le> max_level s \<and>
     ht (heap s) (head s) = max_level s \<and>
     (\<forall>a\<in>set xs. 1 \<le> ht (heap s) a \<and> ht (heap s) a \<le> current_level s) \<and>
     sorted (map (keyof (heap s)) xs) \<and>
     (\<forall>l<max_level s. linked (fwd (heap s) l) (bwd (heap s) l) (head s) (at_level (heap s) l xs))"

lemma sl_repD:
  assumes "sl_rep s xs"
  shows "distinct (head s # xs)"
    and "\<And>a. a \<in> set (head s # xs) \<Longrightarrow> a < length (heap s) \<and> bht (heap s) a = ht (heap s) a"
    and "1 \<le> current_level s" "current_level s \<le> max_level s" "ht (heap s) (head s) = max_level s"
    and "\<And>a. a \<in> set xs \<Longrightarrow> 1 \<le> ht (heap s) a \<and> ht (heap s) a \<le> current_level s"
    and "sorted (map (keyof (heap s)) xs)"
    and "\<And>l. l < max_level s \<Longrightarrow>
           linked (fwd (heap s) l) (bwd (heap s) l) (head s) (at_level (heap s) l xs)"
  using assms by (auto simp: sl_rep_def)

definition sl_entries :: "SkipList \<Rightarrow> nat list \<Rightarrow> entry list" where
  "sl_entries s xs = map (entry_at (heap s)) xs"

lemma sl_rep_new: "1 \<le> m \<Longrightarrow> sl_rep (SkipList_new m) []"
  by (auto simp: sl_rep_def SkipList_new_def make_node_def fwd_def)

text \<open>Level 0 holds every node.\<close>

lemma at_level_0: "sl_rep s xs \<Longrightarrow> at_level (heap s) 0 xs = xs"
  by (rule filter_True) (use sl_repD(6) in fastforce)

lemma sl_rep_level0:
  "sl_rep s xs \<Longrightarrow> linked (fwd (heap s) 0) (bwd (heap s) 0) (head s) xs"
  using sl_repD(3,4,8) [of s xs] at_level_0 [of s xs] by fastforce

subsection \<open>Searching\<close>

lemma advance_linked:
  assumes "linked (fwd h l) g a (xs @ ys)" "\<forall>x\<in>set (xs @ ys). x < length h"
    and "\<forall>x\<in>set xs. keyof h x < k" "ys \<noteq> [] \<Longrightarrow> \<not> keyof h (hd ys) < k"
  shows "advance h l k a = Some (last (a # xs))"
  using assms
proof (induction xs arbitrary: a)
  case Nil
  then show ?case by (cases ys) (auto simp: advance.simps [of h l k a])
next
  case (Cons b bs)
  then have "advance h l k b = Some (last (b # bs))" by auto
  with Cons.prems show ?case by (simp add: advance.simps [of h l k a])
qed

definition before :: "store \<Rightarrow> string \<Rightarrow> nat list \<Rightarrow> nat list" where
  "before h k xs = takeWhile (\<lambda>a. keyof h a < k) xs"

definition from_key :: "store \<Rightarrow> string \<Rightarrow> nat list \<Rightarrow> nat list" where
  "from_key h k xs = dropWhile (\<lambda>a. keyof h a < k) xs"

lemma before_from_key [simp]: "before h k xs @ from_key h k xs = xs"
  by (simp add: before_def from_key_def)

lemma before_less: "a \<in> set (before h k xs) \<Longrightarrow> keyof h a < k"
  by (auto simp: before_def dest: set_takeWhileD)

lemma before_subset: "a \<in> set (before h k xs) \<Longrightarrow> a \<in> set xs"
  by (auto simp: before_def dest: set_takeWhileD)

lemma from_key_subset: "a \<in> set (from_key h k xs) \<Longrightarrow> a \<in> set xs"
  by (auto simp: from_key_def dest: set_dropWhileD)

lemma from_key_ge: "sorted (map (keyof h) xs) \<Longrightarrow> a \<in> set (from_key h k xs) \<Longrightarrow> k \<le> keyof h a"
  unfolding from_key_def by (rule sorted_dropWhile_less)

text \<open>The predecessor the search finds on a level.\<close>

definition pred_at :: "SkipList \<Rightarrow> string \<Rightarrow> nat list \<Rightarrow> nat \<Rightarrow> nat" where
  "pred_at s k xs l = last (head s # at_level (heap s) l (before (heap s) k xs))"

lemma at_level_split:
  "at_level h l xs = at_level h l (before h k xs) @ at_level h l (from_key h k xs)"
  by (metis before_from_key filter_append)

lemma advance_rep:
  assumes rep: "sl_rep s xs" and l: "l < max_level s"
    and c: "c = head s \<or> c \<in> set (before (heap s) k xs) \<and> l < ht (heap s) c"
  shows "advance (heap s) l k c = Some (pred_at s k xs l)"
proof -
  let ?h = "heap s" and ?A = "at_level (heap s) l (before (heap s) k xs)"
    and ?B = "at_level (heap s) l (from_key (heap s) k xs)"
  have lnk: "linked (fwd ?h l) (bwd ?h l) (head s) (?A @ ?B)"
    using sl_repD(8) [OF rep l] at_level_split [where h = ?h and l = l and xs = xs and k = k] by simp
  have A: "\<forall>x\<in>set ?A. keyof ?h x < k \<and> x < length ?h"
    using sl_repD(2) [OF rep] before_less before_subset by fastforce
  have B: "\<forall>x\<in>set ?B. \<not> keyof ?h x < k \<and> x < length ?h"
    using sl_repD(2,7) [OF rep] from_key_ge from_key_subset by (fastforce simp: not_less)
  then have hdB: "?B \<noteq> [] \<Longrightarrow> \<not> keyof ?h (hd ?B) < k" using hd_in_set by blast
  show ?thesis
  proof (cases "c = head s")
    case True
    have "advance ?h l k (head s) = Some (last (head s # ?A))"
      by (rule advance_linked [OF lnk]) (use A B hdB in auto)
    with True show ?thesis by (simp only: pred_at_def)
  next
    case False
    with c have "c \<in> set ?A" by simp
    then obtain A1 A2 where A12: "?A = A1 @ c # A2" by (meson split_list)
    with lnk have "linked (fwd ?h l) (bwd ?h l) c (A2 @ ?B)" by (simp add: linked_append)
    moreover have "last (c # A2) = pred_at s k xs l"
      by (simp add: pred_at_def A12)
    moreover have "\<forall>x\<in>set A2. keyof ?h x < k \<and> x < length ?h" using A A12 by auto
    ultimately show ?thesis using advance_linked [of ?h l "bwd ?h l" c A2 ?B k] B hdB by auto
  qed
qed

lemma pred_at_cases:
  "pred_at s k xs l = head s \<or>
   pred_at s k xs l \<in> set (before (heap s) k xs) \<and> l < ht (heap s) (pred_at s k xs l)"
  unfolding pred_at_def using last_in_set_Cons [of "head s" "at_level (heap s) l (before (heap s) k xs)"]
  by auto

lemma find_update_rep:
  assumes rep: "sl_rep s xs" and "n \<le> max_level s"
    and "c = head s \<or> c \<in> set (before (heap s) k xs) \<and> n \<le> ht (heap s) c"
  shows "find_update (heap s) k n c = Some (map (pred_at s k xs) [0..<n])"
  using assms(2,3)
proof (induction n arbitrary: c)
  case (Suc n)
  have "advance (heap s) n k c = Some (pred_at s k xs n)"
    by (rule advance_rep [OF rep]) (use Suc.prems in auto)
  moreover have "find_update (heap s) k n (pred_at s k xs n) = Some (map (pred_at s k xs) [0..<n])"
    by (rule Suc.IH) (use Suc.prems pred_at_cases [of s k xs n] in auto)
  ultimately show ?case by simp
qed simp

lemma find_update_head:
  "sl_rep s xs \<Longrightarrow> n \<le> max_level s \<Longrightarrow>
   find_update (heap s) k n (head s) = Some (map (pred_at s k xs) [0..<n])"
  by (rule find_update_rep) auto

text \<open>The node after the predecessor on the lowest level.\<close>

lemma succ_pred0:
  assumes "sl_rep s xs"
  shows "fwd (heap s) 0 (pred_at s k xs 0) =
    Some (case from_key (heap s) k xs of [] \<Rightarrow> None | y # _ \<Rightarrow> Some y)"
proof -
  have all: "at_level (heap s) 0 (before (heap s) k xs) = before (heap s) k xs"
    by (rule filter_True) (use assms sl_repD(6) before_subset in fastforce)
  have "linked (fwd (heap s) 0) (bwd (heap s) 0) (head s) (before (heap s) k xs @ from_key (heap s) k xs)"
    using sl_rep_level0 [OF assms] by simp
  from linked_succ [OF this] show ?thesis by (simp only: pred_at_def all)
qed

subsection \<open>Linking and unlinking on all levels\<close>

lemma link_levels_append:
  "link_levels h n update (xs @ ys) =
   Option.bind (link_levels h n update xs) (\<lambda>h'. link_levels h' n update ys)"
  by (induction xs arbitrary: h) (auto split: bind_splits)

lemma unlink_levels_append:
  "unlink_levels h n update (xs @ ys) =
   Option.bind (unlink_levels h n update xs) (\<lambda>h'. unlink_levels h' n update ys)"
  by (induction xs arbitrary: h) (auto split: bind_splits)

text \<open>A level whose nodes are all allocated and tall enough.\<close>

definition seg_ok :: "store \<Rightarrow> nat \<Rightarrow> nat list \<Rightarrow> bool" where
  "seg_ok h l xs \<longleftrightarrow> distinct xs \<and> (\<forall>x\<in>set xs. x < length h \<and> l < ht h x \<and> l < bht h x)"

lemma seg_ok_shape: "shape h = shape h' \<Longrightarrow> seg_ok h l xs = seg_ok h' l xs"
  using shape_nth [of h h'] shape_length [of h h'] by (auto simp: seg_ok_def)

lemma seg_ok_in: "seg_ok h l xs \<Longrightarrow> x \<in> set xs \<Longrightarrow> x < length h \<and> l < ht h x \<and> l < bht h x"
  by (simp add: seg_ok_def)

lemma link_levels_ok:
  assumes "\<And>l. l < m \<Longrightarrow> l < length update \<and> update ! l = last (r # A l)"
    and "\<And>l. l < m \<Longrightarrow> seg_ok h (l::nat) (n # r # A l @ B l)"
    and "\<And>l. l < m \<Longrightarrow> linked (fwd h l) (bwd h l) r (A l @ B l)"
  shows "\<exists>h'. link_levels h n update [0..<m] = Some h' \<and> shape h' = shape h \<and>
    (\<forall>l<m. linked (fwd h' l) (bwd h' l) r (A l @ n # B l)) \<and>
    (\<forall>l\<ge>m. fwd h' l = fwd h l \<and> bwd h' l = bwd h l)"
  using assms
proof (induction m)
  case (Suc m)
  have "\<exists>h'. link_levels h n update [0..<m] = Some h' \<and> shape h' = shape h \<and>
    (\<forall>l<m. linked (fwd h' l) (bwd h' l) r (A l @ n # B l)) \<and>
    (\<forall>l\<ge>m. fwd h' l = fwd h l \<and> bwd h' l = bwd h l)"
    by (rule Suc.IH) (use Suc.prems in auto)
  then obtain h' where h': "link_levels h n update [0..<m] = Some h'" "shape h' = shape h"
    "\<forall>l<m. linked (fwd h' l) (bwd h' l) r (A l @ n # B l)"
    "\<forall>l\<ge>m. fwd h' l = fwd h l \<and> bwd h' l = bwd h l" by blast
  have seg: "seg_ok h' m (n # r # A m @ B m)"
    using Suc.prems(2) [of m] h'(2) by (simp add: seg_ok_shape [OF h'(2)])
  have lnk: "linked (fwd h' m) (bwd h' m) r (A m @ B m)" using Suc.prems(3) [of m] h'(4) by simp
  let ?u = "last (r # A m)"
  have u: "?u \<in> set (r # A m)" using last_in_set_Cons [of r "A m"] by auto
  have dst: "distinct (n # r # A m @ B m)" using seg by (simp add: seg_ok_def)
  have y: "y \<in> set (B m)" if "fwd h' m ?u = Some (Some y)" for y
    using linked_succ [OF lnk] that by (cases "B m") auto
  obtain h2 where h2: "link_level h' n update m = Some h2" "shape h2 = shape h'"
    "\<And>l'. l' \<noteq> m \<Longrightarrow> fwd h2 l' = fwd h' l'" "\<And>l'. l' \<noteq> m \<Longrightarrow> bwd h2 l' = bwd h' l'"
    "fwd h2 m n = fwd h' m ?u" "fwd h2 m ?u = Some (Some n)"
    "\<And>x. x \<noteq> n \<Longrightarrow> x \<noteq> ?u \<Longrightarrow> fwd h2 m x = fwd h' m x"
    "bwd h2 m n = Some (Some ?u)" "\<And>y. fwd h' m ?u = Some (Some y) \<Longrightarrow> bwd h2 m y = Some (Some n)"
    "\<And>x. x \<noteq> n \<Longrightarrow> fwd h' m ?u \<noteq> Some (Some x) \<Longrightarrow> bwd h2 m x = bwd h' m x"
  proof (rule link_level_ok [of m update ?u h' n])
    show "m < length update" "?u = update ! m" using Suc.prems(1) [of m] by auto
    show "?u < length h'" "m < ht h' ?u" using seg_ok_in [OF seg, of ?u] u by auto
    show "n < length h'" "m < ht h' n" "m < bht h' n" using seg_ok_in [OF seg, of n] by auto
    show "n \<noteq> ?u" using dst u by auto
    show "y < length h' \<and> m < bht h' y \<and> y \<noteq> n" if "fwd h' m ?u = Some (Some y)" for y
      using y [OF that] seg_ok_in [OF seg, of y] dst by auto
  qed blast
  have "linked (fwd h2 m) (bwd h2 m) r (A m @ n # B m)"
    by (rule linked_insert [OF lnk, where p = ?u]) (use dst h2 in auto)
  moreover have "linked (fwd h2 l) (bwd h2 l) r (A l @ n # B l)" if "l < m" for l
    using h2(3,4) [of l] h'(3) that by simp
  ultimately have "\<forall>l<Suc m. linked (fwd h2 l) (bwd h2 l) r (A l @ n # B l)"
    by (simp add: less_Suc_eq)
  moreover have "link_levels h n update [0..<Suc m] = Some h2"
    using h'(1) h2(1) by (simp add: link_levels_append)
  moreover have "\<forall>l\<ge>Suc m. fwd h2 l = fwd h l \<and> bwd h2 l = bwd h l" using h2(3,4) h'(4) by simp
  ultimately show ?case using h2(2) h'(2) by (intro exI [of _ h2]) simp
qed simp

lemma unlink_levels_ok:
  assumes "\<And>l. l < m \<Longrightarrow> l < length update \<and> update ! l = last (r # A l)"
    and "\<And>l. l < m \<Longrightarrow> seg_ok h (l::nat) (r # A l @ t # B l)"
    and "\<And>l. l < m \<Longrightarrow> linked (fwd h l) (bwd h l) r (A l @ t # B l)"
  shows "\<exists>h'. unlink_levels h t update [0..<m] = Some h' \<and> shape h' = shape h \<and>
    (\<forall>l<m. linked (fwd h' l) (bwd h' l) r (A l @ B l)) \<and>
    (\<forall>l\<ge>m. fwd h' l = fwd h l \<and> bwd h' l = bwd h l)"
  using assms
proof (induction m)
  case (Suc m)
  have "\<exists>h'. unlink_levels h t update [0..<m] = Some h' \<and> shape h' = shape h \<and>
    (\<forall>l<m. linked (fwd h' l) (bwd h' l) r (A l @ B l)) \<and>
    (\<forall>l\<ge>m. fwd h' l = fwd h l \<and> bwd h' l = bwd h l)"
    by (rule Suc.IH) (use Suc.prems in auto)
  then obtain h' where h': "unlink_levels h t update [0..<m] = Some h'" "shape h' = shape h"
    "\<forall>l<m. linked (fwd h' l) (bwd h' l) r (A l @ B l)"
    "\<forall>l\<ge>m. fwd h' l = fwd h l \<and> bwd h' l = bwd h l" by blast
  have seg: "seg_ok h' m (r # A m @ t # B m)"
    using Suc.prems(2) [of m] h'(2) by (simp add: seg_ok_shape [OF h'(2)])
  have lnk: "linked (fwd h' m) (bwd h' m) r (A m @ t # B m)" using Suc.prems(3) [of m] h'(4) by simp
  let ?u = "last (r # A m)"
  have u: "?u \<in> set (r # A m)" using last_in_set_Cons [of r "A m"] by auto
  have dst: "distinct (r # A m @ t # B m)" using seg by (simp add: seg_ok_def)
  have y: "y \<in> set (B m)" if "fwd h' m t = Some (Some y)" for y
    using linked_succ [of "fwd h' m" "bwd h' m" t "[]" "B m"] lnk that
    by (cases "B m") (auto simp: linked_append)
  obtain h2 where h2: "unlink_level h' t update m = Some h2" "shape h2 = shape h'"
    "\<And>l'. l' \<noteq> m \<Longrightarrow> fwd h2 l' = fwd h' l'" "\<And>l'. l' \<noteq> m \<Longrightarrow> bwd h2 l' = bwd h' l'"
    "fwd h2 m ?u = fwd h' m t" "\<And>x. x \<noteq> ?u \<Longrightarrow> fwd h2 m x = fwd h' m x"
    "\<And>y. fwd h' m t = Some (Some y) \<Longrightarrow> bwd h2 m y = Some (Some ?u)"
    "\<And>x. fwd h' m t \<noteq> Some (Some x) \<Longrightarrow> bwd h2 m x = bwd h' m x"
  proof (rule unlink_level_ok [of m update ?u h' t])
    show "m < length update" "?u = update ! m" using Suc.prems(1) [of m] by auto
    show "?u < length h'" "m < ht h' ?u" using seg_ok_in [OF seg, of ?u] u by auto
    show "t < length h'" "m < ht h' t" using seg_ok_in [OF seg, of t] by auto
    show "y < length h' \<and> m < bht h' y" if "fwd h' m t = Some (Some y)" for y
      using y [OF that] seg_ok_in [OF seg, of y] by auto
  qed blast
  have "linked (fwd h2 m) (bwd h2 m) r (A m @ B m)"
    by (rule linked_delete [OF lnk dst, where p = ?u]) (use h2 in auto)
  moreover have "linked (fwd h2 l) (bwd h2 l) r (A l @ B l)" if "l < m" for l
    using h2(3,4) [of l] h'(3) that by simp
  ultimately have "\<forall>l<Suc m. linked (fwd h2 l) (bwd h2 l) r (A l @ B l)"
    by (simp add: less_Suc_eq)
  moreover have "unlink_levels h t update [0..<Suc m] = Some h2"
    using h'(1) h2(1) by (simp add: unlink_levels_append)
  moreover have "\<forall>l\<ge>Suc m. fwd h2 l = fwd h l \<and> bwd h2 l = bwd h l" using h2(3,4) h'(4) by simp
  ultimately show ?case using h2(2) h'(2) by (intro exI [of _ h2]) simp
qed simp

subsection \<open>Specification on sorted entries\<close>

abbreviation ekey :: "entry \<Rightarrow> string" where
  "ekey \<equiv> fst"

definition vput :: "string \<Rightarrow> string \<Rightarrow> u64 \<Rightarrow> entry list \<Rightarrow> entry list" where
  "vput k v t es =
     takeWhile (\<lambda>e. ekey e < k) es @ (k, v, t) #
     (case dropWhile (\<lambda>e. ekey e < k) es of
        [] \<Rightarrow> []
      | e # rest \<Rightarrow> if ekey e = k \<and> snd (snd e) = t then rest else e # rest)"

definition vfind :: "string \<Rightarrow> u64 \<Rightarrow> entry list \<Rightarrow> entry option" where
  "vfind k t es =
     (case dropWhile (\<lambda>e. ekey e < k) es of
        [] \<Rightarrow> None
      | e # rest \<Rightarrow> if ekey e = k \<and> (t = 0 \<or> snd (snd e) \<le> t) then Some e else None)"

definition vremove :: "string \<Rightarrow> entry list \<Rightarrow> entry list" where
  "vremove k es =
     takeWhile (\<lambda>e. ekey e < k) es @
     (case dropWhile (\<lambda>e. ekey e < k) es of
        [] \<Rightarrow> []
      | e # rest \<Rightarrow> if ekey e = k then rest else e # rest)"

text \<open>The value an update overwrites, and the size the entries of a list account for.\<close>

definition vhit :: "string \<Rightarrow> u64 \<Rightarrow> entry list \<Rightarrow> string option" where
  "vhit k t es =
     (case dropWhile (\<lambda>e. ekey e < k) es of
        [] \<Rightarrow> None
      | e # rest \<Rightarrow> if ekey e = k \<and> snd (snd e) = t then Some (fst (snd e)) else None)"

definition entry_size :: "entry \<Rightarrow> u64" where
  "entry_size e = of_nat (length (fst e)) + of_nat (length (fst (snd e))) + 8"

definition vsize :: "entry list \<Rightarrow> u64" where
  "vsize es = sum_list (map entry_size es)"

text \<open>The simulation relation between a skip list and its entries.\<close>

definition sl_abs :: "SkipList \<Rightarrow> entry list \<Rightarrow> bool" where
  "sl_abs s es \<longleftrightarrow> (\<exists>xs. sl_rep s xs \<and> es = sl_entries s xs)"

lemma sl_abs_new: "1 \<le> m \<Longrightarrow> sl_abs (SkipList_new m) []"
  using sl_rep_new [of m] by (auto simp: sl_abs_def sl_entries_def)

lemma ekey_entry_at [simp]: "ekey (entry_at h a) = keyof h a"
  "snd (snd (entry_at h a)) = node_tranc_id (h ! a)"
  by (simp_all add: entry_at_def)

lemma sl_entries_split:
  "takeWhile (\<lambda>e. ekey e < k) (sl_entries s xs) = map (entry_at (heap s)) (before (heap s) k xs)"
  "dropWhile (\<lambda>e. ekey e < k) (sl_entries s xs) = map (entry_at (heap s)) (from_key (heap s) k xs)"
  by (simp_all add: sl_entries_def before_def from_key_def takeWhile_map dropWhile_map comp_def)

lemma sl_abs_sorted: "sl_abs s es \<Longrightarrow> sorted (map ekey es)"
  by (auto simp: sl_abs_def sl_entries_def comp_def dest: sl_repD(7))

subsection \<open>Level generation\<close>

lemma random_level_loop_bounds:
  "level \<le> random_level_loop m flips i level \<and> random_level_loop m flips i level \<le> max level m"
proof (induction m flips i level rule: random_level_loop.induct)
  case (1 m flips i level)
  then show ?case
    by (subst (1 2) random_level_loop.simps) (cases "flips i \<and> level < m"; fastforce)
qed

lemma random_level_bounds:
  assumes "1 \<le> m"
  shows "1 \<le> random_level m flips" "random_level m flips \<le> m"
  using random_level_loop_bounds [of 1 m flips 0] assms by (simp_all add: random_level_def)

lemma sl_rep_raise:
  assumes "sl_rep s xs" "n \<le> max_level s"
  shows "sl_rep (if current_level s < n then s\<lparr>current_level := n\<rparr> else s) xs"
  using assms by (fastforce simp: sl_rep_def)

subsection \<open>Insertion\<close>

lemma fwd_append_old: "a < length h \<Longrightarrow> fwd (h @ ns) l a = fwd h l a"
  "a < length h \<Longrightarrow> bwd (h @ ns) l a = bwd h l a"
  by (simp_all add: fwd_def bwd_def nth_append)

lemma at_level_cong:
  "(\<And>a. a \<in> set xs \<Longrightarrow> ht h a = ht h' a) \<Longrightarrow> at_level h l xs = at_level h' l xs"
  by (rule filter_cong) auto

lemma sl_rep_linked_split:
  assumes "sl_rep s xs" "l < max_level s"
  shows "linked (fwd (heap s) l) (bwd (heap s) l) (head s)
           (at_level (heap s) l (before (heap s) k xs) @ at_level (heap s) l (from_key (heap s) k xs))"
  using sl_repD(8) [OF assms] at_level_split [where h = "heap s" and l = l and xs = xs and k = k] by simp

lemma linked_append_heap:
  assumes "linked (fwd h l) (bwd h l) r xs" "\<And>x. x \<in> set (r # xs) \<Longrightarrow> x < length h"
  shows "linked (fwd (h @ ns) l) (bwd (h @ ns) l) r xs"
  using assms linked_cong [of r xs "fwd (h @ ns) l" "fwd h l" "bwd (h @ ns) l" "bwd h l"]
  by (auto simp: fwd_append_old)

lemma sl_rep_insert:
  fixes k v :: string and t z :: u64
  assumes rep: "sl_rep s xs" and n: "1 \<le> n" "n \<le> current_level s"
  defines "h0 \<equiv> heap s @ [make_node k v n t]" and "N \<equiv> length (heap s)"
    and "bs \<equiv> before (heap s) k xs" and "fs \<equiv> from_key (heap s) k xs"
  shows "\<exists>h'. link_levels h0 N (map (pred_at s k xs) [0..<current_level s]) [0..<n] = Some h' \<and>
           shape h' = shape h0 \<and> sl_rep (s\<lparr>heap := h', size_bytes := z\<rparr>) (bs @ N # fs)"
proof -
  note R = sl_repD [OF rep]
  define A where "A l = at_level (heap s) l bs" for l
  define B where "B l = at_level (heap s) l fs" for l
  have xs: "xs = bs @ fs" by (simp add: bs_def fs_def)
  have old: "x < N \<and> h0 ! x = heap s ! x" if "x \<in> set (head s # xs)" for x
    using R(2) [OF that] by (simp add: h0_def N_def nth_append)
  have oldA: "x \<in> set (head s # xs)" if "x \<in> set (head s # A l @ B l)" for x l
    using that by (auto simp: A_def B_def xs)
  have tall: "l < ht (heap s) x" if "x \<in> set (head s # A l @ B l)" "l < max_level s" for x l
    using that R(5) by (auto simp: A_def B_def)
  have new: "N < length h0" "ht h0 N = n" "bht h0 N = n" "keyof h0 N = k"
    by (simp_all add: h0_def N_def make_node_def)
  have lnk: "linked (fwd h0 l) (bwd h0 l) (head s) (A l @ B l)" if "l < max_level s" for l
    unfolding h0_def
  proof (rule linked_append_heap)
    show "linked (fwd (heap s) l) (bwd (heap s) l) (head s) (A l @ B l)"
      using sl_rep_linked_split [OF rep that, of k] by (simp add: A_def B_def bs_def fs_def)
  qed (use oldA old N_def in blast)
  have seg: "seg_ok h0 l (N # head s # A l @ B l)" if "l < n" for l
  proof -
    have lm: "l < max_level s" using that n(2) R(4) by simp
    have "distinct (head s # A l @ B l)" using R(1) by (auto simp: A_def B_def xs)
    moreover have "N \<notin> set (head s # A l @ B l)" using old oldA by blast
    moreover have "x < length h0 \<and> l < ht h0 x \<and> l < bht h0 x" if "x \<in> set (head s # A l @ B l)" for x
      using old [OF oldA [OF that]] R(2) [OF oldA [OF that]] tall [OF that lm] new(1) by simp
    ultimately show ?thesis using new that by (simp add: seg_ok_def)
  qed
  have "\<exists>h'. link_levels h0 N (map (pred_at s k xs) [0..<current_level s]) [0..<n] = Some h' \<and>
    shape h' = shape h0 \<and> (\<forall>l<n. linked (fwd h' l) (bwd h' l) (head s) (A l @ N # B l)) \<and>
    (\<forall>l\<ge>n. fwd h' l = fwd h0 l \<and> bwd h' l = bwd h0 l)"
    by (rule link_levels_ok) (use n R(4) seg lnk in \<open>auto simp: pred_at_def A_def bs_def\<close>)
  then obtain h' where h': "link_levels h0 N (map (pred_at s k xs) [0..<current_level s]) [0..<n] = Some h'"
    "shape h' = shape h0" "\<forall>l<n. linked (fwd h' l) (bwd h' l) (head s) (A l @ N # B l)"
    "\<forall>l\<ge>n. fwd h' l = fwd h0 l \<and> bwd h' l = bwd h0 l" by blast
  note S = shape_nth [OF h'(2)] shape_length [OF h'(2)]
  have same: "x < length h' \<and> keyof h' x = keyof (heap s) x \<and> ht h' x = ht (heap s) x
      \<and> bht h' x = ht (heap s) x" if "x \<in> set (head s # xs)" for x
    using old [OF that] R(2) [OF that] S(1,2,3) [of x] S(5) new(1) by simp
  have newN: "N < length h'" "ht h' N = n" "bht h' N = n" "keyof h' N = k"
    using S(1,2,3) [of N] S(5) new by simp_all
  have lev: "at_level h' l (bs @ N # fs) = (if l < n then A l @ N # B l else A l @ B l)" for l
  proof -
    have "at_level h' l bs = A l" "at_level h' l fs = B l"
      unfolding A_def B_def by (rule at_level_cong; use same xs in auto)+
    with newN show ?thesis by simp
  qed
  have "N \<notin> set (head s # xs)" using old by blast
  then have d: "distinct (head s # bs @ N # fs)" using R(1) xs by auto
  have "map (keyof h') (bs @ N # fs) = map (keyof (heap s)) bs @ k # map (keyof (heap s)) fs"
    using same xs newN by simp
  moreover have "\<forall>x\<in>set bs. keyof (heap s) x < k" "\<forall>x\<in>set fs. k \<le> keyof (heap s) x"
    using before_less from_key_ge [OF R(7)] by (auto simp: bs_def fs_def)
  ultimately have so: "sorted (map (keyof h') (bs @ N # fs))"
    using R(7) by (simp only:) (auto simp: xs sorted_append intro: less_imp_le)
  have "sl_rep (s\<lparr>heap := h', size_bytes := z\<rparr>) (bs @ N # fs)"
    unfolding sl_rep_def using d so lev h'(3,4) lnk R(3-6) same newN n xs
    by (auto simp: not_less)
  with h' show ?thesis by blast
qed

lemma value_update_frame:
  fixes v :: string
  assumes "n < length h"
  defines "h' \<equiv> h[n := (h ! n)\<lparr>node_value := v\<rparr>]"
  shows "length h' = length h" "fwd h' = fwd h" "bwd h' = bwd h"
    "keyof h' a = keyof h a" "ht h' a = ht h a" "bht h' a = bht h a"
    "a \<noteq> n \<Longrightarrow> entry_at h' a = entry_at h a"
    "entry_at h' n = (keyof h n, v, node_tranc_id (h ! n))"
  using assms(1)
  by (auto simp: h'_def fwd_def bwd_def fun_eq_iff entry_at_def nth_list_update)

lemma map_entry_update:
  "n < length h \<Longrightarrow> n \<notin> set zs \<Longrightarrow>
   map (entry_at (h[n := (h ! n)\<lparr>node_value := v\<rparr>])) zs = map (entry_at h) zs"
  by (rule map_cong) (auto intro!: value_update_frame(7))

lemma sl_rep_update:
  assumes "sl_rep s xs" "n < length (heap s)"
  shows "sl_rep (s\<lparr>heap := (heap s)[n := (heap s ! n)\<lparr>node_value := v\<rparr>], size_bytes := z\<rparr>) xs"
  using assms(1) by (simp add: sl_rep_def value_update_frame [OF assms(2)] cong: filter_cong)

lemma from_key_hd:
  assumes "sl_rep s xs" "from_key (heap s) k xs = n # rest"
  shows "n < length (heap s)" "n \<notin> set (before (heap s) k xs)" "n \<notin> set rest" "n \<in> set xs"
proof -
  have xs: "xs = before (heap s) k xs @ n # rest" using before_from_key [of "heap s" k xs] assms(2) by simp
  have "distinct xs" using sl_repD(1) [OF assms(1)] by simp
  then have "distinct (before (heap s) k xs @ n # rest)" using xs by simp
  then show "n \<notin> set (before (heap s) k xs)" "n \<notin> set rest" by auto
  show "n \<in> set xs" using from_key_subset [of n "heap s" k xs] assms(2) by simp
  then show "n < length (heap s)" using sl_repD(2) [OF assms(1)] by simp
qed

lemma insert_entries:
  assumes rep: "sl_rep s xs" and sh: "shape h' = shape (heap s @ [make_node k v n t])"
  shows "map (entry_at h') (before (heap s) k xs @ length (heap s) # from_key (heap s) k xs) =
    map (entry_at (heap s)) (before (heap s) k xs) @ (k, v, t) #
    map (entry_at (heap s)) (from_key (heap s) k xs)"
proof -
  note S = shape_nth(4) [OF sh] shape_length [OF sh]
  have old: "entry_at h' a = entry_at (heap s) a" if "a \<in> set xs" for a
    using sl_repD(2) [OF rep, of a] that S(1) [of a] S(2) by (simp add: entry_at_def nth_append)
  have "map (entry_at h') (before (heap s) k xs) = map (entry_at (heap s)) (before (heap s) k xs)"
    "map (entry_at h') (from_key (heap s) k xs) = map (entry_at (heap s)) (from_key (heap s) k xs)"
    using old before_subset from_key_subset by (meson map_cong)+
  moreover have "entry_at h' (length (heap s)) = (k, v, t)"
    using S(1) [of "length (heap s)"] S(2) by (simp add: entry_at_def make_node_def)
  ultimately show ?thesis by simp
qed

lemma put_abs:
  assumes abs: "sl_abs s es"
  shows "\<exists>s'. SkipList_put s flips k v t = Some s' \<and> sl_abs s' (vput k v t es) \<and>
    size_bytes s' = (case vhit k t es of
        Some v' \<Rightarrow> size_bytes s - of_nat (length v')
      | None \<Rightarrow> size_bytes s + entry_size (k, v, t))"
proof -
  obtain xs where rep0: "sl_rep s xs" and es: "es = sl_entries s xs"
    using abs by (auto simp: sl_abs_def)
  let ?n = "random_level (max_level s) flips"
  define s1 where "s1 = (if current_level s < ?n then s\<lparr>current_level := ?n\<rparr> else s)"
  have n: "1 \<le> ?n" "?n \<le> max_level s"
    using random_level_bounds [of "max_level s"] sl_repD(3,4) [OF rep0] by auto
  have rep: "sl_rep s1 xs" unfolding s1_def by (rule sl_rep_raise [OF rep0 n(2)])
  have heap1: "heap s1 = heap s" "?n \<le> current_level s1" by (auto simp: s1_def)
  note R = sl_repD [OF rep]
  let ?u = "map (pred_at s1 k xs) [0..<current_level s1]"
  have fu: "find_update (heap s1) k (current_level s1) (head s1) = Some ?u"
    by (rule find_update_head [OF rep R(4)])
  have u0: "nth_opt ?u 0 = Some (pred_at s1 k xs 0)" using R(3) by simp
  note succ = succ_pred0 [OF rep, of k]
  note put = SkipList_put_def Let_def s1_def [symmetric]
  have entries: "es = sl_entries s1 xs" by (simp add: es sl_entries_def heap1)
  have sz: "size_bytes s1 = size_bytes s" by (simp add: s1_def)
  have ins: ?thesis
    if nohit: "\<And>y ys. from_key (heap s1) k xs = y # ys \<Longrightarrow>
         \<not> (keyof (heap s1) y = k \<and> node_tranc_id (heap s1 ! y) = t)"
  proof -
    let ?z = "size_bytes s1 + (of_nat (length k) + of_nat (length v) + 8)"
    obtain h' where h': "link_levels (heap s1 @ [make_node k v ?n t]) (length (heap s1)) ?u [0..<?n] = Some h'"
      "shape h' = shape (heap s1 @ [make_node k v ?n t])"
      "sl_rep (s1\<lparr>heap := h', size_bytes := ?z\<rparr>)
         (before (heap s1) k xs @ length (heap s1) # from_key (heap s1) k xs)"
      using sl_rep_insert [OF rep n(1) heap1(2), of k v t ?z] by blast
    have "SkipList_put s flips k v t = Some (s1\<lparr>heap := h', size_bytes := ?z\<rparr>)"
      unfolding put using h'(1) nohit from_key_hd(1) [OF rep, of k]
      by (auto simp: fu u0 succ split: list.splits)
    moreover have "vput k v t es =
        map (entry_at (heap s1)) (before (heap s1) k xs) @ (k, v, t) #
        map (entry_at (heap s1)) (from_key (heap s1) k xs)"
      using nohit
      by (cases "from_key (heap s1) k xs") (simp_all add: vput_def entries sl_entries_split entry_at_def)
    then have "vput k v t es = sl_entries (s1\<lparr>heap := h', size_bytes := ?z\<rparr>)
         (before (heap s1) k xs @ length (heap s1) # from_key (heap s1) k xs)"
      using insert_entries [OF rep h'(2)] by (simp add: sl_entries_def)
    moreover have "vhit k t es = None"
      using nohit by (cases "from_key (heap s1) k xs") (simp_all add: vhit_def entries sl_entries_split)
    ultimately show ?thesis using h'(3) sz unfolding sl_abs_def by (auto simp: entry_size_def)
  qed
  show ?thesis
  proof (cases "from_key (heap s1) k xs")
    case Nil
    then show ?thesis by (intro ins) simp
  next
    case (Cons y ys)
    show ?thesis
    proof (cases "keyof (heap s1) y = k \<and> node_tranc_id (heap s1 ! y) = t")
      case True
      note Y = from_key_hd [OF rep Cons]
      let ?s' = "s1\<lparr>heap := (heap s1)[y := (heap s1 ! y)\<lparr>node_value := v\<rparr>],
                   size_bytes := size_bytes s1 - of_nat (length (node_value (heap s1 ! y)))\<rparr>"
      have "SkipList_put s flips k v t = Some ?s'"
        unfolding put using True Y(1) Cons by (simp add: fu u0 succ)
      moreover have "sl_rep ?s' xs" by (rule sl_rep_update [OF rep Y(1)])
      moreover have "vput k v t es = sl_entries ?s' (before (heap s1) k xs @ from_key (heap s1) k xs)"
        using True Cons value_update_frame(8) [OF Y(1), where v = v]
          map_entry_update [OF Y(1,2), where v = v] map_entry_update [OF Y(1,3), where v = v]
        by (simp add: vput_def entries sl_entries_split) (simp add: sl_entries_def)
      moreover have "vhit k t es = Some (node_value (heap s1 ! y))"
        using True Cons by (simp add: vhit_def entries sl_entries_split entry_at_def)
      ultimately show ?thesis unfolding sl_abs_def using sz by (intro exI [of _ ?s']) auto
    qed (use ins Cons in auto)
  qed
qed

subsection \<open>Lookup, removal, traversal\<close>

lemma get_abs:
  assumes "sl_abs s es"
  shows "\<exists>it. SkipList_get s k t = Some it \<and>
    (case vfind k t es of
       None \<Rightarrow> it = None
     | Some (k', v, t') \<Rightarrow> SkipListIterator_get_key (heap s) it = Some k' \<and>
         SkipListIterator_get_value (heap s) it = Some v \<and>
         SkipListIterator_get_tranc_id (heap s) it = Some t')"
proof -
  obtain xs where rep: "sl_rep s xs" and es: "es = sl_entries s xs"
    using assms by (auto simp: sl_abs_def)
  note R = sl_repD [OF rep]
  let ?u = "map (pred_at s k xs) [0..<current_level s]"
  have fu: "find_update (heap s) k (current_level s) (head s) = Some ?u"
    by (rule find_update_head [OF rep R(4)])
  have ne: "?u \<noteq> []" and hdu: "hd ?u = pred_at s k xs 0" using R(3) by (auto simp: hd_map)
  show ?thesis
  proof (cases "from_key (heap s) k xs")
    case Nil
    then show ?thesis using ne hdu
      by (simp add: SkipList_get_def fu succ_pred0 [OF rep] vfind_def es sl_entries_split)
  next
    case (Cons y ys)
    then show ?thesis using ne hdu from_key_hd(1) [OF rep Cons]
      by (simp add: SkipList_get_def fu succ_pred0 [OF rep] vfind_def es sl_entries_split
          SkipListIterator_get_key_def SkipListIterator_get_value_def SkipListIterator_get_tranc_id_def
          entry_at_def)
  qed
qed

lemma sl_rep_delete:
  fixes z :: u64
  assumes rep: "sl_rep s xs" and fk: "from_key (heap s) k xs = y # ys"
  shows "\<exists>h'. unlink_levels (heap s) y (map (pred_at s k xs) [0..<current_level s]) [0..<ht (heap s) y]
             = Some h' \<and> shape h' = shape (heap s) \<and>
           sl_rep (s\<lparr>heap := h', size_bytes := z\<rparr>) (before (heap s) k xs @ ys)"
proof -
  note R = sl_repD [OF rep] and Y = from_key_hd [OF rep fk]
  let ?bs = "before (heap s) k xs"
  define A where "A l = at_level (heap s) l ?bs" for l
  define B where "B l = at_level (heap s) l ys" for l
  have xs: "xs = ?bs @ y # ys" using before_from_key [of "heap s" k xs] fk by simp
  have lnk: "linked (fwd (heap s) l) (bwd (heap s) l) (head s) (A l @ (if l < ht (heap s) y then y # B l else B l))"
    if "l < max_level s" for l
    using sl_rep_linked_split [OF rep that, of k] by (simp add: A_def B_def fk split: if_splits)
  have hy: "ht (heap s) y \<le> current_level s" using R(6) Y(4) by simp
  have lnky: "linked (fwd (heap s) l) (bwd (heap s) l) (head s) (A l @ y # B l)" if "l < ht (heap s) y" for l
    using lnk [of l] that hy R(4) by simp
  have dxs: "distinct (head s # ?bs @ y # ys)" using R(1) xs by simp
  have inA: "x \<in> set (head s # xs)" if "x \<in> set (head s # A l @ y # B l)" for x l
    using that Y(4) by (subst xs) (auto simp: A_def B_def)
  have seg: "seg_ok (heap s) l (head s # A l @ y # B l)" if "l < ht (heap s) y" for l
  proof -
    have "distinct (head s # A l @ y # B l)" using dxs by (auto simp: A_def B_def)
    moreover have "l < ht (heap s) x" if "x \<in> set (head s # A l @ y # B l)" for x
      using that \<open>l < ht (heap s) y\<close> hy R(4,5) by (auto simp: A_def B_def)
    ultimately show ?thesis using R(2) [OF inA] by (auto simp: seg_ok_def)
  qed
  have "\<exists>h'. unlink_levels (heap s) y (map (pred_at s k xs) [0..<current_level s]) [0..<ht (heap s) y] = Some h' \<and>
    shape h' = shape (heap s) \<and>
    (\<forall>l<ht (heap s) y. linked (fwd h' l) (bwd h' l) (head s) (A l @ B l)) \<and>
    (\<forall>l\<ge>ht (heap s) y. fwd h' l = fwd (heap s) l \<and> bwd h' l = bwd (heap s) l)"
    by (rule unlink_levels_ok) (use hy R(4) seg lnky in \<open>auto simp: pred_at_def A_def\<close>)
  then obtain h' where h': "unlink_levels (heap s) y (map (pred_at s k xs) [0..<current_level s]) [0..<ht (heap s) y] = Some h'"
    "shape h' = shape (heap s)" "\<forall>l<ht (heap s) y. linked (fwd h' l) (bwd h' l) (head s) (A l @ B l)"
    "\<forall>l\<ge>ht (heap s) y. fwd h' l = fwd (heap s) l \<and> bwd h' l = bwd (heap s) l" by blast
  note S = shape_nth [OF h'(2)] shape_length [OF h'(2)]
  have same: "x < length h' \<and> keyof h' x = keyof (heap s) x \<and> ht h' x = ht (heap s) x
      \<and> bht h' x = ht (heap s) x" if "x \<in> set (head s # ?bs @ ys)" for x
  proof -
    have "x \<in> set (head s # xs)" using that by (subst xs) auto
    then show ?thesis using R(2) [of x] S(1,2,3) [of x] S(5) by simp
  qed
  have lev: "at_level h' l (?bs @ ys) = A l @ B l" for l
  proof -
    have "at_level h' l ?bs = A l" "at_level h' l ys = B l"
      unfolding A_def B_def by (rule at_level_cong; use same in auto)+
    then show ?thesis by simp
  qed
  have lnk': "linked (fwd h' l) (bwd h' l) (head s) (A l @ B l)" if "l < max_level s" for l
    using h'(3,4) lnk [OF that] by (cases "l < ht (heap s) y") (auto simp: not_less)
  have "map (keyof h') (?bs @ ys) = map (keyof (heap s)) (?bs @ ys)" using same by simp
  moreover have "sorted (map (keyof (heap s)) (?bs @ y # ys))" using R(7) xs by simp
  ultimately have so: "sorted (map (keyof h') (?bs @ ys))"
    by (simp only:) (auto simp: sorted_append)
  have mem: "a \<in> set xs" if "a \<in> set (?bs @ ys)" for a using that by (subst xs) auto
  have "sl_rep (s\<lparr>heap := h', size_bytes := z\<rparr>) (?bs @ ys)"
    unfolding sl_rep_def using dxs so lev lnk' R(3-6) same mem by auto
  with h' show ?thesis by blast
qed

lemma remove_abs:
  assumes "sl_abs s es"
  shows "\<exists>s'. SkipList_remove s k = Some s' \<and> sl_abs s' (vremove k es) \<and>
    size_bytes s' - vsize (vremove k es) = size_bytes s - vsize es"
proof -
  obtain xs where rep: "sl_rep s xs" and es: "es = sl_entries s xs"
    using assms by (auto simp: sl_abs_def)
  note R = sl_repD [OF rep]
  let ?u = "map (pred_at s k xs) [0..<current_level s]"
  have fu: "find_update (heap s) k (current_level s) (head s) = Some ?u"
    by (rule find_update_head [OF rep R(4)])
  have u0: "nth_opt ?u 0 = Some (pred_at s k xs 0)" using R(3) by simp
  note rem = SkipList_remove_def fu u0 succ_pred0 [OF rep, of k]
  note split = sl_entries_split [of k s xs]
  have keep: ?thesis if "SkipList_remove s k = Some s" "vremove k es = es"
    using that assms by simp
  show ?thesis
  proof (cases "from_key (heap s) k xs")
    case Nil
    have "vremove k es = es"
      using Nil before_from_key [of "heap s" k xs] by (simp add: vremove_def es split) (simp add: sl_entries_def)
    with Nil show ?thesis by (intro keep) (simp_all add: rem)
  next
    case (Cons y ys)
    note Y = from_key_hd [OF rep Cons]
    have xs: "xs = before (heap s) k xs @ y # ys" using before_from_key [of "heap s" k xs] Cons by simp
    show ?thesis
    proof (cases "keyof (heap s) y = k")
      case False
      have "vremove k es = map (entry_at (heap s)) (before (heap s) k xs @ y # ys)"
        using False Cons by (simp add: vremove_def es split)
      with False Cons Y(1) show ?thesis
        by (intro keep) (simp_all add: rem es sl_entries_def flip: xs)
    next
      case True
      let ?z = "size_bytes s - (of_nat (length (keyof (heap s) y)) + of_nat (length (node_value (heap s ! y))) + 8)"
      obtain h' where h': "unlink_levels (heap s) y ?u [0..<ht (heap s) y] = Some h'"
        "shape h' = shape (heap s)" "sl_rep (s\<lparr>heap := h', size_bytes := ?z\<rparr>) (before (heap s) k xs @ ys)"
        using sl_rep_delete [OF rep Cons, of ?z] by blast
      have "SkipList_remove s k = Some (s\<lparr>heap := h', size_bytes := ?z\<rparr>)"
        using True Cons Y(1) h'(1) by (simp add: rem)
      moreover have "map (entry_at h') (before (heap s) k xs @ ys) = map (entry_at (heap s)) (before (heap s) k xs @ ys)"
      proof (rule map_cong [OF refl])
        fix a assume "a \<in> set (before (heap s) k xs @ ys)"
        then have "a \<in> set xs" by (subst xs) auto
        then show "entry_at h' a = entry_at (heap s) a"
          using R(2) [of a] shape_nth(4) [OF h'(2), of a] shape_length [OF h'(2)] by simp
      qed
      then have "vremove k es = sl_entries (s\<lparr>heap := h', size_bytes := ?z\<rparr>) (before (heap s) k xs @ ys)"
        using True Cons by (simp add: vremove_def es split) (simp add: sl_entries_def)
      moreover have "vsize es = entry_size (entry_at (heap s) y) + vsize (vremove k es)"
      proof -
        have "vsize es = vsize (map (entry_at (heap s)) (before (heap s) k xs @ y # ys))"
          by (simp add: es sl_entries_def flip: xs)
        then show ?thesis using True Cons by (simp add: vremove_def es split vsize_def)
      qed
      ultimately show ?thesis using h'(3) unfolding sl_abs_def
        by (auto simp: entry_size_def entry_at_def)
    qed
  qed
qed

lemma flush_loop_linked:
  assumes "linked (fwd h 0) g a xs" "\<forall>x\<in>set xs. x < length h"
  shows "Option.bind (fwd h 0 a) (\<lambda>first. flush_loop h first acc) = Some (acc @ map (entry_at h) xs)"
  using assms
proof (induction xs arbitrary: a acc)
  case Nil
  then show ?case by (simp add: flush_loop.simps [of h None])
next
  case (Cons b bs)
  have "Option.bind (fwd h 0 b) (\<lambda>first. flush_loop h first (acc @ [entry_at h b]))
      = Some ((acc @ [entry_at h b]) @ map (entry_at h) bs)"
    by (rule Cons.IH) (use Cons.prems in auto)
  then show ?case using Cons.prems
    by (cases "fwd h 0 b") (auto simp: flush_loop.simps [of h "Some b"] entry_at_def simp del: fwd_None_iff)
qed

lemma flush_abs:
  assumes "sl_abs s es"
  shows "SkipList_flush s = Some es"
proof -
  obtain xs where rep: "sl_rep s xs" and es: "es = sl_entries s xs"
    using assms by (auto simp: sl_abs_def)
  show ?thesis
    using flush_loop_linked [OF sl_rep_level0 [OF rep], of "[]"] sl_repD(2) [OF rep]
    by (simp add: SkipList_flush_def es sl_entries_def)
qed

lemma clear_abs:
  assumes "sl_abs s es"
  shows "sl_abs (SkipList_clear s) [] \<and> size_bytes (SkipList_clear s) = 0"
proof -
  obtain xs where rep: "sl_rep s xs" using assms by (auto simp: sl_abs_def)
  have "sl_rep (SkipList_clear s) []"
    using sl_repD(3,4) [OF rep] by (auto simp: sl_rep_def SkipList_clear_def make_node_def fwd_def)
  then show ?thesis by (auto simp: sl_abs_def sl_entries_def SkipList_clear_def)
qed

subsection \<open>Laws of the specification\<close>

lemma dropWhile_takeWhile_less:
  "dropWhile (\<lambda>e. ekey e < k) (takeWhile (\<lambda>e. ekey e < k) es @ (k, v, t) # r) = (k, v, t) # r"
  by (induction es) auto

lemma vfind_vput_same: "t' = 0 \<or> t \<le> t' \<Longrightarrow> vfind k t' (vput k v t es) = Some (k, v, t)"
  by (auto simp: vfind_def vput_def dropWhile_takeWhile_less)

text \<open>Only the entries of a key matter to a lookup of it.\<close>

lemma vfind_filter:
  assumes "sorted (map ekey es)"
  shows "vfind k t es = (case filter (\<lambda>e. ekey e = k) es of
     [] \<Rightarrow> None | e # _ \<Rightarrow> if t = 0 \<or> snd (snd e) \<le> t then Some e else None)"
  using assms
proof (induction es)
  case (Cons e es)
  have "filter (\<lambda>e. ekey e = k) es = []" if "k < ekey e"
    using Cons.prems that by (auto simp: filter_empty_conv)
  with Cons show ?case by (cases "ekey e < k") (auto simp: vfind_def not_less)
qed (simp add: vfind_def)

lemma vput_split:
  obtains A B C where "es = A @ B" "vput k v t es = A @ (k, v, t) # C" "\<And>e. e \<in> set A \<Longrightarrow> ekey e < k"
    "B = C \<or> (\<exists>v'. B = (k, v', t) # C)" "sorted (map ekey es) \<Longrightarrow> \<forall>e\<in>set B. k \<le> ekey e"
proof (rule that [of "takeWhile (\<lambda>e. ekey e < k) es" "dropWhile (\<lambda>e. ekey e < k) es"
    "case dropWhile (\<lambda>e. ekey e < k) es of
        [] \<Rightarrow> []
      | e # rest \<Rightarrow> if ekey e = k \<and> snd (snd e) = t then rest else e # rest"])
  show "\<forall>e\<in>set (dropWhile (\<lambda>e. ekey e < k) es). k \<le> ekey e" if "sorted (map ekey es)"
    using sorted_dropWhile_less [OF that] by blast
qed (auto simp: vput_def dest: set_takeWhileD split: list.splits)

lemma vput_keys_other: "k' \<noteq> k \<Longrightarrow> filter (\<lambda>e. ekey e = k') (vput k v t es) = filter (\<lambda>e. ekey e = k') es"
  by (rule vput_split [of es k v t]) auto

lemma vput_sorted:
  assumes "sorted (map ekey es)"
  shows "sorted (map ekey (vput k v t es))"
proof (rule vput_split [of es k v t])
  fix A B C assume *: "es = A @ B" "vput k v t es = A @ (k, v, t) # C" "\<And>e. e \<in> set A \<Longrightarrow> ekey e < k"
    "B = C \<or> (\<exists>v'. B = (k, v', t) # C)" "sorted (map ekey es) \<Longrightarrow> \<forall>e\<in>set B. k \<le> ekey e"
  have "set C \<subseteq> set B" "sorted (map ekey C)" using *(1,4) assms by (auto simp: sorted_append)
  moreover have "\<forall>e\<in>set A. ekey e \<le> k" using *(3) less_imp_le by blast
  moreover have "sorted (map ekey A)" "\<forall>e\<in>set B. k \<le> ekey e"
    using *(1,5) assms by (auto simp: sorted_append)
  ultimately show ?thesis by (fastforce simp: *(2) sorted_append)
qed

lemma vfind_vput_other:
  "sorted (map ekey es) \<Longrightarrow> k' \<noteq> k \<Longrightarrow> vfind k' t' (vput k v t es) = vfind k' t' es"
  by (simp add: vfind_filter vput_sorted vput_keys_other)

lemma vsize_simps [simp]:
  "vsize [] = 0" "vsize (e # es) = entry_size e + vsize es" "vsize (xs @ ys) = vsize xs + vsize ys"
  by (simp_all add: vsize_def)

lemma vsize_vput:
  "vsize (vput k v t es) = vsize es + (case vhit k t es of None \<Rightarrow> entry_size (k, v, t)
     | Some v' \<Rightarrow> of_nat (length v) - of_nat (length v'))"
proof -
  let ?A = "takeWhile (\<lambda>e. ekey e < k) es"
  have "vsize es = vsize (?A @ dropWhile (\<lambda>e. ekey e < k) es)" by simp
  then have es: "vsize es = vsize ?A + vsize (dropWhile (\<lambda>e. ekey e < k) es)" by (simp only: vsize_simps)
  show ?thesis
  proof (cases "dropWhile (\<lambda>e. ekey e < k) es")
    case Nil
    then show ?thesis using es by (simp add: vput_def vhit_def del: dropWhile_eq_Nil_conv)
  next
    case (Cons e rest)
    then show ?thesis using es
      by (cases e) (simp add: vput_def vhit_def, simp add: entry_size_def)
  qed
qed

subsection \<open>Reachable lists\<close>

inductive sl_reachable :: "nat \<Rightarrow> SkipList \<Rightarrow> bool" for m :: nat where
  new: "sl_reachable m (SkipList_new m)"
| put: "sl_reachable m s \<Longrightarrow> SkipList_put s flips k v t = Some s' \<Longrightarrow> sl_reachable m s'"
| remove: "sl_reachable m s \<Longrightarrow> SkipList_remove s k = Some s' \<Longrightarrow> sl_reachable m s'"
| clear: "sl_reachable m s \<Longrightarrow> sl_reachable m (SkipList_clear s)"

inductive_cases sl_reachableE: "sl_reachable m s"

lemma sl_reachable_abs:
  assumes "sl_reachable m s" "1 \<le> m"
  shows "\<exists>es. sl_abs s es"
  using assms(1)
proof induction
  case new
  then show ?case using sl_abs_new [OF assms(2)] by blast
next
  case (put s flips k v t s')
  then show ?case using put_abs [of s _ flips k v t] by auto
next
  case (remove s k s')
  then show ?case using remove_abs [of s _ k] by auto
next
  case (clear s)
  then show ?case using clear_abs by blast
qed

lemma sl_reachable_flush:
  assumes "sl_reachable m s" "1 \<le> m" "SkipList_flush s = Some es"
  shows "sl_abs s es"
  using sl_reachable_abs [OF assms(1,2)] assms(3) flush_abs by fastforce

subsection \<open>Properties\<close>

text \<open>
  C9: every list reachable from the empty one by insertions, removals and clearing is
  memory safe: no operation dereferences a null pointer or indexes a level a node does not
  have, and every search loop ends. A flush returns the entries sorted by key.
\<close>

theorem skiplist_memory_safe:
  assumes "sl_reachable m s" "1 \<le> m"
  shows "(\<exists>s'. SkipList_put s flips k v t = Some s') \<and> (\<exists>it. SkipList_get s k t = Some it) \<and>
    (\<exists>s'. SkipList_remove s k = Some s') \<and>
    (\<exists>es. SkipList_flush s = Some es \<and> sorted (map fst es))"
proof -
  obtain es where abs: "sl_abs s es" using sl_reachable_abs [OF assms] by blast
  show ?thesis
    using put_abs [OF abs] get_abs [OF abs] remove_abs [OF abs] flush_abs [OF abs] sl_abs_sorted [OF abs]
    by fast
qed

lemma skiplist_memory_safe_witness:
  "\<exists>es. SkipList_flush (SkipList_clear (SkipList_new 4)) = Some es \<and> sorted (map fst es)"
  using skiplist_memory_safe [OF sl_reachable.clear [OF sl_reachable.new], of 4] by simp

text \<open>
  C1: \<^verbatim>\<open>put\<close> implements the ordered insertion of the specification. The new version is placed
  in front of the older versions of its key, and it replaces the newest version when that one
  belongs to the same transaction, whatever levels the random generator chose.
\<close>

theorem skiplist_put_refines:
  assumes "sl_reachable m s" "1 \<le> m" "SkipList_flush s = Some es"
  shows "\<exists>s'. SkipList_put s flips k v t = Some s' \<and> SkipList_flush s' = Some (vput k v t es)"
  using put_abs [OF sl_reachable_flush [OF assms]] flush_abs by blast

lemma skiplist_put_refines_witness:
  "\<exists>s'. SkipList_put (SkipList_new 4) (\<lambda>i. i < 2) ''b'' ''x'' 1 = Some s' \<and>
        SkipList_flush s' = Some [(''b'', ''x'', 1)]"
  using skiplist_put_refines [OF sl_reachable.new, of 4 "[]" "\<lambda>i. i < 2" "''b''" "''x''" 1]
    flush_abs [OF sl_abs_new, of 4]
  by (simp add: vput_def)

text \<open>
  After \<^verbatim>\<open>put(k, v, t)\<close> a lookup of \<^verbatim>\<open>k\<close> without a transaction, or by a transaction not older
  than \<^verbatim>\<open>t\<close>, returns the node of the new version, and a lookup of any other key finds the
  value it found before.
\<close>

theorem skiplist_get_put:
  assumes "sl_reachable m s" "1 \<le> m" "t' = 0 \<or> t \<le> t'" "k' \<noteq> k"
  shows "\<exists>s' it it1 it2. SkipList_put s flips k v t = Some s' \<and> SkipList_get s' k t' = Some it \<and>
    SkipListIterator_get_value (heap s') it = Some v \<and>
    SkipListIterator_get_tranc_id (heap s') it = Some t \<and>
    SkipList_get s k' t'' = Some it1 \<and> SkipList_get s' k' t'' = Some it2 \<and>
    SkipListIterator_get_value (heap s') it2 = SkipListIterator_get_value (heap s) it1"
proof -
  obtain es where abs: "sl_abs s es" using sl_reachable_abs [OF assms(1,2)] by blast
  obtain s' where put: "SkipList_put s flips k v t = Some s'" and abs': "sl_abs s' (vput k v t es)"
    using put_abs [OF abs] by blast
  have other: "vfind k' t'' (vput k v t es) = vfind k' t'' es"
    by (rule vfind_vput_other [OF sl_abs_sorted [OF abs] assms(4)])
  obtain it where it: "SkipList_get s' k t' = Some it"
    "SkipListIterator_get_value (heap s') it = Some v" "SkipListIterator_get_tranc_id (heap s') it = Some t"
    using get_abs [OF abs', of k t'] by (auto simp: vfind_vput_same [OF assms(3)])
  obtain it1 it2 where "SkipList_get s k' t'' = Some it1" "SkipList_get s' k' t'' = Some it2"
    "SkipListIterator_get_value (heap s') it2 = SkipListIterator_get_value (heap s) it1"
    using get_abs [OF abs, of k' t''] get_abs [OF abs', of k' t'']
    by (auto simp: other SkipListIterator_get_value_def split: option.splits)
  with put it show ?thesis by blast
qed

lemma skiplist_get_put_witness:
  "\<exists>s' it. SkipList_put (SkipList_new 3) (\<lambda>i. True) ''a'' ''1'' 7 = Some s' \<and>
     SkipList_get s' ''a'' 9 = Some it \<and> SkipListIterator_get_value (heap s') it = Some ''1''"
  using skiplist_get_put [OF sl_reachable.new, of 3 9 7 "''b''" "''a''" "\<lambda>i. True" "''1''" 0] by auto



text \<open>
  The byte count is exact as long as a \<^verbatim>\<open>put\<close> inserts a new version, and an update in place
  loses the length of the new value.
\<close>

theorem skiplist_put_size:
  assumes "sl_reachable m s" "1 \<le> m" "SkipList_flush s = Some es" "size_bytes s = vsize es"
  shows "\<exists>s'. SkipList_put s flips k v t = Some s' \<and>
    size_bytes s' = vsize (vput k v t es) - (if vhit k t es = None then 0 else of_nat (length v))"
proof -
  from vsize_vput [of k v t es] show ?thesis
    using put_abs [OF sl_reachable_flush [OF assms(1-3)], of flips k v t] assms(4)
    by (cases "vhit k t es") auto
qed

lemma skiplist_put_size_witness:
  "\<exists>s'. SkipList_put (SkipList_new 4) (\<lambda>i. False) ''key1'' ''value1'' 0 = Some s' \<and> size_bytes s' = 18"
  using skiplist_put_size [OF sl_reachable.new, of 4 "[]" "\<lambda>i. False" "''key1''" "''value1''" 0]
    flush_abs [OF sl_abs_new, of 4]
  by (simp add: vput_def vhit_def vsize_def entry_size_def) (simp add: SkipList_new_def)

text \<open>
  The level chosen for a node lies between 1 and the maximum level for every sequence of coin
  tosses, and with the toss failing after \<^verbatim>\<open>j\<close> successes it is \<^verbatim>\<open>j + 1\<close>, capped at the maximum.
\<close>

theorem random_level_distribution:
  assumes "1 \<le> m" "\<And>i. i < j \<Longrightarrow> flips i" "\<not> flips j"
  shows "random_level m flips = min m (Suc j)"
proof -
  have "random_level_loop m flips i (Suc i) = min m (Suc j)" if "i \<le> j" "Suc i \<le> m" for i
    using that
  proof (induction "j - i" arbitrary: i)
    case 0
    with assms(3) show ?case by (simp add: random_level_loop.simps)
  next
    case (Suc d)
    then have "i < j" by simp
    then show ?case
      using Suc.hyps(1) [of "Suc i"] Suc.hyps(2) Suc.prems assms(2) [of i]
      by (cases "Suc i < m") (auto simp: random_level_loop.simps [of m flips i])
  qed
  from this [of 0] assms(1) show ?thesis by (simp add: random_level_def)
qed

lemma random_level_distribution_witness: "random_level 16 (\<lambda>i. i < 3) = 4"
  using random_level_distribution [of 16 3 "\<lambda>i. i < 3"] by simp

text \<open>
  A transaction that may see the older of two versions of a key does not find it: \<^verbatim>\<open>get\<close> looks
  at the newest version only.
\<close>

theorem skiplist_get_hides_older_version:
  "(do { s1 \<leftarrow> SkipList_put (SkipList_new 4) (\<lambda>i. False) ''key1'' ''value1'' 1;
         s2 \<leftarrow> SkipList_put s1 (\<lambda>i. False) ''key1'' ''value2'' 2;
         SkipList_get s2 ''key1'' 1 }) = Some SkipList_end"
  by code_simp

end
