(* ===== verification/Skip_List_Engine.thy ===== *)
theory Skip_List_Engine
  imports Lsm_Engine Skip_List_Correct
begin

text \<open>
  An engine whose whole state is one skip list, the active memory table, built from the operations
  of \<open>Skip_List\<close> the way the comments of \<^verbatim>\<open>LSMEngine\<close> and \<^verbatim>\<open>MemTable\<close> describe: a removal writes
  an empty value, a query treats an empty value as absent. It interprets the contract
  \<open>mvcc_engine\<close>, so every theorem stated for a store with that contract holds of the skip list,
  and the contract is consistent. The level generator is a parameter.
\<close>

definition sl_put :: "(nat \<Rightarrow> bool) \<Rightarrow> SkipList \<Rightarrow> string \<Rightarrow> string \<Rightarrow> u64 \<Rightarrow> SkipList" where
  "sl_put flips s k v t = (case SkipList_put s flips k v t of None \<Rightarrow> s | Some s' \<Rightarrow> s')"

definition sl_find :: "SkipList \<Rightarrow> string \<Rightarrow> u64 \<Rightarrow> (string \<times> u64) option" where
  "sl_find s k t =
     do { it \<leftarrow> SkipList_get s k t;
          v \<leftarrow> SkipListIterator_get_value (heap s) it;
          i \<leftarrow> SkipListIterator_get_tranc_id (heap s) it;
          Some (v, i) }"

definition sl_get :: "SkipList \<Rightarrow> string \<Rightarrow> u64 \<Rightarrow> (string \<times> u64) option" where
  "sl_get s k t = (case sl_find s k t of Some (v, i) \<Rightarrow> if v = [] then None else Some (v, i) | None \<Rightarrow> None)"

function live :: "entry list \<Rightarrow> (string \<times> string) list" where
  "live [] = []"
| "live ((k, v, t) # es) = (if v = [] then [] else [(k, v)]) @ live (dropWhile (\<lambda>e. ekey e = k) es)"
  by pat_completeness auto
termination
  by (relation "measure length") (auto simp: le_imp_less_Suc length_dropWhile_le)

definition sl_iters :: "SkipList \<Rightarrow> u64 \<Rightarrow> (string \<Rightarrow> int) \<Rightarrow> (string \<times> string) list option" where
  "sl_iters s t predicate =
     do { es \<leftarrow> SkipList_flush s;
          let xs = filter (\<lambda>(k, v). predicate k = 0) (live es);
          (if xs = [] then None else Some xs) }"

definition skiplist_engine :: "(nat \<Rightarrow> bool) \<Rightarrow> SkipList engine_ops" where
  "skiplist_engine flips =
     \<lparr>eng_get = sl_get, eng_get_batch = (\<lambda>s ks t. map (\<lambda>k. (k, sl_get s k t)) ks),
      eng_put = sl_put flips, eng_put_batch = (\<lambda>s kvs t. foldl (\<lambda>s (k, v). sl_put flips s k v t) s kvs),
      eng_remove = (\<lambda>s k t. sl_put flips s k [] t),
      eng_remove_batch = (\<lambda>s ks t. foldl (\<lambda>s k. sl_put flips s k [] t) s ks),
      eng_clear = SkipList_clear, eng_flush = (\<lambda>s. s), eng_iters = sl_iters,
      eng_mem_get = sl_find, eng_mem_put = sl_put flips, eng_sst_get = (\<lambda>s k t. None)\<rparr>"

subsection \<open>Contents\<close>

definition entries_view :: "entry list \<Rightarrow> kv" where
  "entries_view es k = (case filter (\<lambda>e. ekey e = k) es of
     [] \<Rightarrow> None | e # _ \<Rightarrow> if fst (snd e) = [] then None else Some (fst (snd e)))"

definition sl_content :: "SkipList \<Rightarrow> kv" where
  "sl_content s = (case SkipList_flush s of None \<Rightarrow> (\<lambda>_. None) | Some es \<Rightarrow> entries_view es)"

definition sl_bounded :: "SkipList \<Rightarrow> nat \<Rightarrow> bool" where
  "sl_bounded s t \<longleftrightarrow> (\<exists>es. sl_abs s es \<and> (\<forall>e\<in>set es. unat (snd (snd e)) < t))"

lemma sl_content_abs: "sl_abs s es \<Longrightarrow> sl_content s = entries_view es"
  by (simp add: sl_content_def flush_abs)

lemma entries_view_vput:
  "entries_view (vput k v t es) = kv_put k v (entries_view es)"
proof
  fix k'
  show "entries_view (vput k v t es) k' = kv_put k v (entries_view es) k'"
  proof (cases "k' = k")
    case True
    show ?thesis
    proof (rule vput_split [of es k v t])
      fix A B C assume *: "vput k v t es = A @ (k, v, t) # C" "\<And>e. e \<in> set A \<Longrightarrow> ekey e < k"
      then have "filter (\<lambda>e. ekey e = k) A = []" by (force simp: filter_empty_conv)
      with True * show ?thesis by (simp add: entries_view_def)
    qed
  next
    case False
    then show ?thesis by (simp add: entries_view_def vput_keys_other)
  qed
qed

lemma set_vput: "set (vput k v t es) \<subseteq> insert (k, v, t) (set es)"
  by (rule vput_split [of es k v t]) auto

lemma sl_put_ok:
  assumes "sl_bounded s b" "b \<le> unat t"
  shows "sl_content (sl_put flips s k v t) = kv_put k v (sl_content s)" "sl_bounded (sl_put flips s k v t) (Suc (unat t))"
proof -
  obtain es where es: "sl_abs s es" "\<forall>e\<in>set es. unat (snd (snd e)) < b" using assms(1) by (auto simp: sl_bounded_def)
  obtain s' where s': "SkipList_put s flips k v t = Some s'" "sl_abs s' (vput k v t es)"
    using put_abs [OF es(1)] by blast
  have p: "sl_put flips s k v t = s'" by (simp add: sl_put_def s'(1))
  show "sl_content (sl_put flips s k v t) = kv_put k v (sl_content s)"
    unfolding p sl_content_abs [OF es(1)] sl_content_abs [OF s'(2)] by (rule entries_view_vput)
  have "unat (snd (snd e)) < Suc (unat t)" if "e \<in> set (vput k v t es)" for e
    using that set_vput [of k v t es] es(2) assms(2) by fastforce
  then show "sl_bounded (sl_put flips s k v t) (Suc (unat t))"
    unfolding p sl_bounded_def using s'(2) by blast
qed

text \<open>Within a batch all writes carry the same id; the bound stays that of the batch.\<close>

lemma sl_put_same:
  assumes "sl_bounded s (Suc (unat t))"
  shows "sl_content (sl_put flips s k v t) = kv_put k v (sl_content s)" "sl_bounded (sl_put flips s k v t) (Suc (unat t))"
proof -
  obtain es where es: "sl_abs s es" "\<forall>e\<in>set es. unat (snd (snd e)) < Suc (unat t)" using assms(1) by (auto simp: sl_bounded_def)
  obtain s' where s': "SkipList_put s flips k v t = Some s'" "sl_abs s' (vput k v t es)"
    using put_abs [OF es(1)] by blast
  have p: "sl_put flips s k v t = s'" by (simp add: sl_put_def s'(1))
  show "sl_content (sl_put flips s k v t) = kv_put k v (sl_content s)"
    unfolding p sl_content_abs [OF es(1)] sl_content_abs [OF s'(2)] by (rule entries_view_vput)
  have "unat (snd (snd e)) < Suc (unat t)" if "e \<in> set (vput k v t es)" for e
    using that set_vput [of k v t es] es(2) by fastforce
  then show "sl_bounded (sl_put flips s k v t) (Suc (unat t))"
    unfolding p sl_bounded_def using s'(2) by blast
qed

lemma sl_bounded_mono: "sl_bounded s b \<Longrightarrow> b \<le> b' \<Longrightarrow> sl_bounded s b'"
  by (auto simp: sl_bounded_def intro: less_le_trans)

lemma sl_put_batch_ok:
  assumes "sl_bounded s (Suc (unat t))"
  shows "sl_content (foldl (\<lambda>s (k, v). sl_put flips s k v t) s kvs) = kv_puts kvs (sl_content s) \<and>
    sl_bounded (foldl (\<lambda>s (k, v). sl_put flips s k v t) s kvs) (Suc (unat t))"
  using assms
proof (induction kvs arbitrary: s)
  case (Cons kv kvs)
  obtain k v where kv: "kv = (k, v)" by (cases kv)
  note p = sl_put_same [OF Cons.prems, of flips k v]
  show ?case using Cons.IH [OF p(2)] by (simp add: kv p(1) del: kv_put_apply)
qed simp

lemma kv_put_Nil: "kv_put k [] m = kv_del k m"
  by (simp add: kv_put_def kv_del_def)

lemma kv_dels_Cons [simp]: "kv_dels (k # ks) m = kv_dels ks (kv_del k m)" "kv_dels [] m = m"
  by (simp_all add: kv_dels_def)

lemma sl_remove_batch_ok:
  assumes "sl_bounded s (Suc (unat t))"
  shows "sl_content (foldl (\<lambda>s k. sl_put flips s k [] t) s ks) = kv_dels ks (sl_content s) \<and>
    sl_bounded (foldl (\<lambda>s k. sl_put flips s k [] t) s ks) (Suc (unat t))"
  using assms
proof (induction ks arbitrary: s)
  case (Cons k ks)
  note p = sl_put_same [OF Cons.prems, of flips k "[]"]
  show ?case using Cons.IH [OF p(2)] by (simp add: p(1) kv_put_Nil del: kv_put_apply kv_del_apply kv_dels_apply)
qed simp

lemma sl_find_ok:
  assumes "sl_abs s es"
  shows "sl_find s k t = (case vfind k t es of None \<Rightarrow> None | Some (k', v, i) \<Rightarrow> Some (v, i))"
proof (cases "vfind k t es")
  case None
  then show ?thesis using get_abs [OF assms, of k t] by (auto simp: sl_find_def SkipListIterator_get_value_def)
next
  case (Some e)
  then show ?thesis using get_abs [OF assms, of k t] by (cases e) (auto simp: sl_find_def)
qed

lemma sl_get_ok:
  assumes "sl_bounded s b" "b \<le> unat t" "t \<noteq> 0"
  shows "map_option fst (sl_get s k t) = sl_content s k"
proof -
  obtain es where es: "sl_abs s es" "\<forall>e\<in>set es. unat (snd (snd e)) < b" using assms(1) by (auto simp: sl_bounded_def)
  show ?thesis
  proof (cases "filter (\<lambda>e. ekey e = k) es")
    case Nil
    then show ?thesis
      by (simp add: sl_get_def sl_find_ok [OF es(1)] vfind_filter [OF sl_abs_sorted [OF es(1)]]
          sl_content_abs [OF es(1)] entries_view_def)
  next
    case (Cons e r)
    then have "e \<in> set (filter (\<lambda>e. ekey e = k) es)" by simp
    then have "e \<in> set es" by simp
    then have "snd (snd e) \<le> t" using es(2) assms(2) by (fastforce simp: word_le_nat_alt)
    with Cons show ?thesis
      by (cases e) (simp add: sl_get_def sl_find_ok [OF es(1)] vfind_filter [OF sl_abs_sorted [OF es(1)]]
          sl_content_abs [OF es(1)] entries_view_def)
  qed
qed

lemma live_keys: "(k, v) \<in> set (live es) \<Longrightarrow> \<exists>e\<in>set es. ekey e = k"
proof (induction es rule: live.induct)
  case (2 k' v' t es)
  then show ?case by (auto split: if_splits dest: set_dropWhileD)
qed simp

lemma dropWhile_ekey_greater:
  assumes "sorted (map ekey es)" "\<forall>e\<in>set es. k \<le> ekey e" "e \<in> set (dropWhile (\<lambda>e. ekey e = k) es)"
  shows "k < ekey e"
  using assms
proof (induction es)
  case (Cons x es)
  show ?case
  proof (cases "ekey x = k")
    case False
    then have "k < ekey x" using Cons.prems(2) by (simp add: order.strict_iff_order)
    moreover have "ekey x \<le> ekey e" using Cons.prems False by auto
    ultimately show ?thesis by (rule less_le_trans)
  qed (use Cons in auto)
qed simp

lemma dropWhile_ekey_filter:
  "k' \<noteq> k \<Longrightarrow> filter (\<lambda>e. ekey e = k') (dropWhile (\<lambda>e. ekey e = k) es) = filter (\<lambda>e. ekey e = k') es"
  by (induction es) auto

lemma sorted_dropWhile_ekey: "sorted (map ekey es) \<Longrightarrow> sorted (map ekey (dropWhile P es))"
  by (induction es) auto

lemma live_view:
  assumes "sorted (map ekey es)"
  shows "(k, v) \<in> set (live es) \<longleftrightarrow> entries_view es k = Some v"
  using assms
proof (induction es rule: live.induct)
  case (2 k' v' t es)
  let ?r = "dropWhile (\<lambda>e. ekey e = k') es"
  have r: "sorted (map ekey ?r)" using 2(2) sorted_dropWhile_ekey by simp
  have gt: "k' < ekey e" if "e \<in> set ?r" for e
    by (rule dropWhile_ekey_greater [OF _ _ that]) (use 2(2) in auto)
  show ?case
  proof (cases "k = k'")
    case True
    have "(k', v) \<notin> set (live ?r)" using live_keys [of k' v ?r] gt by blast
    then show ?thesis using True by (auto simp: entries_view_def)
  next
    case False
    then have "entries_view ?r k = entries_view ((k', v', t) # es) k"
      by (simp add: entries_view_def dropWhile_ekey_filter)
    then show ?thesis using 2(1) [OF r] False by simp
  qed
qed (simp add: entries_view_def)

lemma live_sorted: "sorted (map ekey es) \<Longrightarrow> sorted_wrt (<) (map fst (live es))"
proof (induction es rule: live.induct)
  case (2 k' v' t es)
  let ?r = "dropWhile (\<lambda>e. ekey e = k') es"
  have r: "sorted (map ekey ?r)" using 2(2) sorted_dropWhile_ekey by simp
  have gt: "k' < ekey e" if "e \<in> set ?r" for e
    by (rule dropWhile_ekey_greater [OF _ _ that]) (use 2(2) in auto)
  have "k' < a" if "(a, b) \<in> set (live ?r)" for a b using live_keys [OF that] gt by blast
  then show ?case using 2(1) [OF r] by auto
qed simp

lemma sl_iters_ok:
  assumes "sl_bounded s b"
  shows "prefix_answer (sl_content s) p (sl_iters s t (prefix_compare p))"
proof -
  obtain es where es: "sl_abs s es" using assms(1) by (auto simp: sl_bounded_def)
  note so = sl_abs_sorted [OF es]
  let ?xs = "filter (\<lambda>(k, v). prefix_compare p k = 0) (live es)"
  have mem: "(k, v) \<in> set ?xs \<longleftrightarrow> prefix p k \<and> sl_content s k = Some v" for k v
    using live_view [OF so] by (auto simp: sl_content_abs [OF es])
  have it: "sl_iters s t (prefix_compare p) = (if ?xs = [] then None else Some ?xs)"
    by (simp only: sl_iters_def flush_abs [OF es] Option.bind.simps Let_def)
  show ?thesis
  proof (cases "?xs = []")
    case True
    then have "sl_content s k = None" if "prefix p k" for k
      using mem [of k] that by (cases "sl_content s k") auto
    then show ?thesis unfolding it using True by (simp add: prefix_answer_def)
  next
    case False
    have "sorted_wrt (<) (map fst ?xs)"
      using live_sorted [OF so] by (simp add: sorted_wrt_map sorted_wrt_filter)
    with False mem show ?thesis unfolding it by (simp only: prefix_answer_def if_False option.case) blast
  qed
qed

lemma entries_view_nonempty: "entries_view es k \<noteq> Some []"
  by (auto simp: entries_view_def split: list.splits)

interpretation sl_engine: mvcc_engine "skiplist_engine flips" sl_content sl_bounded
proof unfold_locales
  fix s b b' k v p and i :: u64 and kvs :: "(string \<times> string) list" and ks :: "string list"
  show "sl_bounded s b \<Longrightarrow> b \<le> b' \<Longrightarrow> sl_bounded s b'" by (rule sl_bounded_mono)
  show "sl_bounded s b \<Longrightarrow> prefix_answer (sl_content s) p (eng_iters (skiplist_engine flips) s 0 (prefix_compare p))"
    using sl_iters_ok by (simp add: skiplist_engine_def)
  assume b: "sl_bounded s b"
  show "sl_content s k \<noteq> Some []"
    using b by (auto simp: sl_bounded_def sl_content_abs entries_view_nonempty)
  assume i: "b \<le> unat i"
  have b': "sl_bounded s (Suc (unat i))" by (rule sl_bounded_mono [OF b]) (use i in simp)
  show "i \<noteq> 0 \<Longrightarrow> map_option fst (eng_get (skiplist_engine flips) s k i) = sl_content s k"
    using sl_get_ok [OF b i] by (simp add: skiplist_engine_def)
  show "i \<noteq> 0 \<Longrightarrow> map (\<lambda>(k, v). (k, map_option fst v)) (eng_get_batch (skiplist_engine flips) s ks i) = map (\<lambda>k. (k, sl_content s k)) ks"
    using sl_get_ok [OF b i] by (simp add: skiplist_engine_def)
  show "sl_content (eng_put (skiplist_engine flips) s k v i) = kv_put k v (sl_content s)"
    "sl_bounded (eng_put (skiplist_engine flips) s k v i) (Suc (unat i))"
    using sl_put_ok [OF b i] by (simp_all add: skiplist_engine_def)
  show "sl_content (eng_remove (skiplist_engine flips) s k i) = kv_del k (sl_content s)"
    "sl_bounded (eng_remove (skiplist_engine flips) s k i) (Suc (unat i))"
    using sl_put_ok [OF b i, of flips k "[]"] by (simp_all add: skiplist_engine_def kv_put_Nil)
  show "sl_content (eng_put_batch (skiplist_engine flips) s kvs i) = kv_puts kvs (sl_content s)"
    "sl_bounded (eng_put_batch (skiplist_engine flips) s kvs i) (Suc (unat i))"
    using sl_put_batch_ok [OF b'] by (simp_all add: skiplist_engine_def)
  show "sl_content (eng_remove_batch (skiplist_engine flips) s ks i) = kv_dels ks (sl_content s)"
    "sl_bounded (eng_remove_batch (skiplist_engine flips) s ks i) (Suc (unat i))"
    using sl_remove_batch_ok [OF b'] by (simp_all add: skiplist_engine_def del: kv_dels_apply)
qed

text \<open>A fresh database over a skip list with the default sixteen levels.\<close>

definition sl_db :: "SkipList LSM" where
  "sl_db = \<lparr>engine = SkipList_new 16, tran_manager = TranManager_new\<rparr>"

lemma sl_db_can: "n < 2 ^ 64 - 1 \<Longrightarrow> lsm_can sl_bounded sl_db n"
  using sl_abs_new [of 16]
  by (auto simp: lsm_can_def sl_db_def TranManager_new_def sl_bounded_def)

lemma sl_db_view: "lsm_view sl_content sl_db = (\<lambda>_. None)"
  using sl_content_abs [OF sl_abs_new, of 16]
  by (simp add: lsm_view_def sl_db_def entries_view_def fun_eq_iff)

subsection \<open>Properties\<close>

text \<open>
  C10: a database over any engine with the contract \<open>mvcc_engine\<close> behaves as a map from keys to values:
  every sequence of get, put, remove and batch operations answers as the map does and
  leaves its final contents, as long as the transaction ids last; putting an empty value deletes.
\<close>

theorem lsm_run_refines_map:
  assumes "mvcc_engine E content bounded" "lsm_can bounded s (length ops)"
  shows "fst (lsm_run E s ops) = fst (kv_run (content (engine s)) ops) \<and>
    content (engine (snd (lsm_run E s ops))) = snd (kv_run (content (engine s)) ops)"
  by (rule mvcc_engine.lsm_run_ok [OF assms])

lemma lsm_run_refines_map_witness:
  "fst (lsm_run (skiplist_engine (\<lambda>i. False)) sl_db
     [Put ''a'' ''1'', PutBatch [(''b'', ''2''), (''a'', ''3'')], Remove ''b'', GetBatch [''a'', ''b''], Get ''c'']) =
   [[], [], [], [(''a'', Some ''3''), (''b'', None)], [(''c'', None)]]"
proof -
  let ?ops = "[Put ''a'' ''1'', PutBatch [(''b'', ''2''), (''a'', ''3'')], Remove ''b'', GetBatch [''a'', ''b''], Get ''c'']"
  have c: "lsm_can sl_bounded sl_db (length ?ops)" by (rule sl_db_can) simp
  have v: "sl_content (engine sl_db) = (\<lambda>_. None)" using sl_db_view by (simp add: lsm_view_def)
  show ?thesis using lsm_run_refines_map [OF sl_engine.mvcc_engine_axioms [of "\<lambda>i. False"] c] by (simp add: v)
qed

end
