(* ===== verification/Tran_Context.thy ===== *)
theory Tran_Context
  imports Skip_List_Engine Wal_Record "HOL-Library.AList"
begin

text \<open>
  Transactions, \<^verbatim>\<open>TranContext\<close> of \<^verbatim>\<open>src/lsm/transation.cpp\<close>. A context is a record beside the database
  it works on; \<^verbatim>\<open>std::unordered_map\<close>s are association lists in the order of insertion. The
  write-ahead log is a parameter \<open>log\<close>, with \<^const>\<open>None\<close> for the exception it may throw.
  The locks of \<^verbatim>\<open>commit\<close> make it one atomic step. The manager keeps every context alive in
  \<^verbatim>\<open>activeTrans_\<close>; since contexts are passed explicitly here, the ids are recorded.
\<close>

datatype IsolationLevel = READ_UNOP_COMMITTED | READ_OP_COMMITTED | REPEATABLE_READ | SERIALIZABLE

record TranContext =
  tc_tranc_id :: u64
  operations :: "Record list"
  temp_map :: "(string \<times> string) list"
  isCommited :: bool
  isAborted :: bool
  isolation_level :: IsolationLevel
  read_map :: "(string \<times> (string \<times> u64) option) list"
  rollback_map :: "(string \<times> (string \<times> u64) option) list"

record ('s, 'w) TranSystem =
  lsm :: "'s LSM"
  wal :: 'w
  activeTrans :: "u64 list"

definition TranContext_new :: "u64 \<Rightarrow> IsolationLevel \<Rightarrow> TranContext" where
  "TranContext_new tranc_id level =
     \<lparr>tc_tranc_id = tranc_id, operations = [createRecord tranc_id], temp_map = [], isCommited = False,
      isAborted = False, isolation_level = level, read_map = [], rollback_map = []\<rparr>"

definition new_tranc :: "('s, 'w) TranSystem \<Rightarrow> IsolationLevel \<Rightarrow> TranContext \<times> ('s, 'w) TranSystem" where
  "new_tranc y level =
     (case next_id (lsm y) of (tranc_id, s) \<Rightarrow>
        (TranContext_new tranc_id level, y\<lparr>lsm := s, activeTrans := set_insert tranc_id (activeTrans y)\<rparr>))"

text \<open>\<^verbatim>\<open>map[key] = value\<close>\<close>

definition umap_put :: "string \<Rightarrow> 'v \<Rightarrow> (string \<times> 'v) list \<Rightarrow> (string \<times> 'v) list" where
  "umap_put k v m = AList.update k v m"

definition on_engine :: "('s \<Rightarrow> 's) \<Rightarrow> ('s, 'w) TranSystem \<Rightarrow> ('s, 'w) TranSystem" where
  "on_engine f y = y\<lparr>lsm := (lsm y)\<lparr>engine := f (engine (lsm y))\<rparr>\<rparr>"

definition TranContext_put ::
    "'s engine_ops \<Rightarrow> TranContext \<Rightarrow> ('s, 'w) TranSystem \<Rightarrow> string \<Rightarrow> string \<Rightarrow> TranContext \<times> ('s, 'w) TranSystem" where
  "TranContext_put E c y key value =
     (let c = c\<lparr>operations := operations c @ [putRecord (tc_tranc_id c) key value]\<rparr>
      in if isolation_level c = READ_UNOP_COMMITTED
         then let prev_record = eng_get E (engine (lsm y)) key 0
              in (c\<lparr>rollback_map := umap_put key prev_record (rollback_map c)\<rparr>,
                  on_engine (\<lambda>s. eng_put E s key value (tc_tranc_id c)) y)
         else (c\<lparr>temp_map := umap_put key value (temp_map c)\<rparr>, y))"

definition TranContext_remove ::
    "'s engine_ops \<Rightarrow> TranContext \<Rightarrow> ('s, 'w) TranSystem \<Rightarrow> string \<Rightarrow> TranContext \<times> ('s, 'w) TranSystem" where
  "TranContext_remove E c y key =
     (let c = c\<lparr>operations := operations c @ [deleteRecord (tc_tranc_id c) key]\<rparr>
      in if isolation_level c = READ_UNOP_COMMITTED
         then let prev_record = eng_get E (engine (lsm y)) key 0
              in (c\<lparr>rollback_map := umap_put key prev_record (rollback_map c)\<rparr>,
                  on_engine (\<lambda>s. eng_remove E s key (tc_tranc_id c)) y)
         else (c\<lparr>temp_map := umap_put key [] (temp_map c)\<rparr>, y))"

definition TranContext_get ::
    "'s engine_ops \<Rightarrow> TranContext \<Rightarrow> ('s, 'w) TranSystem \<Rightarrow> string \<Rightarrow> string option \<times> TranContext" where
  "TranContext_get E c y key =
     (case map_of (temp_map c) key of
        Some v \<Rightarrow> (Some v, c)
      | None \<Rightarrow>
          (case isolation_level c of
             READ_UNOP_COMMITTED \<Rightarrow> (map_option fst (eng_get E (engine (lsm y)) key 0), c)
           | READ_OP_COMMITTED \<Rightarrow> (map_option fst (eng_get E (engine (lsm y)) key (tc_tranc_id c)), c)
           | _ \<Rightarrow>
               (case map_of (read_map c) key of
                  Some query \<Rightarrow> (map_option fst query, c)
                | None \<Rightarrow>
                    let query = eng_get E (engine (lsm y)) key (tc_tranc_id c)
                    in (map_option fst query, c\<lparr>read_map := umap_put key query (read_map c)\<rparr>))))"

subsection \<open>Commit and abort\<close>

datatype tran_error = WriteToWalFailed

definition set_ready :: "u64 \<Rightarrow> TransactionState \<Rightarrow> ('s, 'w) TranSystem \<Rightarrow> ('s, 'w) TranSystem" where
  "set_ready i st y = y\<lparr>lsm := (lsm y)\<lparr>tran_manager := add_ready_to_flush_tranc_id (tran_manager (lsm y)) i st\<rparr>\<rparr>"

text \<open>
  The conflict check of one key: a newer version in the memory tables, or, when something newer was
  flushed at all, in an SST. \<^verbatim>\<open>is_valid()\<close> of the iterator fails for the empty key.
\<close>

definition mem_conflict :: "'s engine_ops \<Rightarrow> 's \<Rightarrow> u64 \<Rightarrow> string \<Rightarrow> bool" where
  "mem_conflict E s tranc_id k =
     (case eng_mem_get E s k 0 of Some (v, t) \<Rightarrow> k \<noteq> [] \<and> tranc_id < t | None \<Rightarrow> False)"

definition sst_conflict :: "'s engine_ops \<Rightarrow> 's \<Rightarrow> u64 \<Rightarrow> string \<Rightarrow> bool" where
  "sst_conflict E s tranc_id k =
     (case eng_sst_get E s k 0 of Some (v, t) \<Rightarrow> tranc_id < t | None \<Rightarrow> False)"

fun conflict_scan :: "'s engine_ops \<Rightarrow> 's LSM \<Rightarrow> u64 \<Rightarrow> (string \<times> string) list \<Rightarrow> bool option" where
  "conflict_scan E s tranc_id [] = Some False"
| "conflict_scan E s tranc_id ((k, v) # kvs) =
     (if mem_conflict E (engine s) tranc_id k then Some True
      else case get_max_flushed_tranc_id (tran_manager s) of
             None \<Rightarrow> None
           | Some m \<Rightarrow>
               if m \<le> tranc_id then conflict_scan E s tranc_id kvs
               else if sst_conflict E (engine s) tranc_id k then Some True
               else conflict_scan E s tranc_id kvs)"

definition apply_writes :: "'s engine_ops \<Rightarrow> (string \<times> string) list \<Rightarrow> u64 \<Rightarrow> 's \<Rightarrow> 's" where
  "apply_writes E kvs tranc_id s =
     eng_mem_put E (foldl (\<lambda>s (k, v). eng_mem_put E s k v tranc_id) s kvs) [] [] tranc_id"

type_synonym ('s, 'w) commit_result = "(tran_error + bool) \<times> TranContext \<times> ('s, 'w) TranSystem"

text \<open>The part shared by the branches: log the operations, make the writes visible, record the state.\<close>

definition log_and_finish ::
    "('w \<Rightarrow> Record list \<Rightarrow> 'w option) \<Rightarrow> ('s \<Rightarrow> 's) \<Rightarrow> TranContext \<Rightarrow> ('s, 'w) TranSystem \<Rightarrow> ('s, 'w) commit_result" where
  "log_and_finish log write_back c y =
     (let c = c\<lparr>operations := operations c @ [commitRecord (tc_tranc_id c)]\<rparr>
      in case log (wal y) (operations c) of
           None \<Rightarrow> (Inl WriteToWalFailed, c, y)
         | Some w \<Rightarrow>
             (Inr True, c\<lparr>isCommited := True\<rparr>,
              set_ready (tc_tranc_id c) OP_COMMITTED (on_engine write_back (y\<lparr>wal := w\<rparr>))))"

definition TranContext_commit ::
    "'s engine_ops \<Rightarrow> ('w \<Rightarrow> Record list \<Rightarrow> 'w option) \<Rightarrow> TranContext \<Rightarrow> ('s, 'w) TranSystem \<Rightarrow> bool \<Rightarrow>
     ('s, 'w) commit_result option" where
  "TranContext_commit E log c y test_fail =
     (let tid = tc_tranc_id c
      in if isolation_level c = READ_UNOP_COMMITTED
         then Some (log_and_finish log (\<lambda>s. eng_mem_put E s [] [] tid) c y)
         else do {
           conflict \<leftarrow>
             (if isolation_level c = REPEATABLE_READ \<or> isolation_level c = SERIALIZABLE
              then conflict_scan E (lsm y) tid (temp_map c) else Some False);
           Some (if conflict then (Inr False, c\<lparr>isAborted := True\<rparr>, set_ready tid ABORTED y)
                 else log_and_finish log (if test_fail then (\<lambda>s. s) else apply_writes E (temp_map c) tid) c y) })"

definition rollback_one :: "'s engine_ops \<Rightarrow> u64 \<Rightarrow> 's \<Rightarrow> string \<times> (string \<times> u64) option \<Rightarrow> 's" where
  "rollback_one E tid s kr =
     (case kr of
        (k, Some (v, t)) \<Rightarrow> eng_put E s k v t
      | (k, None) \<Rightarrow> eng_remove E s k tid)"

definition TranContext_abort ::
    "'s engine_ops \<Rightarrow> TranContext \<Rightarrow> ('s, 'w) TranSystem \<Rightarrow> bool \<times> TranContext \<times> ('s, 'w) TranSystem" where
  "TranContext_abort E c y =
     (if isolation_level c = READ_UNOP_COMMITTED
      then (True, c\<lparr>isAborted := True\<rparr>,
            set_ready (tc_tranc_id c) ABORTED
              (on_engine (\<lambda>s. foldl (rollback_one E (tc_tranc_id c)) s (rollback_map c)) y))
      else (True, c\<lparr>isAborted := True\<rparr>, set_ready (tc_tranc_id c) ABORTED y))"

subsection \<open>The contract of the memory table\<close>

text \<open>
  What a commit relies on beyond \<open>mvcc_engine\<close>: an unlocked write into the memory table touches its
  key only, and it is the visible version when no newer one exists. \<open>newest\<close> is that version's id.
\<close>

definition newest_upto :: "'s engine_ops \<Rightarrow> 's \<Rightarrow> string \<Rightarrow> u64 \<Rightarrow> bool" where
  "newest_upto E s k i \<longleftrightarrow>
     (\<forall>v t. eng_mem_get E s k 0 = Some (v, t) \<longrightarrow> t \<le> i) \<and> (\<forall>v t. eng_sst_get E s k 0 = Some (v, t) \<longrightarrow> t \<le> i)"

locale tran_engine = mvcc_engine +
  assumes mem_put_bounded: "bounded s t \<Longrightarrow> unat i < t \<Longrightarrow> bounded (eng_mem_put E s k v i) t"
    and mem_put_other: "bounded s t \<Longrightarrow> k' \<noteq> k \<Longrightarrow>
      content (eng_mem_put E s k v i) k' = content s k' \<and>
      eng_mem_get E (eng_mem_put E s k v i) k' 0 = eng_mem_get E s k' 0"
    and mem_put_sst: "eng_sst_get E (eng_mem_put E s k v i) k' 0 = eng_sst_get E s k' 0"
    and mem_put_newest: "bounded s t \<Longrightarrow> unat i < t \<Longrightarrow> newest_upto E s k i \<Longrightarrow>
      content (eng_mem_put E s k v i) k = (if v = [] then None else Some v)"
begin

lemma newest_upto_other:
  "bounded s t \<Longrightarrow> k' \<noteq> k \<Longrightarrow> newest_upto E (eng_mem_put E s k v j) k' i = newest_upto E s k' i"
  by (simp add: newest_upto_def mem_put_other mem_put_sst)

lemma apply_all:
  assumes "bounded s t" "unat i < t" "distinct (map fst kvs)" "\<forall>k\<in>fst ` set kvs. newest_upto E s k i"
  shows "bounded (foldl (\<lambda>s (k, v). eng_mem_put E s k v i) s kvs) t \<and>
    content (foldl (\<lambda>s (k, v). eng_mem_put E s k v i) s kvs) = kv_puts kvs (content s)"
  using assms(1,3,4)
proof (induction kvs arbitrary: s)
  case (Cons kv kvs)
  obtain k v where kv: "kv = (k, v)" by (cases kv)
  let ?s = "eng_mem_put E s k v i"
  have b: "bounded ?s t" by (rule mem_put_bounded [OF Cons.prems(1) assms(2)])
  have "newest_upto E s k i" using Cons.prems(3) kv by simp
  then have "content ?s k' = kv_put k v (content s) k'" for k'
    using mem_put_newest [OF Cons.prems(1) assms(2)] mem_put_other [OF Cons.prems(1)] by simp
  then have c: "content ?s = kv_put k v (content s)" by blast
  have "\<forall>k'\<in>fst ` set kvs. newest_upto E ?s k' i"
  proof
    fix k' assume k': "k' \<in> fst ` set kvs"
    then have "k' \<noteq> k" using Cons.prems(2) kv by auto
    with k' show "newest_upto E ?s k' i"
      using newest_upto_other [OF Cons.prems(1)] Cons.prems(3) kv by auto
  qed
  then show ?case using Cons.IH [OF b] Cons.prems(2) c kv by (simp del: kv_put_apply)
qed simp

lemma apply_writes_content:
  assumes "bounded s t" "unat i < t" "distinct (map fst kvs)" "\<forall>k\<in>fst ` set kvs. newest_upto E s k i" "k \<noteq> []"
  shows "content (apply_writes E kvs i s) k = kv_puts kvs (content s) k"
proof -
  note a = apply_all [OF assms(1-4)]
  then show ?thesis
    unfolding apply_writes_def using mem_put_other [of "foldl (\<lambda>s (k, v). eng_mem_put E s k v i) s kvs" t k "[]"] assms(5)
    by simp
qed

end

subsection \<open>The skip list engine provides it\<close>

lemma sl_put_frame:
  assumes "sl_bounded s b"
  shows "k' \<noteq> k \<Longrightarrow> sl_find (sl_put flips s k v i) k' 0 = sl_find s k' 0"
    "sl_content (sl_put flips s k v i) = kv_put k v (sl_content s)"
    "unat i < b \<Longrightarrow> sl_bounded (sl_put flips s k v i) b"
proof -
  obtain es where es: "sl_abs s es" "\<forall>e\<in>set es. unat (snd (snd e)) < b" using assms by (auto simp: sl_bounded_def)
  obtain s' where s': "SkipList_put s flips k v i = Some s'" "sl_abs s' (vput k v i es)"
    using put_abs [OF es(1)] by blast
  have p: "sl_put flips s k v i = s'" by (simp add: sl_put_def s'(1))
  show "k' \<noteq> k \<Longrightarrow> sl_find (sl_put flips s k v i) k' 0 = sl_find s k' 0"
    by (simp add: p sl_find_ok [OF s'(2)] sl_find_ok [OF es(1)] vfind_vput_other [OF sl_abs_sorted [OF es(1)]])
  show "sl_content (sl_put flips s k v i) = kv_put k v (sl_content s)"
    unfolding p sl_content_abs [OF es(1)] sl_content_abs [OF s'(2)] by (rule entries_view_vput)
  assume "unat i < b"
  then have "unat (snd (snd e)) < b" if "e \<in> set (vput k v i es)" for e
    using that set_vput [of k v i es] es(2) by fastforce
  then show "sl_bounded (sl_put flips s k v i) b" unfolding p sl_bounded_def using s'(2) by blast
qed

interpretation sl_tran: tran_engine "skiplist_engine flips" sl_content sl_bounded
proof unfold_locales
  fix s t i k v k'
  show "sl_bounded s t \<Longrightarrow> unat i < t \<Longrightarrow> sl_bounded (eng_mem_put (skiplist_engine flips) s k v i) t"
    using sl_put_frame(3) by (simp add: skiplist_engine_def)
  show "sl_bounded s t \<Longrightarrow> k' \<noteq> k \<Longrightarrow> sl_content (eng_mem_put (skiplist_engine flips) s k v i) k' = sl_content s k' \<and>
      eng_mem_get (skiplist_engine flips) (eng_mem_put (skiplist_engine flips) s k v i) k' 0 =
      eng_mem_get (skiplist_engine flips) s k' 0"
    using sl_put_frame(1,2) by (simp add: skiplist_engine_def)
  show "eng_sst_get (skiplist_engine flips) (eng_mem_put (skiplist_engine flips) s k v i) k' 0 =
      eng_sst_get (skiplist_engine flips) s k' 0"
    by (simp add: skiplist_engine_def)
  show "sl_bounded s t \<Longrightarrow> unat i < t \<Longrightarrow> newest_upto (skiplist_engine flips) s k i \<Longrightarrow>
      sl_content (eng_mem_put (skiplist_engine flips) s k v i) k = (if v = [] then None else Some v)"
    using sl_put_frame(2) by (simp add: skiplist_engine_def)
qed

subsection \<open>Lemmas on the operations\<close>

lemma conflict_scan_False:
  assumes "conflict_scan E s i kvs = Some False" "(k, v) \<in> set kvs"
  shows "\<not> mem_conflict E (engine s) i k \<and>
    (\<exists>m. get_max_flushed_tranc_id (tran_manager s) = Some m \<and> (m \<le> i \<or> \<not> sst_conflict E (engine s) i k))"
  using assms by (induction kvs) (auto split: if_splits option.splits)

lemma conflict_scan_True:
  assumes "get_max_flushed_tranc_id (tran_manager s) \<noteq> None" "(k, v) \<in> set kvs" "mem_conflict E (engine s) i k"
  shows "conflict_scan E s i kvs = Some True"
  using assms(2,3)
proof (induction kvs)
  case (Cons kv kvs)
  then show ?case using assms(1) by (cases kv) auto
qed simp

lemma lsm_on_engine [simp]:
  "engine (lsm (on_engine f y)) = f (engine (lsm y))" "engine (lsm (set_ready i st y)) = engine (lsm y)"
  "tran_manager (lsm (set_ready i st y)) = add_ready_to_flush_tranc_id (tran_manager (lsm y)) i st"
  by (simp_all add: on_engine_def set_ready_def)

lemma map_of_umap_put [simp]: "map_of (umap_put k v m) k' = (if k' = k then Some v else map_of m k')"
  by (simp add: umap_put_def AList.update_conv')

lemma in_map_put: "(i, st) \<in> set (map_put i st m)"
  by (induction i st m rule: map_put.induct) auto

text \<open>What a snapshot transaction already knows of a key: its own write, or its first read.\<close>

definition seen :: "TranContext \<Rightarrow> string \<Rightarrow> string option option" where
  "seen c k = (case map_of (temp_map c) k of
     Some v \<Rightarrow> Some (Some v) | None \<Rightarrow> map_option (map_option fst) (map_of (read_map c) k))"

definition snapshot_level :: "TranContext \<Rightarrow> bool" where
  "snapshot_level c \<longleftrightarrow> isolation_level c = REPEATABLE_READ \<or> isolation_level c = SERIALIZABLE"

lemma get_seen: "snapshot_level c \<Longrightarrow> seen c k = Some r \<Longrightarrow> TranContext_get E c y k = (r, c)"
  by (cases "map_of (temp_map c) k"; cases "map_of (read_map c) k")
     (auto simp: snapshot_level_def seen_def TranContext_get_def)

lemma get_unseen:
  assumes "snapshot_level c" "seen c k = None"
  shows "TranContext_get E c y k = (map_option fst (eng_get E (engine (lsm y)) k (tc_tranc_id c)),
    c\<lparr>read_map := umap_put k (eng_get E (engine (lsm y)) k (tc_tranc_id c)) (read_map c)\<rparr>)"
  using assms by (cases "map_of (temp_map c) k"; cases "map_of (read_map c) k")
     (auto simp: snapshot_level_def seen_def TranContext_get_def Let_def)

lemma get_makes_seen:
  assumes "snapshot_level c" "TranContext_get E c y k = (r, c')"
  shows "snapshot_level c'" "seen c' k = Some r" "seen c k' = Some r' \<Longrightarrow> seen c' k' = Some r'"
proof -
  have "snapshot_level c' \<and> seen c' k = Some r \<and> (seen c k' = Some r' \<longrightarrow> seen c' k' = Some r')"
  proof (cases "seen c k")
    case None
    then have t: "map_of (temp_map c) k = None" by (auto simp: seen_def split: option.splits)
    have c': "c' = c\<lparr>read_map := umap_put k (eng_get E (engine (lsm y)) k (tc_tranc_id c)) (read_map c)\<rparr>"
      "r = map_option fst (eng_get E (engine (lsm y)) k (tc_tranc_id c))"
      using assms(2) get_unseen [OF assms(1) None, of E y] by simp_all
    have "k' \<noteq> k" if "seen c k' = Some r'" using that None by auto
    then have "seen c' k' = seen c k'" if "seen c k' = Some r'" using that c'(1) by (auto simp: seen_def split: option.splits)
    moreover have "seen c' k = Some r" using t by (simp add: c' seen_def)
    moreover have "snapshot_level c'" using assms(1) c'(1) by (simp add: snapshot_level_def)
    ultimately show ?thesis by simp
  next
    case (Some a)
    then show ?thesis using get_seen [OF assms(1) Some, of E y] assms by simp
  qed
  then show "snapshot_level c'" "seen c' k = Some r" "seen c k' = Some r' \<Longrightarrow> seen c' k' = Some r'" by auto
qed

text \<open>No SST holds a version newer than the largest flushed id.\<close>

definition sst_flushed :: "'s engine_ops \<Rightarrow> ('s, 'w) TranSystem \<Rightarrow> bool" where
  "sst_flushed E y \<longleftrightarrow> (\<forall>k v i m. eng_sst_get E (engine (lsm y)) k 0 = Some (v, i) \<longrightarrow>
     get_max_flushed_tranc_id (tran_manager (lsm y)) = Some m \<longrightarrow> i \<le> m)"

context tran_engine
begin

lemma commit_newest:
  assumes "conflict_scan E (lsm y) i kvs = Some False" "[] \<notin> fst ` set kvs"
    and sst: "sst_flushed E y"
  shows "\<forall>k\<in>fst ` set kvs. newest_upto E (engine (lsm y)) k i"
proof
  fix k assume k: "k \<in> fst ` set kvs"
  let ?s = "engine (lsm y)"
  obtain v where v: "(k, v) \<in> set kvs" using k by auto
  obtain m where m: "\<not> mem_conflict E ?s i k" "get_max_flushed_tranc_id (tran_manager (lsm y)) = Some m"
    "m \<le> i \<or> \<not> sst_conflict E ?s i k" using conflict_scan_False [OF assms(1) v] by blast
  have "k \<noteq> []" using k assms(2) by metis
  with m(1) have "\<forall>v t. eng_mem_get E ?s k 0 = Some (v, t) \<longrightarrow> t \<le> i" by (auto simp: mem_conflict_def not_less)
  moreover have "j \<le> i" if "eng_sst_get E ?s k 0 = Some (w, j)" for w j
    using m(3) sst m(2) that by (fastforce simp: sst_conflict_def sst_flushed_def not_less)
  ultimately show "newest_upto E ?s k i" by (auto simp: newest_upto_def)
qed

lemma commit_scanned:
  assumes "snapshot_level c" "TranContext_commit E log c y False = Some (Inr True, c', y')"
  shows "conflict_scan E (lsm y) (tc_tranc_id c) (temp_map c) = Some False"
    "log_and_finish log (apply_writes E (temp_map c) (tc_tranc_id c)) c y = (Inr True, c', y')"
  using assms by (auto simp: snapshot_level_def TranContext_commit_def Let_def bind_Some_conv split: if_splits)

lemma commit_effect:
  assumes level: "isolation_level c = REPEATABLE_READ \<or> isolation_level c = SERIALIZABLE"
    and b: "bounded (engine (lsm y)) t" "unat (tc_tranc_id c) < t" "distinct (map fst (temp_map c))"
    and ne: "[] \<notin> fst ` set (temp_map c)"
    and sst: "sst_flushed E y"
    and co: "TranContext_commit E log c y False = Some (Inr True, c', y')"
  shows "k \<noteq> [] \<longrightarrow> content (engine (lsm y')) k = kv_puts (temp_map c) (content (engine (lsm y))) k"
    "log (wal y) (operations c @ [commitRecord (tc_tranc_id c)]) = Some (wal y')" "isCommited c'"
proof -
  note sc = commit_scanned [OF level [folded snapshot_level_def] co]
  note new = commit_newest [OF sc(1) ne sst]
  have "engine (lsm y') = apply_writes E (temp_map c) (tc_tranc_id c) (engine (lsm y))"
    and "log (wal y) (operations c @ [commitRecord (tc_tranc_id c)]) = Some (wal y')" "isCommited c'"
    using sc(2) by (auto simp: log_and_finish_def Let_def set_ready_def on_engine_def split: option.splits)
  then show "k \<noteq> [] \<longrightarrow> content (engine (lsm y')) k = kv_puts (temp_map c) (content (engine (lsm y))) k"
    "log (wal y) (operations c @ [commitRecord (tc_tranc_id c)]) = Some (wal y')" "isCommited c'"
    using apply_writes_content [OF b new] by auto
qed

end

subsection \<open>Properties\<close>

text \<open>
  Above the level READ_UNCOMMITTED the writes of a transaction stay private: neither \<^verbatim>\<open>put\<close> nor
  \<^verbatim>\<open>remove\<close> nor an abort changes the database, and the transaction itself reads back what it
  wrote, whatever others did to the database in between.
\<close>

theorem tran_writes_private:
  assumes "isolation_level c \<noteq> READ_UNOP_COMMITTED"
  shows "snd (TranContext_put E c y k v) = y \<and> snd (TranContext_remove E c y k) = y \<and>
    engine (lsm (snd (snd (TranContext_abort E c y)))) = engine (lsm y) \<and>
    fst (TranContext_get E (fst (TranContext_put E c y k v)) y' k) = Some v"
  using assms by (simp add: TranContext_put_def TranContext_remove_def TranContext_abort_def TranContext_get_def Let_def)

lemma tran_writes_private_witness:
  "fst (TranContext_get (skiplist_engine (\<lambda>i. False))
     (fst (TranContext_put (skiplist_engine (\<lambda>i. False)) (TranContext_new 1 REPEATABLE_READ) \<lparr>lsm = sl_db, wal = (), activeTrans = []\<rparr> ''k'' ''v''))
     \<lparr>lsm = sl_db, wal = (), activeTrans = []\<rparr> ''k'') = Some ''v''"
  using tran_writes_private [of "TranContext_new 1 REPEATABLE_READ" "skiplist_engine (\<lambda>i. False)"
      "\<lparr>lsm = sl_db, wal = (), activeTrans = []\<rparr>" "''k''" "''v''" "\<lparr>lsm = sl_db, wal = (), activeTrans = []\<rparr>"]
  by (simp add: TranContext_new_def)



text \<open>
  C16: first committer wins: at REPEATABLE_READ and SERIALIZABLE a commit is refused when a key it wrote
  has a newer version in the memory tables. A refused commit leaves the stored data unchanged,
  logs nothing, and reports the transaction as aborted.
\<close>

theorem tran_commit_conflict:
  assumes "isolation_level c = REPEATABLE_READ \<or> isolation_level c = SERIALIZABLE"
    and "get_max_flushed_tranc_id (tran_manager (lsm y)) \<noteq> None"
    and "(k, v) \<in> set (temp_map c)" "k \<noteq> []"
    and "eng_mem_get E (engine (lsm y)) k 0 = Some (v', t)" "tc_tranc_id c < t"
  shows "\<exists>c' y'. TranContext_commit E log c y f = Some (Inr False, c', y') \<and> isAborted c' \<and>
    engine (lsm y') = engine (lsm y) \<and> wal y' = wal y \<and>
    (tc_tranc_id c, ABORTED) \<in> set (readyToFlushTrancIds (tran_manager (lsm y')))"
proof -
  have "mem_conflict E (engine (lsm y)) (tc_tranc_id c) k" using assms(4-6) by (simp add: mem_conflict_def)
  then have scan: "conflict_scan E (lsm y) (tc_tranc_id c) (temp_map c) = Some True"
    by (rule conflict_scan_True [OF assms(2,3)])
  have "TranContext_commit E log c y f =
      Some (Inr False, c\<lparr>isAborted := True\<rparr>, set_ready (tc_tranc_id c) ABORTED y)"
    using assms(1) scan by (auto simp: TranContext_commit_def Let_def)
  then show ?thesis by (auto simp: set_ready_def add_ready_to_flush_tranc_id_def in_map_put)
qed

lemma tran_commit_conflict_witness:
  "\<exists>c' y'. TranContext_commit (skiplist_engine (\<lambda>i. False)) (\<lambda>w rs. Some ())
     (fst (TranContext_put (skiplist_engine (\<lambda>i. False)) (TranContext_new 1 REPEATABLE_READ) \<lparr>lsm = sl_db, wal = (), activeTrans = []\<rparr> ''k'' ''mine''))
     \<lparr>lsm = sl_db\<lparr>engine := sl_put (\<lambda>i. False) (SkipList_new 16) ''k'' ''theirs'' 2\<rparr>, wal = (), activeTrans = []\<rparr> False
     = Some (Inr False, c', y')"
proof -
  let ?E = "skiplist_engine (\<lambda>i. False)"
  let ?c = "fst (TranContext_put ?E (TranContext_new 1 REPEATABLE_READ) \<lparr>lsm = sl_db, wal = (), activeTrans = []\<rparr> ''k'' ''mine'')"
  let ?y = "\<lparr>lsm = sl_db\<lparr>engine := sl_put (\<lambda>i. False) (SkipList_new 16) ''k'' ''theirs'' 2\<rparr>, wal = (), activeTrans = []\<rparr>"
  have c: "isolation_level ?c = REPEATABLE_READ" "(''k'', ''mine'') \<in> set (temp_map ?c)" "tc_tranc_id ?c = 1"
    by (simp_all add: TranContext_put_def TranContext_new_def Let_def umap_put_def)
  have m: "get_max_flushed_tranc_id (tran_manager (lsm ?y)) \<noteq> None"
    by (simp add: get_max_flushed_tranc_id_def sl_db_def TranManager_new_def)
  have "sl_find (sl_put (\<lambda>i. False) (SkipList_new 16) ''k'' ''theirs'' 2) ''k'' 0 = Some (''theirs'', 2)"
    by code_simp
  then have g: "eng_mem_get ?E (engine (lsm ?y)) ''k'' 0 = Some (''theirs'', 2)" by (simp add: skiplist_engine_def)
  have "tc_tranc_id ?c < 2" by (simp add: c(3))
  with tran_commit_conflict [OF disjI1 [OF c(1)] m c(2) _ g, of "\<lambda>w rs. Some ()" False]
  show ?thesis by auto
qed

text \<open>
  C7: a commit that is not refused installs all writes of the transaction at once: afterwards the
  database maps every key as if the buffered writes had been applied in order to the map it held
  before, a buffered empty value deleting its key. The log has received the operations
  followed by the commit record. This holds on every engine with the contract \<open>tran_engine\<close>, when
  no SST holds a version newer than the largest flushed id.
\<close>

theorem tran_commit_installs_writes:
  assumes "tran_engine E content bounded"
    and "isolation_level c = REPEATABLE_READ \<or> isolation_level c = SERIALIZABLE"
    and "bounded (engine (lsm y)) t" "unat (tc_tranc_id c) < t" "distinct (map fst (temp_map c))"
    and "[] \<notin> fst ` set (temp_map c)"
    and "\<And>k v i m. eng_sst_get E (engine (lsm y)) k 0 = Some (v, i) \<Longrightarrow>
           get_max_flushed_tranc_id (tran_manager (lsm y)) = Some m \<Longrightarrow> i \<le> m"
    and "TranContext_commit E log c y False = Some (Inr True, c', y')" "k \<noteq> []"
  shows "content (engine (lsm y')) k = kv_puts (temp_map c) (content (engine (lsm y))) k \<and>
    log (wal y) (operations c @ [commitRecord (tc_tranc_id c)]) = Some (wal y') \<and> isCommited c'"
proof -
  have "sst_flushed E y" using assms(7) by (auto simp: sst_flushed_def)
  from tran_engine.commit_effect [OF assms(1-6) this assms(8)] show ?thesis using assms(9) by blast
qed

lemma tran_commit_installs_writes_witness:
  "\<exists>c' y'. TranContext_commit (skiplist_engine (\<lambda>i. False)) (\<lambda>w rs. Some ())
       (fst (TranContext_put (skiplist_engine (\<lambda>i. False)) (TranContext_new 1 REPEATABLE_READ) \<lparr>lsm = sl_db, wal = (), activeTrans = []\<rparr> ''k'' ''v''))
       \<lparr>lsm = sl_db, wal = (), activeTrans = []\<rparr> False = Some (Inr True, c', y') \<and>
     sl_content (engine (lsm y')) ''k'' = Some ''v''"
proof -
  let ?E = "skiplist_engine (\<lambda>i. False)" and ?y = "\<lparr>lsm = sl_db, wal = (), activeTrans = []\<rparr>"
  let ?c = "fst (TranContext_put ?E (TranContext_new 1 REPEATABLE_READ) ?y ''k'' ''v'')"
  have c: "isolation_level ?c = REPEATABLE_READ" "temp_map ?c = [(''k'', ''v'')]" "tc_tranc_id ?c = 1"
    by (simp_all add: TranContext_put_def TranContext_new_def Let_def umap_put_def)
  have b: "sl_bounded (engine (lsm ?y)) 5" using sl_abs_new [of 16] by (auto simp: sl_bounded_def sl_db_def)
  have none: "sl_find (SkipList_new 16) ''k'' 0 = None" by code_simp
  have m: "eng_mem_get ?E (engine (lsm ?y)) ''k'' 0 = None" using none by (simp add: skiplist_engine_def sl_db_def)
  have f: "get_max_flushed_tranc_id (tran_manager (lsm ?y)) = Some 0"
    by (simp add: get_max_flushed_tranc_id_def sl_db_def TranManager_new_def)
  have sst: "eng_sst_get ?E s k i = None" for s k i by (simp add: skiplist_engine_def)
  have scan: "conflict_scan ?E (lsm ?y) 1 [(''k'', ''v'')] = Some False"
    using m f by (simp add: mem_conflict_def)
  have "\<exists>c' y'. TranContext_commit ?E (\<lambda>w rs. Some ()) ?c ?y False = Some (Inr True, c', y')"
    unfolding TranContext_commit_def Let_def c scan by (simp add: log_and_finish_def)
  then obtain c' y' where co: "TranContext_commit ?E (\<lambda>w rs. Some ()) ?c ?y False = Some (Inr True, c', y')" by blast
  have "sl_content (engine (lsm y')) ''k'' = kv_puts (temp_map ?c) (sl_content (engine (lsm ?y))) ''k'' \<and>
    (Some () = Some (wal y')) \<and> isCommited c'"
    by (rule tran_commit_installs_writes [OF sl_tran.tran_engine_axioms _ b _ _ _ _ co])
       (simp_all add: c sst)
  then have "sl_content (engine (lsm y')) ''k'' = Some ''v''" unfolding c by simp
  with co show ?thesis by blast
qed

text \<open>
  At READ_UNCOMMITTED an abort does not undo a key that was written twice: the second \<^verbatim>\<open>put\<close>
  overwrites the remembered old value with the transaction's own first write, and the abort
  restores that. Here the key did not exist before the transaction.
\<close>

theorem read_uncommitted_abort_leaks_write:
  "(case TranContext_put (skiplist_engine (\<lambda>i. False)) (TranContext_new 1 READ_UNOP_COMMITTED)
       \<lparr>lsm = sl_db, wal = (), activeTrans = []\<rparr> ''k'' ''first'' of (c1, y1) \<Rightarrow>
    case TranContext_put (skiplist_engine (\<lambda>i. False)) c1 y1 ''k'' ''second'' of (c2, y2) \<Rightarrow>
    case TranContext_abort (skiplist_engine (\<lambda>i. False)) c2 y2 of (r, c3, y3) \<Rightarrow>
      (sl_get (engine sl_db) ''k'' 0, sl_get (engine (lsm y3)) ''k'' 0)) = (None, Some (''first'', 1))"
  by code_simp

end
