(* ===== verification/Cpp_String.thy ===== *)
theory Cpp_String
  imports Lsm_Prelude
begin

text \<open>
  The parts of the C++ standard library the Redis layer and the server use on strings:
  \<^verbatim>\<open>std::to_string\<close>, \<^verbatim>\<open>std::stoi\<close> and \<^verbatim>\<open>std::stoll\<close>, \<^verbatim>\<open>std::getline\<close> with a delimiter, \<^verbatim>\<open>substr\<close>
  and \<^verbatim>\<open>find\<close>. Exceptions are values of \<open>cpp_error\<close>; \<open>Undefined\<close> stands for undefined behaviour.
\<close>

datatype cpp_error = Invalid_argument | Out_of_range | Undefined

type_synonym 'a cpp = "cpp_error + 'a"

definition cpp_bind :: "'a cpp \<Rightarrow> ('a \<Rightarrow> 'b cpp) \<Rightarrow> 'b cpp" where
  "cpp_bind x f = (case x of Inl e \<Rightarrow> Inl e | Inr a \<Rightarrow> f a)"

lemma cpp_bind_simps [simp]: "cpp_bind (Inl e) f = Inl e" "cpp_bind (Inr a) f = f a"
  by (simp_all add: cpp_bind_def)

subsection \<open>Decimal numbers\<close>

definition digit_char :: "nat \<Rightarrow> char" where
  "digit_char d = char_of (48 + d)"

definition is_digit :: "char \<Rightarrow> bool" where
  "is_digit c \<longleftrightarrow> 48 \<le> (of_char c :: nat) \<and> (of_char c :: nat) \<le> 57"

definition digit_val :: "char \<Rightarrow> nat" where
  "digit_val c = of_char c - 48"

fun nat_to_string :: "nat \<Rightarrow> string" where
  "nat_to_string n = (if n < 10 then [digit_char n] else nat_to_string (n div 10) @ [digit_char (n mod 10)])"

declare nat_to_string.simps [simp del]

definition to_string :: "int \<Rightarrow> string" where
  "to_string i = (if i < 0 then CHR ''-'' # nat_to_string (nat (- i)) else nat_to_string (nat i))"

definition digits_val :: "string \<Rightarrow> nat" where
  "digits_val ds = foldl (\<lambda>n c. 10 * n + digit_val c) 0 ds"

definition isspace :: "char \<Rightarrow> bool" where
  "isspace c \<longleftrightarrow> c = CHR '' '' \<or> (9 \<le> (of_char c :: nat) \<and> (of_char c :: nat) \<le> 13)"

text \<open>\<^verbatim>\<open>strtol\<close> on base ten: white space, an optional sign, the longest run of digits.\<close>

definition parse_sign :: "string \<Rightarrow> bool \<times> string" where
  "parse_sign s =
     (case s of
        [] \<Rightarrow> (False, [])
      | c # r \<Rightarrow> if c = CHR ''-'' then (True, r) else if c = CHR ''+'' then (False, r) else (False, s))"

definition sto_int :: "nat \<Rightarrow> string \<Rightarrow> int cpp" where
  "sto_int w s =
     (let (neg, r) = parse_sign (dropWhile isspace s);
          ds = takeWhile is_digit r;
          n = (if neg then - int (digits_val ds) else int (digits_val ds))
      in if ds = [] then Inl Invalid_argument
         else if - (2 ^ (w - 1)) \<le> n \<and> n < 2 ^ (w - 1) then Inr n
         else Inl Out_of_range)"

abbreviation stoi :: "string \<Rightarrow> int cpp" where "stoi \<equiv> sto_int 32"
abbreviation stoll :: "string \<Rightarrow> int cpp" where "stoll \<equiv> sto_int 64"

text \<open>Signed arithmetic that leaves the range of its type is undefined.\<close>

definition signed_range :: "nat \<Rightarrow> int \<Rightarrow> int cpp" where
  "signed_range w i = (if - (2 ^ (w - 1)) \<le> i \<and> i < 2 ^ (w - 1) then Inr i else Inl Undefined)"

text \<open>Conversion to \<^verbatim>\<open>int\<close> wraps around.\<close>

definition wrap_int :: "int \<Rightarrow> int" where
  "wrap_int i = (i + 2 ^ 31) mod 2 ^ 32 - 2 ^ 31"

lemma wrap_int_id [simp]: "- (2 ^ 31) \<le> i \<Longrightarrow> i < 2 ^ 31 \<Longrightarrow> wrap_int i = i"
  by (simp add: wrap_int_def)

lemma of_digit_char: "d < 10 \<Longrightarrow> of_char (digit_char d) = (48 + d :: nat)"
  by (simp add: digit_char_def)

lemma digit_char_simps [simp]:
  "d < 10 \<Longrightarrow> is_digit (digit_char d)" "d < 10 \<Longrightarrow> digit_val (digit_char d) = d"
  by (simp_all add: is_digit_def digit_val_def of_digit_char)

lemma nat_to_string_digits: "c \<in> set (nat_to_string n) \<Longrightarrow> is_digit c"
proof (induction n rule: nat_to_string.induct)
  case (1 n)
  then show ?case using 1(2) by (subst (asm) nat_to_string.simps) (auto split: if_splits)
qed

lemma nat_to_string_not_Nil [simp]: "nat_to_string n \<noteq> []"
  by (subst nat_to_string.simps) simp

lemma digits_val_nat_to_string [simp]: "digits_val (nat_to_string n) = n"
proof (induction n rule: nat_to_string.induct)
  case (1 n)
  show ?case
  proof (cases "n < 10")
    case True
    then show ?thesis by (subst nat_to_string.simps) (simp add: digits_val_def)
  next
    case False
    have "digits_val (nat_to_string n) = 10 * digits_val (nat_to_string (n div 10)) + n mod 10"
      by (subst nat_to_string.simps) (simp add: False digits_val_def)
    then show ?thesis using 1 [OF False] by simp
  qed
qed

lemma is_digit_not_special:
  assumes "is_digit c"
  shows "\<not> isspace c" "c \<noteq> CHR ''-''" "c \<noteq> CHR ''+''"
  using assms by (auto simp: is_digit_def isspace_def)

lemma to_string_not_Nil [simp]: "to_string i \<noteq> []"
  by (simp add: to_string_def)

lemma to_string_chars: "c \<in> set (to_string i) \<Longrightarrow> is_digit c \<or> c = CHR ''-''"
  by (auto simp: to_string_def dest: nat_to_string_digits split: if_splits)

text \<open>Reading back a printed number gives the number, when it fits; what follows the digits is ignored.\<close>

lemma sto_int_append:
  assumes "- (2 ^ (w - 1)) \<le> i" "i < 2 ^ (w - 1)" "r = [] \<or> \<not> is_digit (hd r)"
  shows "sto_int w (to_string i @ r) = Inr i"
proof -
  have "takeWhile is_digit r = []" using assms(3) by (cases r) auto
  then have tw: "takeWhile is_digit (nat_to_string n @ r) = nat_to_string n" for n
    by (simp add: takeWhile_append2 nat_to_string_digits)
  have ps: "parse_sign (dropWhile isspace (nat_to_string n @ r)) = (False, nat_to_string n @ r)" for n
  proof -
    obtain c cs where cr: "nat_to_string n = c # cs" by (cases "nat_to_string n") auto
    then have "is_digit c" using nat_to_string_digits [of c n] by simp
    then show ?thesis using cr is_digit_not_special [of c] by (simp add: parse_sign_def)
  qed
  have sp: "\<not> isspace CHR ''-''" by (simp add: isspace_def)
  show ?thesis
  proof (cases "i < 0")
    case True
    then have "parse_sign (dropWhile isspace (to_string i @ r)) = (True, nat_to_string (nat (- i)) @ r)"
      using sp by (simp add: to_string_def parse_sign_def)
    then show ?thesis using assms True by (simp add: sto_int_def tw)
  next
    case False
    then show ?thesis using assms by (simp add: sto_int_def to_string_def ps tw)
  qed
qed

lemma sto_int_to_string:
  assumes "- (2 ^ (w - 1)) \<le> i" "i < 2 ^ (w - 1)"
  shows "sto_int w (to_string i) = Inr i"
  using sto_int_append [OF assms, of "[]"] by simp

subsection \<open>Tokens\<close>

text \<open>
  Repeated \<^verbatim>\<open>std::getline\<close> with a delimiter: a last token that is empty is not delivered, so the
  empty string has no token and a trailing delimiter adds none.
\<close>

fun getlines :: "char \<Rightarrow> string \<Rightarrow> string \<Rightarrow> string list" where
  "getlines d tok [] = (if tok = [] then [] else [rev tok])"
| "getlines d tok (c # s) = (if c = d then rev tok # getlines d [] s else getlines d (c # tok) s)"

fun join_with :: "char \<Rightarrow> string list \<Rightarrow> string" where
  "join_with d [] = []"
| "join_with d [x] = x"
| "join_with d (x # y # xs) = x @ d # join_with d (y # xs)"

text \<open>A token that survives the round trip: not empty and free of the delimiter.\<close>

definition token :: "char \<Rightarrow> string \<Rightarrow> bool" where
  "token d x \<longleftrightarrow> x \<noteq> [] \<and> d \<notin> set x"

lemma getlines_token: "d \<notin> set x \<Longrightarrow> getlines d tok (x @ d # s) = (rev tok @ x) # getlines d [] s"
  by (induction x arbitrary: tok) auto

lemma getlines_last: "d \<notin> set x \<Longrightarrow> getlines d tok x = (if tok = [] \<and> x = [] then [] else [rev tok @ x])"
  by (induction x arbitrary: tok) auto

lemma getlines_join [simp]:
  "\<forall>x\<in>set xs. token d x \<Longrightarrow> getlines d [] (join_with d xs) = xs"
proof (induction d xs rule: join_with.induct)
  case (3 d x y xs)
  then show ?case by (simp add: getlines_token token_def)
qed (simp_all add: getlines_last token_def)

lemma join_with_Cons: "xs \<noteq> [] \<Longrightarrow> join_with d (x # xs) = x @ d # join_with d xs"
  by (cases xs) auto

lemma join_with_snoc: "xs \<noteq> [] \<Longrightarrow> join_with d (xs @ [x]) = join_with d xs @ d # x"
  by (induction d xs rule: join_with.induct) (auto simp: join_with_Cons)

lemma join_with_eq_Nil: "\<forall>x\<in>set xs. token d x \<Longrightarrow> join_with d xs = [] \<longleftrightarrow> xs = []"
  by (induction d xs rule: join_with.induct) (auto simp: token_def)

subsection \<open>Substrings\<close>

definition substr_from :: "string \<Rightarrow> nat \<Rightarrow> string cpp" where
  "substr_from s p = (if length s < p then Inl Out_of_range else Inr (drop p s))"

text \<open>\<^verbatim>\<open>s.find(p)\<close>: the first position where \<open>p\<close> occurs, counted from \<open>i\<close>.\<close>

fun find_from :: "string \<Rightarrow> nat \<Rightarrow> string \<Rightarrow> nat option" where
  "find_from p i [] = (if p = [] then Some i else None)"
| "find_from p i (c # s) = (if prefix p (c # s) then Some i else find_from p (Suc i) s)"

definition str_find :: "string \<Rightarrow> string \<Rightarrow> nat option" where
  "str_find s p = find_from p 0 s"

lemma find_from_ge: "find_from p i s = Some j \<Longrightarrow> i \<le> j"
  by (induction p i s rule: find_from.induct) (auto split: if_splits)

lemma str_find_0: "str_find s p = Some 0 \<longleftrightarrow> prefix p s"
  by (cases s) (auto simp: str_find_def dest: find_from_ge)

end
