(* ===== verification/Redis_Base.thy ===== *)
theory Redis_Base
  imports Skip_List_Engine Cpp_String
begin

text \<open>
  The Redis layer, \<^verbatim>\<open>src/redis_wrapper/redis_wrapper.cpp\<close>: key layout, expiry and the commands on
  plain strings. A command takes the engine operations \<open>E\<close>, the configuration, the current time
  in seconds and the database, and returns the reply, or the exception it throws, with
  the new database. The lock of the wrapper makes each command one step; the time it drops the
  shared lock to take the exclusive one is not modelled.
\<close>

record RedisConfig =
  redis_expire_header :: string
  redis_hash_value_preffix :: string
  redis_field_prefix :: string
  redis_field_separator :: char
  redis_list_separator :: char
  redis_sorted_set_prefix :: string
  redis_sorted_set_score_len :: int
  redis_set_prefix :: string

definition default_config :: RedisConfig where
  "default_config =
     \<lparr>redis_expire_header = ''REDIS_EXPIRE_'', redis_hash_value_preffix = ''REDIS_HASH_VALUE_'',
      redis_field_prefix = ''REDIS_FIELD_'', redis_field_separator = CHR ''$'',
      redis_list_separator = CHR ''#'', redis_sorted_set_prefix = ''REDIS_SORTED_SET_'',
      redis_sorted_set_score_len = 32, redis_set_prefix = ''REDIS_SET_''\<rparr>"

subsection \<open>Replies\<close>

definition crlf :: string where
  "crlf = [CHR 0x0D, CHR 0x0A]"

definition ok_reply :: string where
  "ok_reply = ''+OK'' @ crlf"

definition nil_reply :: string where
  "nil_reply = ''$-1'' @ crlf"

definition bulk_reply :: "string \<Rightarrow> string" where
  "bulk_reply v = ''$'' @ to_string (int (length v)) @ crlf @ v @ crlf"

definition int_reply :: "int \<Rightarrow> string" where
  "int_reply i = '':'' @ to_string i @ crlf"

definition array_reply :: "string list \<Rightarrow> string" where
  "array_reply xs = ''*'' @ to_string (int (length xs)) @ crlf @ concat (map bulk_reply xs)"

subsection \<open>Exceptions and state\<close>

definition and_then :: "'a cpp \<times> 's \<Rightarrow> ('a \<Rightarrow> 's \<Rightarrow> 'b cpp \<times> 's) \<Rightarrow> 'b cpp \<times> 's" where
  "and_then x f = (case x of (Inl e, s) \<Rightarrow> (Inl e, s) | (Inr a, s) \<Rightarrow> f a s)"

lemma and_then_simps [simp]: "and_then (Inl e, s) f = (Inl e, s)" "and_then (Inr a, s) f = f a s"
  by (simp_all add: and_then_def)

subsection \<open>Keys and values\<close>

definition split_str :: "string \<Rightarrow> char \<Rightarrow> string list" where
  "split_str str delimiter = getlines delimiter [] str"

definition join :: "string list \<Rightarrow> char \<Rightarrow> string" where
  "join elements delimiter = join_with delimiter elements"

definition get_fileds_from_hash_value :: "RedisConfig \<Rightarrow> string option \<Rightarrow> string list cpp" where
  "get_fileds_from_hash_value cfg field_list_opt =
     (let field_list = (case field_list_opt of None \<Rightarrow> [] | Some v \<Rightarrow> v)
      in cpp_bind (if field_list \<noteq> [] then substr_from field_list (length (redis_hash_value_preffix cfg)) else Inr field_list)
           (\<lambda>field_list. Inr (getlines (redis_field_separator cfg) [] field_list)))"

definition get_hash_value_from_fields :: "RedisConfig \<Rightarrow> string list \<Rightarrow> string" where
  "get_hash_value_from_fields cfg flds =
     redis_hash_value_preffix cfg @ join_with (redis_field_separator cfg) flds"

definition get_hash_filed_key :: "RedisConfig \<Rightarrow> string \<Rightarrow> string \<Rightarrow> string" where
  "get_hash_filed_key cfg key field = redis_field_prefix cfg @ key @ ''_'' @ field"

definition is_value_hash :: "RedisConfig \<Rightarrow> string \<Rightarrow> bool" where
  "is_value_hash cfg v \<longleftrightarrow> str_find v (redis_hash_value_preffix cfg) = Some 0"

definition get_explire_key :: "RedisConfig \<Rightarrow> string \<Rightarrow> string" where
  "get_explire_key cfg key = redis_expire_header cfg @ key"

definition is_expired :: "int \<Rightarrow> string option \<Rightarrow> bool cpp" where
  "is_expired now expire_str =
     (case expire_str of None \<Rightarrow> Inr False | Some e \<Rightarrow> cpp_bind (stoll e) (\<lambda>t. Inr (t < now)))"

definition get_expire_time :: "int \<Rightarrow> string \<Rightarrow> string cpp" where
  "get_expire_time now seconds_count =
     cpp_bind (stoll seconds_count) (\<lambda>time_add.
     cpp_bind (signed_range 64 (now + time_add)) (\<lambda>t. Inr (to_string t)))"

definition remove_fields :: "'s engine_ops \<Rightarrow> RedisConfig \<Rightarrow> 's LSM \<Rightarrow> string \<Rightarrow> string list \<Rightarrow> 's LSM" where
  "remove_fields E cfg s key flds =
     foldl (\<lambda>s field. LSM_remove E s (get_hash_filed_key cfg key field)) s flds"

subsection \<open>Strings\<close>

type_synonym 's redis = "string cpp \<times> 's LSM"

definition redis_incr :: "'s engine_ops \<Rightarrow> 's LSM \<Rightarrow> string \<Rightarrow> 's redis" where
  "redis_incr E s key =
     (case LSM_get E s key of (original_vale, s) \<Rightarrow>
        (case original_vale of
           None \<Rightarrow> (Inr ''1'', LSM_put E s key ''1'')
         | Some v \<Rightarrow>
             and_then (cpp_bind (stoll v) (\<lambda>i. signed_range 64 (i + 1)), s) (\<lambda>i s.
               (Inr (to_string i), LSM_put E s key (to_string i)))))"

definition redis_decr :: "'s engine_ops \<Rightarrow> 's LSM \<Rightarrow> string \<Rightarrow> 's redis" where
  "redis_decr E s key =
     (case LSM_get E s key of (original_vale, s) \<Rightarrow>
        (case original_vale of
           None \<Rightarrow> (Inr ''-1'', LSM_put E s key ''-1'')
         | Some v \<Rightarrow>
             and_then (cpp_bind (stoll v) (\<lambda>i. signed_range 64 (i - 1)), s) (\<lambda>i s.
               (Inr (to_string i), LSM_put E s key (to_string i)))))"

definition clear_expire :: "'s engine_ops \<Rightarrow> RedisConfig \<Rightarrow> 's LSM \<Rightarrow> string \<Rightarrow> 's LSM" where
  "clear_expire E cfg s key =
     (case LSM_get E s (get_explire_key cfg key) of (e, s) \<Rightarrow>
        if e \<noteq> None then LSM_remove E s (get_explire_key cfg key) else s)"

definition del_value :: "'s engine_ops \<Rightarrow> RedisConfig \<Rightarrow> 's LSM \<Rightarrow> string \<Rightarrow> bool cpp \<times> 's LSM" where
  "del_value E cfg s cur_key =
     (case LSM_get E s cur_key of (cur_value, s) \<Rightarrow>
        (case cur_value of
           None \<Rightarrow> (Inr False, s)
         | Some v \<Rightarrow>
             and_then
               (if is_value_hash cfg v
                then and_then (get_fileds_from_hash_value cfg cur_value, s) (\<lambda>flds s.
                       (Inr (), remove_fields E cfg s cur_key flds))
                else (Inr (), s))
               (\<lambda>_ s. (Inr True, LSM_remove E s cur_key))))"

fun del_keys :: "'s engine_ops \<Rightarrow> RedisConfig \<Rightarrow> 's LSM \<Rightarrow> int \<Rightarrow> string list \<Rightarrow> int cpp \<times> 's LSM" where
  "del_keys E cfg s del_count [] = (Inr del_count, s)"
| "del_keys E cfg s del_count (cur_key # ks) =
     and_then (del_value E cfg s cur_key) (\<lambda>deleted s.
       del_keys E cfg (clear_expire E cfg s cur_key) (if deleted then del_count + 1 else del_count) ks)"

definition redis_del :: "'s engine_ops \<Rightarrow> RedisConfig \<Rightarrow> 's LSM \<Rightarrow> string list \<Rightarrow> 's redis" where
  "redis_del E cfg s args =
     and_then (del_keys E cfg s 0 (drop 1 args)) (\<lambda>del_count s. (Inr (int_reply del_count), s))"

definition redis_expire :: "'s engine_ops \<Rightarrow> RedisConfig \<Rightarrow> int \<Rightarrow> 's LSM \<Rightarrow> string \<Rightarrow> string \<Rightarrow> 's redis" where
  "redis_expire E cfg now s key seconds_count =
     and_then (get_expire_time now seconds_count, s) (\<lambda>expire_time_str s.
       (Inr (int_reply 1), LSM_put E s (get_explire_key cfg key) expire_time_str))"

definition redis_set :: "'s engine_ops \<Rightarrow> RedisConfig \<Rightarrow> 's LSM \<Rightarrow> string \<Rightarrow> string \<Rightarrow> 's redis" where
  "redis_set E cfg s key value = (Inr ok_reply, clear_expire E cfg (LSM_put E s key value) key)"

definition redis_get :: "'s engine_ops \<Rightarrow> RedisConfig \<Rightarrow> int \<Rightarrow> 's LSM \<Rightarrow> string \<Rightarrow> 's redis" where
  "redis_get E cfg now s key =
     (case LSM_get E s key of (key_query, s) \<Rightarrow>
      case LSM_get E s (get_explire_key cfg key) of (expire_query, s) \<Rightarrow>
        (case key_query of
           Some v \<Rightarrow>
             if expire_query \<noteq> None
             then and_then (is_expired now expire_query, s) (\<lambda>expired s.
                    if expired
                    then (Inr nil_reply, LSM_remove E (LSM_remove E s key) (get_explire_key cfg key))
                    else (Inr (bulk_reply v), s))
             else (Inr (bulk_reply v), s)
         | None \<Rightarrow>
             (Inr nil_reply, if expire_query \<noteq> None then LSM_remove E s (get_explire_key cfg key) else s)))"

definition redis_ttl :: "'s engine_ops \<Rightarrow> RedisConfig \<Rightarrow> int \<Rightarrow> 's LSM \<Rightarrow> string \<Rightarrow> 's redis" where
  "redis_ttl E cfg now s key =
     (case LSM_get E s key of (key_query, s) \<Rightarrow>
      case LSM_get E s (get_explire_key cfg key) of (expire_query, s) \<Rightarrow>
        if key_query \<noteq> None
        then (case expire_query of
                Some e \<Rightarrow>
                  and_then (is_expired now expire_query, s) (\<lambda>expired s.
                    if expired then (Inr (int_reply (-2)), s)
                    else and_then (cpp_bind (stoll e) (\<lambda>t. signed_range 64 (t - now)), s) (\<lambda>d s.
                           (Inr (int_reply d), s)))
              | None \<Rightarrow> (Inr (int_reply (-1)), s))
        else (Inr (int_reply (-1)), s))"

subsection \<open>Running commands\<close>

text \<open>\<open>gives\<close>: the call returns the result \<open>r\<close> and leaves the map \<open>m\<close>, with \<open>n\<close> more operations possible.\<close>

definition gives :: "('s LSM \<Rightarrow> kv) \<Rightarrow> ('s LSM \<Rightarrow> nat \<Rightarrow> bool) \<Rightarrow> 'a \<times> 's LSM \<Rightarrow> 'a \<Rightarrow> kv \<Rightarrow> nat \<Rightarrow> bool" where
  "gives view can x r m n \<longleftrightarrow> fst x = r \<and> view (snd x) = m \<and> can (snd x) n"

lemma gives_and_then:
  assumes "gives view can x (Inr a) m n" "\<And>s. view s = m \<Longrightarrow> can s n \<Longrightarrow> gives view can (f a s) r m' n'"
  shows "gives view can (and_then x f) r m' n'"
  using assms by (cases x) (auto simp: gives_def)

lemma gives_and_then_error:
  assumes "gives view can x (Inl e) m n"
  shows "gives view can (and_then x f) (Inl e) m n"
  using assms by (cases x) (auto simp: gives_def)

lemma gives_case:
  assumes "gives view can x a m n" "\<And>s. view s = m \<Longrightarrow> can s n \<Longrightarrow> gives view can (f a s) r m' n'"
  shows "gives view can (case x of (a, s) \<Rightarrow> f a s) r m' n'"
  using assms by (cases x) (auto simp: gives_def)

lemma gives_return: "view s = m \<Longrightarrow> can s n \<Longrightarrow> gives view can (r, s) r m n"
  by (simp add: gives_def)

subsection \<open>Specifications\<close>

text \<open>A counter: a missing key counts as zero, other text is refused, the result stays within 64 bits.\<close>

definition counter_spec :: "int \<Rightarrow> kv \<Rightarrow> string \<Rightarrow> string cpp \<times> kv" where
  "counter_spec d m k =
     (case m k of
        None \<Rightarrow> (Inr (to_string d), kv_put k (to_string d) m)
      | Some v \<Rightarrow>
          (case cpp_bind (stoll v) (\<lambda>i. signed_range 64 (i + d)) of
             Inl e \<Rightarrow> (Inl e, m)
           | Inr j \<Rightarrow> (Inr (to_string j), kv_put k (to_string j) m)))"

text \<open>Deleting a key: with the fields its value lists, if it is a hash; then its expiry.\<close>

definition hash_fields :: "RedisConfig \<Rightarrow> string \<Rightarrow> string list" where
  "hash_fields cfg v =
     (if prefix (redis_hash_value_preffix cfg) v
      then getlines (redis_field_separator cfg) [] (drop (length (redis_hash_value_preffix cfg)) v) else [])"

definition del_map :: "RedisConfig \<Rightarrow> string \<Rightarrow> kv \<Rightarrow> kv" where
  "del_map cfg k m =
     (case m k of None \<Rightarrow> m
      | Some v \<Rightarrow> kv_del k (kv_dels (map (get_hash_filed_key cfg k) (hash_fields cfg v)) m))"

definition del_cost :: "RedisConfig \<Rightarrow> kv \<Rightarrow> string \<Rightarrow> nat" where
  "del_cost cfg m k = (case m k of None \<Rightarrow> 0 | Some v \<Rightarrow> length (hash_fields cfg v))"

fun del_spec :: "RedisConfig \<Rightarrow> string list \<Rightarrow> kv \<Rightarrow> int \<times> kv" where
  "del_spec cfg [] m = (0, m)"
| "del_spec cfg (k # ks) m =
     (let (c, m') = del_spec cfg ks (kv_del (get_explire_key cfg k) (del_map cfg k m))
      in (if m k \<noteq> None then c + 1 else c, m'))"

text \<open>The number of operations it takes: two lookups and two removals per key, and a removal per field.\<close>

fun del_budget :: "RedisConfig \<Rightarrow> string list \<Rightarrow> kv \<Rightarrow> nat" where
  "del_budget cfg [] m = 0"
| "del_budget cfg (k # ks) m =
     4 + del_cost cfg m k + del_budget cfg ks (kv_del (get_explire_key cfg k) (del_map cfg k m))"

lemma is_value_hash_prefix [simp]: "is_value_hash cfg v \<longleftrightarrow> prefix (redis_hash_value_preffix cfg) v"
  by (simp add: is_value_hash_def str_find_0)

lemma get_fileds_hash:
  "is_value_hash cfg v \<Longrightarrow> get_fileds_from_hash_value cfg (Some v) = Inr (hash_fields cfg v)"
  by (auto simp: get_fileds_from_hash_value_def hash_fields_def Let_def substr_from_def dest: prefix_length_le)

text \<open>A deadline, and whether it has passed.\<close>

definition late :: "int \<Rightarrow> int option \<Rightarrow> bool" where
  "late now d \<longleftrightarrow> (case d of Some t \<Rightarrow> t < now | None \<Rightarrow> False)"

definition deadline_ok :: "int option \<Rightarrow> bool" where
  "deadline_ok d \<longleftrightarrow> (case d of Some t \<Rightarrow> - (2 ^ 63) \<le> t \<and> t < 2 ^ 63 | None \<Rightarrow> True)"

lemma is_expired_deadline: "deadline_ok d \<Longrightarrow> is_expired now (map_option to_string d) = Inr (late now d)"
  using sto_int_to_string [of 64] by (cases d) (auto simp: is_expired_def deadline_ok_def late_def)

text \<open>
  The Redis layer needs, beyond a store, that the prefixes of its internal keys cannot be confused.
\<close>

locale redis_store = lsm_store E view can
  for E :: "'s engine_ops" and view :: "'s LSM \<Rightarrow> kv" and can :: "'s LSM \<Rightarrow> nat \<Rightarrow> bool" +
  fixes cfg :: RedisConfig
  assumes header_nonempty: "redis_expire_header cfg \<noteq> []"
    and header_field: "redis_expire_header cfg \<parallel> redis_field_prefix cfg"
    and header_zset: "redis_expire_header cfg \<parallel> redis_sorted_set_prefix cfg"
    and header_set: "redis_expire_header cfg \<parallel> redis_set_prefix cfg"
begin

lemma expire_key_neq [simp]: "get_explire_key cfg k \<noteq> k" "k \<noteq> get_explire_key cfg k"
  using header_nonempty by (auto simp: get_explire_key_def)

lemma field_key_neq [simp]: "get_hash_filed_key cfg k f \<noteq> k" "k \<noteq> get_hash_filed_key cfg k f"
  by (auto simp: get_hash_filed_key_def dest: arg_cong [of _ _ length])

lemma field_key_expire [simp]:
  "get_hash_filed_key cfg k f \<noteq> get_explire_key cfg k'" "get_explire_key cfg k' \<noteq> get_hash_filed_key cfg k f"
  using parallel_append [OF header_field, of k' "k @ ''_'' @ f"]
  by (auto simp: get_hash_filed_key_def get_explire_key_def)

lemma field_key_inj [simp]: "get_hash_filed_key cfg k f = get_hash_filed_key cfg k f' \<longleftrightarrow> f = f'"
  by (simp add: get_hash_filed_key_def)

lemma get_gives: "can s (Suc n) \<Longrightarrow> gives view can (LSM_get E s k) (view s k) (view s) n"
  using get_law [of s n k] by (simp add: gives_def)

lemma can_le: "can s (n + a) \<Longrightarrow> b \<le> a \<Longrightarrow> can s (n + b)"
  by (erule can_less) simp

lemma put_can: "can s (Suc n) \<Longrightarrow> view (LSM_put E s k v) = kv_put k v (view s)" "can s (Suc n) \<Longrightarrow> can (LSM_put E s k v) n"
  using put_law by auto

lemma remove_can: "can s (Suc n) \<Longrightarrow> view (LSM_remove E s k) = kv_del k (view s)" "can s (Suc n) \<Longrightarrow> can (LSM_remove E s k) n"
  using remove_law by auto

lemma clear_expire_ok:
  assumes "can s (Suc (Suc n))"
  shows "view (clear_expire E cfg s k) = kv_del (get_explire_key cfg k) (view s)" "can (clear_expire E cfg s k) n"
proof -
  let ?e = "get_explire_key cfg k"
  obtain s' where g: "LSM_get E s ?e = (view s ?e, s')" "view s' = view s" "can s' (Suc n)" by (rule get_cases [OF assms])
  have n: "can s' n" by (rule can_less [OF g(3)]) simp
  have "view s = kv_del ?e (view s)" if "view s ?e = None" using that by (auto simp: kv_del_def)
  then show "view (clear_expire E cfg s k) = kv_del ?e (view s)" "can (clear_expire E cfg s k) n"
    using g remove_can [OF g(3)] n by (auto simp: clear_expire_def simp del: kv_del_apply)
qed

lemma remove_fields_ok:
  assumes "can s (n + length fs)"
  shows "view (remove_fields E cfg s k fs) = kv_dels (map (get_hash_filed_key cfg k) fs) (view s) \<and>
    can (remove_fields E cfg s k fs) n"
  using assms
proof (induction fs arbitrary: s)
  case (Cons f fs)
  then have "can s (Suc (n + length fs))" by simp
  note r = remove_can [OF this, of "get_hash_filed_key cfg k f"]
  show ?case using Cons.IH [OF r(2)] r(1) by (simp add: remove_fields_def del: kv_del_apply kv_dels_apply)
qed (simp add: remove_fields_def)

lemma set_ok:
  assumes "can s (n + 3)"
  shows "gives view can (redis_set E cfg s k v) (Inr ok_reply) (kv_del (get_explire_key cfg k) (kv_put k v (view s))) n"
proof -
  have "can s (Suc (Suc (Suc n)))" using assms by (simp add: numeral_3_eq_3)
  note p = put_can [OF this]
  show ?thesis unfolding redis_set_def
    by (rule gives_return) (use clear_expire_ok [OF p(2), of k v k] p(1) in \<open>simp_all del: kv_put_apply kv_del_apply\<close>)
qed

lemma get_two_cases:
  assumes "can s (Suc (Suc n))"
  obtains s1 s2 where "LSM_get E s k = (view s k, s1)" "LSM_get E s1 k' = (view s k', s2)" "view s2 = view s" "can s2 n"
proof -
  obtain s1 where 1: "LSM_get E s k = (view s k, s1)" "view s1 = view s" "can s1 (Suc n)" by (rule get_cases [OF assms])
  obtain s2 where 2: "LSM_get E s1 k' = (view s1 k', s2)" "view s2 = view s1" "can s2 n" by (rule get_cases [OF 1(3)])
  show thesis by (rule that [of s1 s2]) (simp_all add: 1 2)
qed

text \<open>The three outcomes of a lookup.\<close>

lemma get_live:
  assumes "can s (n + 2)" "view s k = Some v" "is_expired now (view s (get_explire_key cfg k)) = Inr False"
  shows "gives view can (redis_get E cfg now s k) (Inr (bulk_reply v)) (view s) n"
proof -
  have "can s (Suc (Suc n))" using assms(1) by simp
  then obtain s1 s2 where g: "LSM_get E s k = (view s k, s1)" "view s2 = view s" "can s2 n"
      "LSM_get E s1 (get_explire_key cfg k) = (view s (get_explire_key cfg k), s2)"
    by (rule get_two_cases [of s n k "get_explire_key cfg k"]) simp
  then show ?thesis using assms(2,3) by (auto simp: gives_def redis_get_def)
qed

lemma get_expired:
  assumes "can s (n + 4)" "view s k = Some v" "is_expired now (view s (get_explire_key cfg k)) = Inr True"
  shows "gives view can (redis_get E cfg now s k) (Inr nil_reply) (kv_del (get_explire_key cfg k) (kv_del k (view s))) n"
proof -
  have "can s (Suc (Suc (Suc (Suc n))))" using assms(1) by (simp add: numeral_eq_Suc)
  then obtain s1 s2 where g: "LSM_get E s k = (view s k, s1)" "view s2 = view s" "can s2 (Suc (Suc n))"
      "LSM_get E s1 (get_explire_key cfg k) = (view s (get_explire_key cfg k), s2)"
    by (rule get_two_cases [of s "Suc (Suc n)" k "get_explire_key cfg k"]) simp
  note r1 = remove_can [OF g(3), of k]
  note r2 = remove_can [OF r1(2), of "get_explire_key cfg k"]
  have "view s (get_explire_key cfg k) \<noteq> None" using assms(3) by (auto simp: is_expired_def split: option.splits)
  then show ?thesis using assms(2,3) g r1(1) r2 by (auto simp: gives_def redis_get_def)
qed

lemma get_missing:
  assumes "can s (n + 3)" "view s k = None"
  shows "gives view can (redis_get E cfg now s k) (Inr nil_reply) (kv_del (get_explire_key cfg k) (view s)) n"
proof -
  have "can s (Suc (Suc (Suc n)))" using assms(1) by (simp add: numeral_eq_Suc)
  then obtain s1 s2 where g: "LSM_get E s k = (view s k, s1)" "view s2 = view s" "can s2 (Suc n)"
      "LSM_get E s1 (get_explire_key cfg k) = (view s (get_explire_key cfg k), s2)"
    by (rule get_two_cases [of s "Suc n" k "get_explire_key cfg k"]) simp
  note r1 = remove_can [OF g(3), of "get_explire_key cfg k"]
  have n: "can s2 n" by (rule can_less [OF g(3)]) simp
  have "kv_del (get_explire_key cfg k) (view s) = view s" if "view s (get_explire_key cfg k) = None"
    using that by (auto simp: kv_del_def)
  then show ?thesis using assms(2) g r1 n by (auto simp: gives_def redis_get_def simp del: kv_del_apply)
qed

lemma set_get_ok:
  assumes "can s (n + 5)" "v \<noteq> []"
  shows "gives view can (and_then (redis_set E cfg s k v) (\<lambda>_ s. redis_get E cfg now s k)) (Inr (bulk_reply v))
    (kv_del (get_explire_key cfg k) (kv_put k v (view s))) n"
proof (rule gives_and_then)
  have "can s ((n + 2) + 3)" using assms(1) by (simp add: add.commute)
  then show "gives view can (redis_set E cfg s k v) (Inr ok_reply) (kv_del (get_explire_key cfg k) (kv_put k v (view s))) (n + 2)"
    by (rule set_ok)
  fix s' assume s': "view s' = kv_del (get_explire_key cfg k) (kv_put k v (view s))" "can s' (n + 2)"
  then have "view s' k = Some v" "view s' (get_explire_key cfg k) = None" using assms(2) by (auto simp: s')
  then show "gives view can (redis_get E cfg now s' k) (Inr (bulk_reply v))
      (kv_del (get_explire_key cfg k) (kv_put k v (view s))) n"
    using get_live [OF s'(2), of k v now] s'(1) by (simp add: is_expired_def)
qed

lemma ttl_ok:
  assumes "can s (n + 2)"
  shows "gives view can (redis_ttl E cfg now s k)
    (if view s k = None then Inr (int_reply (-1)) else
     case view s (get_explire_key cfg k) of None \<Rightarrow> Inr (int_reply (-1)) | Some e \<Rightarrow>
       cpp_bind (stoll e) (\<lambda>t. if t < now then Inr (int_reply (-2))
         else cpp_bind (signed_range 64 (t - now)) (\<lambda>d. Inr (int_reply d)))) (view s) n"
proof -
  have "can s (Suc (Suc n))" using assms(1) by simp
  then obtain s1 s2 where g: "LSM_get E s k = (view s k, s1)" "view s2 = view s" "can s2 n"
      "LSM_get E s1 (get_explire_key cfg k) = (view s (get_explire_key cfg k), s2)"
    by (rule get_two_cases [of s n k "get_explire_key cfg k"]) simp
  show ?thesis
  proof (cases "view s (get_explire_key cfg k)")
    case None
    then show ?thesis using g by (auto simp: gives_def redis_ttl_def)
  next
    case (Some e)
    show ?thesis
    proof (cases "stoll e")
      case (Inl x)
      then show ?thesis using g Some by (auto simp: gives_def redis_ttl_def is_expired_def)
    next
      case (Inr t)
      then show ?thesis using g Some
        by (cases "signed_range 64 (t - now)") (auto simp: gives_def redis_ttl_def is_expired_def)
    qed
  qed
qed

lemma expire_ok:
  assumes "can s (n + 1)" "stoll sec = Inr t" "- (2 ^ 63) \<le> now + t" "now + t < 2 ^ 63"
  shows "gives view can (redis_expire E cfg now s k sec) (Inr (int_reply 1))
    (kv_put (get_explire_key cfg k) (to_string (now + t)) (view s)) n"
  using assms put_can [of s n "get_explire_key cfg k" "to_string (now + t)"]
  by (simp add: redis_expire_def get_expire_time_def signed_range_def gives_def del: kv_put_apply)

text \<open>Counters.\<close>

lemma incr_decr_ok:
  assumes "can s (n + 2)"
  shows "gives view can (redis_incr E s k) (fst (counter_spec 1 (view s) k)) (snd (counter_spec 1 (view s) k)) n"
    and "gives view can (redis_decr E s k) (fst (counter_spec (- 1) (view s) k)) (snd (counter_spec (- 1) (view s) k)) n"
proof -
  have "can s (Suc (Suc n))" using assms(1) by simp
  then obtain s1 where g: "LSM_get E s k = (view s k, s1)" "view s1 = view s" "can s1 (Suc n)" by (rule get_cases)
  have n: "can s1 n" by (rule can_less [OF g(3)]) simp
  have one: "to_string 1 = ''1''" "to_string (- 1) = ''-1''" by code_simp+
  note p = put_can [OF g(3)]
  note unf = counter_spec_def redis_incr_def redis_decr_def gives_def
  show "gives view can (redis_incr E s k) (fst (counter_spec 1 (view s) k)) (snd (counter_spec 1 (view s) k)) n"
    using g p n one by (auto simp: unf split: option.splits sum.splits simp del: kv_put_apply)
  show "gives view can (redis_decr E s k) (fst (counter_spec (- 1) (view s) k)) (snd (counter_spec (- 1) (view s) k)) n"
    using g p n one by (auto simp: unf split: option.splits sum.splits simp del: kv_put_apply)
qed

text \<open>Deletion.\<close>

lemma del_value_ok:
  assumes "can s (n + 2 + del_cost cfg (view s) k)"
  shows "gives view can (del_value E cfg s k) (Inr (view s k \<noteq> None)) (del_map cfg k (view s)) n"
proof -
  have "can s (Suc (n + 1 + del_cost cfg (view s) k))" using assms by simp
  then obtain s1 where g: "LSM_get E s k = (view s k, s1)" "view s1 = view s"
    "can s1 (n + 1 + del_cost cfg (view s) k)" by (rule get_cases)
  show ?thesis
  proof (cases "view s k")
    case None
    have "can s1 n" by (rule can_less [OF g(3)]) simp
    moreover have "kv_del k (view s) = view s" using None by (auto simp: kv_del_def)
    ultimately show ?thesis using None g by (simp add: del_value_def gives_def del_map_def)
  next
    case (Some v)
    have n: "can s1 (Suc n + length (hash_fields cfg v))" using g(3) Some by (simp add: del_cost_def)
    note r = remove_fields_ok [OF n, of k]
    note r2 = remove_can [OF conjunct2 [OF r], of k]
    show ?thesis
    proof (cases "is_value_hash cfg v")
      case True
      then have "get_fileds_from_hash_value cfg (Some v) = Inr (hash_fields cfg v)" by (rule get_fileds_hash)
      then show ?thesis using True g Some r r2
        by (simp add: del_value_def gives_def del_map_def del: kv_del_apply kv_dels_apply)
    next
      case False
      then have "hash_fields cfg v = []" by (simp add: hash_fields_def)
      then show ?thesis using False g Some n remove_can [of s1 n k]
        by (simp add: del_value_def gives_def del_map_def kv_dels_def del: kv_del_apply kv_dels_apply)
    qed
  qed
qed

lemma del_keys_ok:
  "can s (n + del_budget cfg ks (view s)) \<Longrightarrow>
   gives view can (del_keys E cfg s i ks) (Inr (i + fst (del_spec cfg ks (view s)))) (snd (del_spec cfg ks (view s))) n"
proof (induction ks arbitrary: s i)
  case Nil
  then show ?case by (simp add: gives_def)
next
  case (Cons k ks)
  let ?s = "clear_expire E cfg (snd (del_value E cfg s k)) k"
  let ?m = "kv_del (get_explire_key cfg k) (del_map cfg k (view s))"
  let ?n = "n + del_budget cfg ks ?m"
  have "can s ((Suc (Suc ?n)) + 2 + del_cost cfg (view s) k)"
    using Cons.prems by (simp add: ac_simps numeral_eq_Suc del: kv_del_apply)
  note d = del_value_ok [OF this]
  have d1: "fst (del_value E cfg s k) = Inr (view s k \<noteq> None)" and d2: "can (snd (del_value E cfg s k)) (Suc (Suc ?n))"
    and d3: "view (snd (del_value E cfg s k)) = del_map cfg k (view s)" using d by (auto simp: gives_def)
  note e = clear_expire_ok [OF d2, of k]
  have v: "view ?s = ?m" using e(1) d3 by simp
  have "can ?s (n + del_budget cfg ks (view ?s))" using e(2) v by simp
  note c = Cons.IH [OF this, unfolded v]
  have "del_keys E cfg s i (k # ks) = del_keys E cfg ?s (if view s k \<noteq> None then i + 1 else i) ks"
    using d1 by (cases "del_value E cfg s k") auto
  then show ?case using c [of "if view s k \<noteq> None then i + 1 else i"]
    by (cases "view s k") (simp_all add: split_beta Let_def ac_simps del: kv_del_apply)
qed

lemma del_keys_reply:
  assumes "can s (n + del_budget cfg ks (view s))"
  shows "gives view can (redis_del E cfg s (cmd # ks)) (Inr (int_reply (fst (del_spec cfg ks (view s)))))
    (snd (del_spec cfg ks (view s))) n"
  unfolding redis_del_def by (rule gives_and_then [OF del_keys_ok [where i = 0]]) (use assms in \<open>auto intro: gives_return\<close>)

end

text \<open>The default configuration on the skip list engine.\<close>

interpretation sl_redis: redis_store "skiplist_engine flips" "lsm_view sl_content" "lsm_can sl_bounded" default_config
proof unfold_locales
  show "redis_expire_header default_config \<noteq> []" by (simp add: default_config_def)
  show "redis_expire_header default_config \<parallel> redis_field_prefix default_config"
    "redis_expire_header default_config \<parallel> redis_sorted_set_prefix default_config"
    "redis_expire_header default_config \<parallel> redis_set_prefix default_config"
    by (simp_all add: default_config_def parallel_def)
qed


lemma del_spec_keeps_None: "m k = None \<Longrightarrow> snd (del_spec cfg ks m) k = None"
  by (induction ks arbitrary: m) (auto simp: split_beta Let_def del_map_def split: option.splits)

lemma del_spec_removes:
  "k \<in> set ks \<Longrightarrow> snd (del_spec cfg ks m) k = None \<and> snd (del_spec cfg ks m) (get_explire_key cfg k) = None"
proof (induction ks arbitrary: m)
  case (Cons k' ks)
  show ?case
  proof (cases "k = k'")
    case True
    have "kv_del (get_explire_key cfg k) (del_map cfg k m) k = None" by (auto simp: del_map_def split: option.splits)
    then show ?thesis using True by (simp add: split_beta Let_def del_spec_keeps_None)
  next
    case False
    then show ?thesis using Cons by (simp add: split_beta Let_def)
  qed
qed simp

subsection \<open>Properties\<close>

text \<open>
  SET followed by GET answers the value that was set, at any time: SET also forgets an earlier
  expiry. The rest of the database is unchanged.
\<close>

theorem redis_set_get:
  assumes "redis_store E view can cfg" "can s (n + 5)" "v \<noteq> []"
  shows "gives view can (and_then (redis_set E cfg s k v) (\<lambda>_ s. redis_get E cfg now s k)) (Inr (bulk_reply v))
    (kv_del (get_explire_key cfg k) (kv_put k v (view s))) n"
  by (rule redis_store.set_get_ok [OF assms])

lemma redis_set_get_witness:
  "gives (lsm_view sl_content) (lsm_can sl_bounded)
     (and_then (redis_set (skiplist_engine (\<lambda>i. False)) default_config sl_db ''k'' ''v'')
       (\<lambda>_ s. redis_get (skiplist_engine (\<lambda>i. False)) default_config 7 s ''k'')) (Inr (bulk_reply ''v''))
     (kv_del (get_explire_key default_config ''k'') (kv_put ''k'' ''v'' (lsm_view sl_content sl_db))) 10"
  by (rule redis_set_get [OF sl_redis.redis_store_axioms sl_db_can]) simp_all

text \<open>
  EXPIRE gives a key a deadline: a later GET answers the value up to and including that second;
  afterwards it answers that there is none and removes the key together with its deadline.
\<close>

theorem redis_expire_get:
  assumes "redis_store E view can cfg" "can s (n + 5)" "view s k = Some v"
    and "stoll sec = Inr t" "- (2 ^ 63) \<le> now + t" "now + t < 2 ^ 63"
  shows "gives view can (and_then (redis_expire E cfg now s k sec) (\<lambda>_ s. redis_get E cfg now' s k))
      (Inr (if now + t < now' then nil_reply else bulk_reply v))
      (if now + t < now' then kv_del (get_explire_key cfg k) (kv_del k (view s))
       else kv_put (get_explire_key cfg k) (to_string (now + t)) (view s)) n"
proof (rule gives_and_then)
  let ?m = "kv_put (get_explire_key cfg k) (to_string (now + t)) (view s)"
  have "can s ((n + 4) + 1)" using assms(2) by (simp add: add.commute)
  then show "gives view can (redis_expire E cfg now s k sec) (Inr (int_reply 1)) ?m (n + 4)"
    by (rule redis_store.expire_ok [OF assms(1) _ assms(4-6)])
  fix s' assume s': "view s' = ?m" "can s' (n + 4)"
  have st: "stoll (to_string (now + t)) = Inr (now + t)" using assms(5,6) by (intro sto_int_to_string) simp_all
  have m: "?m k = Some v" "?m (get_explire_key cfg k) = Some (to_string (now + t))"
    using assms(3) redis_store.expire_key_neq [OF assms(1), of k] by simp_all
  have e: "is_expired now' (view s' (get_explire_key cfg k)) = Inr (now + t < now')"
    using st by (simp add: s'(1) m is_expired_def)
  have del: "kv_del (get_explire_key cfg k) (kv_del k ?m) = kv_del (get_explire_key cfg k) (kv_del k (view s))"
    by (auto simp: kv_del_def kv_put_def)
  show "gives view can (redis_get E cfg now' s' k) (Inr (if now + t < now' then nil_reply else bulk_reply v))
      (if now + t < now' then kv_del (get_explire_key cfg k) (kv_del k (view s)) else ?m) n"
  proof (cases "now + t < now'")
    case True
    then show ?thesis using redis_store.get_expired [OF assms(1) s'(2), of k v now'] e m del unfolding s'(1) by simp
  next
    case False
    have "can s' (n + 2)" by (rule redis_store.can_le [OF assms(1) s'(2)]) simp
    then show ?thesis using redis_store.get_live [OF assms(1), of s' n k v now'] e m False unfolding s'(1) by simp
  qed
qed

lemma redis_expire_get_witness:
  "fst (and_then (redis_expire (skiplist_engine (\<lambda>i. False)) default_config 100
        (LSM_put (skiplist_engine (\<lambda>i. False)) sl_db ''k'' ''v'') ''k'' ''60'')
      (\<lambda>_ s. redis_get (skiplist_engine (\<lambda>i. False)) default_config 161 s ''k'')) = Inr nil_reply"
proof -
  let ?s = "LSM_put (skiplist_engine (\<lambda>i. False)) sl_db ''k'' ''v''"
  have c: "lsm_can sl_bounded sl_db (Suc (10 + 5))" by (rule sl_db_can) simp
  note p = sl_redis.put_can [where flips = "\<lambda>i. False", OF c, of "''k''" "''v''"]
  have v: "lsm_view sl_content ?s ''k'' = Some ''v''" by (simp add: p(1))
  have t: "stoll ''60'' = Inr 60" by code_simp
  show ?thesis
    using redis_expire_get [where now' = 161 and now = 100, OF sl_redis.redis_store_axioms p(2) v t] by (simp add: gives_def)
qed

text \<open>
  Right after EXPIRE with a deadline that has not passed, TTL answers the number of seconds that was
  asked for; the database is not changed by the query.
\<close>

theorem redis_expire_ttl:
  assumes "redis_store E view can cfg" "can s (n + 3)" "view s k = Some v"
    and "stoll sec = Inr t" "0 \<le> t" "0 \<le> now" "now + t < 2 ^ 63"
  shows "gives view can (and_then (redis_expire E cfg now s k sec) (\<lambda>_ s. redis_ttl E cfg now s k))
    (Inr (int_reply t)) (kv_put (get_explire_key cfg k) (to_string (now + t)) (view s)) n"
proof (rule gives_and_then)
  let ?m = "kv_put (get_explire_key cfg k) (to_string (now + t)) (view s)"
  have "can s ((n + 2) + 1)" "- (2 ^ 63) \<le> now + t" using assms(2,5,6) by (simp_all add: numeral_eq_Suc)
  then show "gives view can (redis_expire E cfg now s k sec) (Inr (int_reply 1)) ?m (n + 2)"
    by (rule redis_store.expire_ok [OF assms(1) _ assms(4) _ assms(7)])
  fix s' assume s': "view s' = ?m" "can s' (n + 2)"
  have st: "stoll (to_string (now + t)) = Inr (now + t)" using assms(5-7) by (intro sto_int_to_string) simp_all
  have m: "?m k = Some v" "?m (get_explire_key cfg k) = Some (to_string (now + t))"
    using assms(3) redis_store.expire_key_neq [OF assms(1), of k] by simp_all
  have "signed_range 64 (now + t - now) = Inr t" using assms(5-7) by (simp add: signed_range_def)
  then show "gives view can (redis_ttl E cfg now s' k) (Inr (int_reply t)) ?m n"
    using redis_store.ttl_ok [OF assms(1) s'(2), of now k] m st assms(5) unfolding s'(1) by simp
qed

lemma redis_expire_ttl_witness:
  "fst (and_then (redis_expire (skiplist_engine (\<lambda>i. False)) default_config 100
        (LSM_put (skiplist_engine (\<lambda>i. False)) sl_db ''k'' ''v'') ''k'' ''60'')
      (\<lambda>_ s. redis_ttl (skiplist_engine (\<lambda>i. False)) default_config 100 s ''k'')) = Inr (int_reply 60)"
proof -
  let ?s = "LSM_put (skiplist_engine (\<lambda>i. False)) sl_db ''k'' ''v''"
  have c: "lsm_can sl_bounded sl_db (Suc (10 + 3))" by (rule sl_db_can) simp
  note p = sl_redis.put_can [where flips = "\<lambda>i. False", OF c, of "''k''" "''v''"]
  have v: "lsm_view sl_content ?s ''k'' = Some ''v''" by (simp add: p(1))
  have t: "stoll ''60'' = Inr 60" by code_simp
  show ?thesis
    using redis_expire_ttl [where now = 100, OF sl_redis.redis_store_axioms p(2) v t] by (simp add: gives_def)
qed

text \<open>
  INCR and DECR refine a counter: a missing key starts from zero, text that is no number raises the
  exception of \<^verbatim>\<open>std::stoll\<close> and changes nothing, and otherwise the number one up or down is both
  stored and answered, so that a stored number \<open>i\<close> is read back as \<open>i\<close> by the next command.
\<close>

theorem redis_counter_refines:
  assumes "redis_store E view can cfg" "can s (n + 2)"
  shows "gives view can (redis_incr E s k) (fst (counter_spec 1 (view s) k)) (snd (counter_spec 1 (view s) k)) n \<and>
    gives view can (redis_decr E s k) (fst (counter_spec (- 1) (view s) k)) (snd (counter_spec (- 1) (view s) k)) n \<and>
    (\<forall>i d. view s k = Some (to_string i) \<longrightarrow> - (2 ^ 63) \<le> i \<and> i < 2 ^ 63 \<and> - (2 ^ 63) \<le> i + d \<and> i + d < 2 ^ 63 \<longrightarrow>
       counter_spec d (view s) k = (Inr (to_string (i + d)), kv_put k (to_string (i + d)) (view s)))"
  using redis_store.incr_decr_ok [OF assms, of k] sto_int_to_string [of 64]
  by (simp add: counter_spec_def signed_range_def del: kv_put_apply)

lemma redis_counter_refines_witness:
  "fst (redis_incr (skiplist_engine (\<lambda>i. False)) sl_db ''k'') = Inr ''1''"
proof -
  have "lsm_can sl_bounded sl_db (0 + 2)" by (rule sl_db_can) simp
  note r = redis_counter_refines [OF sl_redis.redis_store_axioms [of "\<lambda>i. False"] this, of "''k''"]
  have "to_string 1 = ''1''" by code_simp
  then show ?thesis using r by (simp add: gives_def counter_spec_def sl_db_view)
qed

text \<open>
  DEL removes every key it is given, with its deadline and, if it is a hash, with the fields it
  lists, and answers how many of the keys existed. It does not throw.
\<close>

theorem redis_del_refines:
  assumes "redis_store E view can cfg" "k \<in> set ks" "can s (n + del_budget cfg ks (view s))"
  shows "gives view can (redis_del E cfg s (cmd # ks)) (Inr (int_reply (fst (del_spec cfg ks (view s)))))
      (snd (del_spec cfg ks (view s))) n \<and>
    snd (del_spec cfg ks (view s)) k = None \<and> snd (del_spec cfg ks (view s)) (get_explire_key cfg k) = None"
proof -
  have "gives view can (redis_del E cfg s (cmd # ks)) (Inr (int_reply (fst (del_spec cfg ks (view s)))))
        (snd (del_spec cfg ks (view s))) n"
    by (rule redis_store.del_keys_reply [OF assms(1,3)])
  then show ?thesis using del_spec_removes [OF assms(2)] by blast
qed

lemma redis_del_refines_witness:
  "fst (redis_del (skiplist_engine (\<lambda>i. False)) default_config
     (LSM_put (skiplist_engine (\<lambda>i. False)) sl_db ''k'' ''v'') [''DEL'', ''k'', ''j'']) = Inr (int_reply 1)"
proof -
  let ?s = "LSM_put (skiplist_engine (\<lambda>i. False)) sl_db ''k'' ''v''"
  have c: "lsm_can sl_bounded sl_db (Suc (8 + 8))" by (rule sl_db_can) simp
  note p = sl_redis.put_can [where flips = "\<lambda>i. False", OF c, of "''k''" "''v''"]
  have h: "hash_fields default_config ''v'' = []" by code_simp
  have b: "del_budget default_config [''k'', ''j''] (lsm_view sl_content ?s) = 8"
    by (simp add: p(1) sl_db_view del_cost_def del_map_def h kv_dels_def)
  have d: "fst (del_spec default_config [''k'', ''j''] (lsm_view sl_content ?s)) = 1"
    by (simp add: p(1) sl_db_view del_map_def h kv_dels_def)
  have "''k'' \<in> set [''k'', ''j'']" by simp
  note r = redis_del_refines [OF sl_redis.redis_store_axioms [of "\<lambda>i. False"] this, of ?s 8 "''DEL''"]
  show ?thesis using r p(2) b d by (simp add: gives_def)
qed

text \<open>
  INCR and DECR do not look at the deadline: a counter that has expired is counted on, answered, and
  still expired for the next GET.
\<close>

lemma incr_counts_on_expired:
  assumes "redis_store E view can cfg" "can s (n + 6)" "view s k = Some (to_string i)" "- (2 ^ 63) \<le> i" "i + 1 < 2 ^ 63"
    and "is_expired now (view s (get_explire_key cfg k)) = Inr True"
  shows "fst (and_then (redis_incr E s k) (\<lambda>r s. and_then (redis_get E cfg now s k) (\<lambda>g s. (Inr (r, g), s)))) =
    Inr (to_string (i + 1), nil_reply)"
proof -
  have c: "counter_spec 1 (view s) k = (Inr (to_string (i + 1)), kv_put k (to_string (i + 1)) (view s))"
    using assms(3-5) sto_int_to_string [of 64 i] by (simp add: counter_spec_def signed_range_def del: kv_put_apply)
  have "n + 4 + 2 = n + 6" by simp
  then have "can s ((n + 4) + 2)" using assms(2) by metis
  then have "gives view can (redis_incr E s k) (Inr (to_string (i + 1))) (kv_put k (to_string (i + 1)) (view s)) (n + 4)"
    using redis_store.incr_decr_ok(1) [OF assms(1), of s "n + 4" k] c by simp
  then obtain s' where s': "redis_incr E s k = (Inr (to_string (i + 1)), s')" "view s' = kv_put k (to_string (i + 1)) (view s)" "can s' (n + 4)"
    by (cases "redis_incr E s k") (auto simp: gives_def)
  have "view s' k = Some (to_string (i + 1))" "is_expired now (view s' (get_explire_key cfg k)) = Inr True"
    using s'(2) assms(6) redis_store.expire_key_neq [OF assms(1), of k] by simp_all
  then have "fst (redis_get E cfg now s' k) = Inr nil_reply"
    using redis_store.get_expired [OF assms(1) s'(3), of k _ now] by (auto simp: gives_def)
  then show ?thesis using s'(1) by (cases "redis_get E cfg now s' k") simp
qed

text \<open>
  EXPIRE does not look at the key: it answers one for a key that does not exist and stores a deadline, which
  a key created later by INCR inherits.
\<close>

lemma expire_missing_key:
  assumes "redis_store E view can cfg" "can s (n + 1)" "stoll sec = Inr t" "- (2 ^ 63) \<le> now + t" "now + t < 2 ^ 63"
    and "view s k = None"
  shows "gives view can (redis_expire E cfg now s k sec) (Inr (int_reply 1))
      (kv_put (get_explire_key cfg k) (to_string (now + t)) (view s)) n \<and>
    kv_put (get_explire_key cfg k) (to_string (now + t)) (view s) k = None"
  using redis_store.expire_ok [OF assms(1-5), of k] assms(6) redis_store.expire_key_neq [OF assms(1), of k] by simp

end
