(* ===== verification/Redis_Hash.thy ===== *)
theory Redis_Hash
  imports Redis_Base "HOL-Library.AList"
begin

text \<open>
  Hashes of the Redis layer: the key holds the list of fields, each field has a key of its own.
  The commands are shown to refine an association list with a deadline.
\<close>

definition expire_hash_clean :: "'s engine_ops \<Rightarrow> RedisConfig \<Rightarrow> int \<Rightarrow> 's LSM \<Rightarrow> string \<Rightarrow> bool cpp \<times> 's LSM" where
  "expire_hash_clean E cfg now s key =
     (case LSM_get E s (get_explire_key cfg key) of (expire_query, s) \<Rightarrow>
        and_then (is_expired now expire_query, s) (\<lambda>expired s.
          if expired
          then case LSM_get E s key of (v, s) \<Rightarrow>
                 and_then (get_fileds_from_hash_value cfg v, s) (\<lambda>fileds s.
                   (Inr True, LSM_remove E (LSM_remove E (remove_fields E cfg s key fileds) key) (get_explire_key cfg key)))
          else (Inr False, s)))"

text \<open>The loop of HSET over the pairs: state, field list, set of known fields, number of new ones.\<close>

fun hset_loop ::
    "'s engine_ops \<Rightarrow> RedisConfig \<Rightarrow> string \<Rightarrow> 's LSM \<Rightarrow> string list \<Rightarrow> string set \<Rightarrow> int \<Rightarrow> (string \<times> string) list \<Rightarrow>
     's LSM \<times> string list \<times> int" where
  "hset_loop E cfg key s field_list existing_fields added_count [] = (s, field_list, added_count)"
| "hset_loop E cfg key s field_list existing_fields added_count ((field, value) # kvs) =
     (let s = LSM_put E s (get_hash_filed_key cfg key field) value
      in if field \<in> existing_fields then hset_loop E cfg key s field_list existing_fields added_count kvs
         else hset_loop E cfg key s (field_list @ [field]) (insert field existing_fields) (added_count + 1) kvs)"

definition redis_hset_batch ::
    "'s engine_ops \<Rightarrow> RedisConfig \<Rightarrow> int \<Rightarrow> 's LSM \<Rightarrow> string \<Rightarrow> (string \<times> string) list \<Rightarrow> 's redis" where
  "redis_hset_batch E cfg now s key field_value_pairs =
     and_then (expire_hash_clean E cfg now s key) (\<lambda>_ s.
       case LSM_get E s key of (field_list_opt, s) \<Rightarrow>
         and_then (get_fileds_from_hash_value cfg field_list_opt, s) (\<lambda>field_list s.
           case hset_loop E cfg key s field_list (set field_list) 0 field_value_pairs of (s, field_list, added_count) \<Rightarrow>
             (Inr (int_reply added_count), LSM_put E s key (get_hash_value_from_fields cfg field_list))))"

definition redis_hset :: "'s engine_ops \<Rightarrow> RedisConfig \<Rightarrow> int \<Rightarrow> 's LSM \<Rightarrow> string \<Rightarrow> string \<Rightarrow> string \<Rightarrow> 's redis" where
  "redis_hset E cfg now s key field value =
     and_then (expire_hash_clean E cfg now s key) (\<lambda>_ s.
       let s = LSM_put E s (get_hash_filed_key cfg key field) value
       in case LSM_get E s key of (field_list_opt, s) \<Rightarrow>
            and_then (get_fileds_from_hash_value cfg field_list_opt, s) (\<lambda>field_list s.
              (Inr ok_reply,
               if field \<notin> set field_list
               then LSM_put E s key (get_hash_value_from_fields cfg (field_list @ [field])) else s)))"

definition redis_hget :: "'s engine_ops \<Rightarrow> RedisConfig \<Rightarrow> int \<Rightarrow> 's LSM \<Rightarrow> string \<Rightarrow> string \<Rightarrow> 's redis" where
  "redis_hget E cfg now s key field =
     and_then (expire_hash_clean E cfg now s key) (\<lambda>is_expired s.
       if is_expired then (Inr nil_reply, s)
       else case LSM_get E s (get_hash_filed_key cfg key field) of (value_opt, s) \<Rightarrow>
              (case value_opt of Some v \<Rightarrow> (Inr (bulk_reply v), s) | None \<Rightarrow> (Inr nil_reply, s)))"

definition redis_hdel :: "'s engine_ops \<Rightarrow> RedisConfig \<Rightarrow> int \<Rightarrow> 's LSM \<Rightarrow> string \<Rightarrow> string \<Rightarrow> 's redis" where
  "redis_hdel E cfg now s key field =
     and_then (expire_hash_clean E cfg now s key) (\<lambda>is_expired s.
       if is_expired then (Inr (int_reply 0), s)
       else case LSM_get E s (get_hash_filed_key cfg key field) of (v, s) \<Rightarrow>
              let del_count = (if v \<noteq> None then 1 else 0);
                  s = (if v \<noteq> None then LSM_remove E s (get_hash_filed_key cfg key field) else s)
              in case LSM_get E s key of (field_list_opt, s) \<Rightarrow>
                   and_then (get_fileds_from_hash_value cfg field_list_opt, s) (\<lambda>field_list s.
                     let field_list' = remove1 field field_list
                     in (Inr (int_reply del_count),
                         if field \<notin> set field_list then s
                         else if field_list' = [] then LSM_remove E s key
                         else LSM_put E s key (get_hash_value_from_fields cfg field_list'))))"

definition redis_hkeys :: "'s engine_ops \<Rightarrow> RedisConfig \<Rightarrow> int \<Rightarrow> 's LSM \<Rightarrow> string \<Rightarrow> 's redis" where
  "redis_hkeys E cfg now s key =
     and_then (expire_hash_clean E cfg now s key) (\<lambda>is_expired s.
       if is_expired then (Inr (''*0'' @ crlf), s)
       else case LSM_get E s key of (field_list_opt, s) \<Rightarrow>
              and_then (get_fileds_from_hash_value cfg field_list_opt, s) (\<lambda>res_vec s. (Inr (array_reply res_vec), s)))"

subsection \<open>Specification\<close>

type_synonym hash = "(string \<times> string) list"

datatype hash_cmd = HSet "(string \<times> string) list" | HSet1 string string | HGet string | HDel string | HKeys

definition hash_puts :: "(string \<times> string) list \<Rightarrow> hash \<Rightarrow> hash" where
  "hash_puts kvs h = foldl (\<lambda>h (f, v). AList.update f v h) h kvs"

fun hash_spec :: "hash_cmd \<Rightarrow> hash \<Rightarrow> string \<times> hash" where
  "hash_spec (HSet kvs) h = (int_reply (int (length (hash_puts kvs h)) - int (length h)), hash_puts kvs h)"
| "hash_spec (HSet1 f v) h = (ok_reply, AList.update f v h)"
| "hash_spec (HGet f) h = (case map_of h f of Some v \<Rightarrow> bulk_reply v | None \<Rightarrow> nil_reply, h)"
| "hash_spec (HDel f) h = (int_reply (if map_of h f \<noteq> None then 1 else 0), AList.delete f h)"
| "hash_spec HKeys h = (array_reply (map fst h), h)"

text \<open>A hash with a deadline: a command that comes later finds it empty and forgets the deadline.\<close>

definition hash_now :: "int \<Rightarrow> hash \<times> int option \<Rightarrow> hash \<times> int option" where
  "hash_now now st = (if late now (snd st) then ([], None) else st)"

definition hash_step :: "int \<Rightarrow> hash_cmd \<Rightarrow> hash \<times> int option \<Rightarrow> string \<times> hash \<times> int option" where
  "hash_step now c st =
     (case hash_now now st of (h, d) \<Rightarrow> case hash_spec c h of (r, h') \<Rightarrow> (r, h', d))"


fun hash_cmd_ok :: "RedisConfig \<Rightarrow> hash_cmd \<Rightarrow> bool" where
  "hash_cmd_ok cfg (HSet kvs) \<longleftrightarrow> kvs \<noteq> [] \<and> (\<forall>(f, v)\<in>set kvs. token (redis_field_separator cfg) f \<and> v \<noteq> [])"
| "hash_cmd_ok cfg (HSet1 f v) \<longleftrightarrow> token (redis_field_separator cfg) f \<and> v \<noteq> []"
| "hash_cmd_ok cfg _ \<longleftrightarrow> True"

fun hash_exec :: "'s engine_ops \<Rightarrow> RedisConfig \<Rightarrow> int \<Rightarrow> 's LSM \<Rightarrow> string \<Rightarrow> hash_cmd \<Rightarrow> 's redis" where
  "hash_exec E cfg now s k (HSet kvs) = redis_hset_batch E cfg now s k kvs"
| "hash_exec E cfg now s k (HSet1 f v) = redis_hset E cfg now s k f v"
| "hash_exec E cfg now s k (HGet f) = redis_hget E cfg now s k f"
| "hash_exec E cfg now s k (HDel f) = redis_hdel E cfg now s k f"
| "hash_exec E cfg now s k HKeys = redis_hkeys E cfg now s k"

text \<open>An upper bound on the operations of a command.\<close>

fun hash_cost :: "hash_cmd \<Rightarrow> nat" where
  "hash_cost (HSet kvs) = 2 + length kvs"
| "hash_cost (HSet1 f v) = 3"
| "hash_cost (HGet f) = 1"
| "hash_cost (HDel f) = 4"
| "hash_cost HKeys = 1"

text \<open>A client session on one hash: commands with the times they arrive.\<close>

fun hash_session :: "'s engine_ops \<Rightarrow> RedisConfig \<Rightarrow> 's LSM \<Rightarrow> string \<Rightarrow> (int \<times> hash_cmd) list \<Rightarrow> string list cpp \<times> 's LSM" where
  "hash_session E cfg s k [] = (Inr [], s)"
| "hash_session E cfg s k ((now, c) # cs) =
     and_then (hash_exec E cfg now s k c) (\<lambda>r s.
     and_then (hash_session E cfg s k cs) (\<lambda>rs s. (Inr (r # rs), s)))"

fun hash_session_spec :: "hash \<times> int option \<Rightarrow> (int \<times> hash_cmd) list \<Rightarrow> string list \<times> hash \<times> int option" where
  "hash_session_spec st [] = ([], st)"
| "hash_session_spec st ((now, c) # cs) =
     (case hash_step now c st of (r, st) \<Rightarrow> case hash_session_spec st cs of (rs, st) \<Rightarrow> (r # rs, st))"

fun hash_session_cost :: "hash \<times> int option \<Rightarrow> (int \<times> hash_cmd) list \<Rightarrow> nat" where
  "hash_session_cost st [] = 0"
| "hash_session_cost st ((now, c) # cs) =
     4 + length (fst st) + hash_cost c + hash_session_cost (snd (hash_step now c st)) cs"

text \<open>
  What the database holds: the field list under the key, the values under the field keys, the deadline
  under the expiry key. \<open>hash_write\<close> is a map with these entries replaced.
\<close>

definition hash_key_rep :: "RedisConfig \<Rightarrow> string list \<Rightarrow> string option" where
  "hash_key_rep cfg fs = (if fs = [] then None else Some (get_hash_value_from_fields cfg fs))"

definition field_space :: "RedisConfig \<Rightarrow> string \<Rightarrow> string" where
  "field_space cfg k = redis_field_prefix cfg @ k @ ''_''"

definition hash_write :: "RedisConfig \<Rightarrow> string \<Rightarrow> string list \<Rightarrow> (string \<Rightarrow> string option) \<Rightarrow> kv \<Rightarrow> kv" where
  "hash_write cfg k fs g m x =
     (if x = k then hash_key_rep cfg fs
      else if prefix (field_space cfg k) x then g (drop (length (field_space cfg k)) x)
      else m x)"

definition hash_entries :: "RedisConfig \<Rightarrow> string \<Rightarrow> string list \<Rightarrow> (string \<Rightarrow> string option) \<Rightarrow> string option \<Rightarrow> kv \<Rightarrow> kv" where
  "hash_entries cfg k fs g e m = (hash_write cfg k fs g m)(get_explire_key cfg k := e)"

definition hash_db :: "RedisConfig \<Rightarrow> string \<Rightarrow> hash \<times> int option \<Rightarrow> kv \<Rightarrow> kv" where
  "hash_db cfg k st m = hash_entries cfg k (map fst (fst st)) (map_of (fst st)) (map_option to_string (snd st)) m"

definition hash_valid :: "RedisConfig \<Rightarrow> hash \<Rightarrow> bool" where
  "hash_valid cfg h \<longleftrightarrow> distinct (map fst h) \<and> (\<forall>(f, v)\<in>set h. token (redis_field_separator cfg) f \<and> v \<noteq> [])"

lemma field_key_space: "get_hash_filed_key cfg k f = field_space cfg k @ f"
  by (simp add: get_hash_filed_key_def field_space_def)

lemma hash_valid_update:
  "hash_valid cfg h \<Longrightarrow> token (redis_field_separator cfg) f \<Longrightarrow> v \<noteq> [] \<Longrightarrow> hash_valid cfg (AList.update f v h)"
  by (induction h) (auto simp: hash_valid_def update_keys)

lemma hash_valid_puts:
  "hash_valid cfg h \<Longrightarrow> \<forall>(f, v)\<in>set kvs. token (redis_field_separator cfg) f \<and> v \<noteq> [] \<Longrightarrow> hash_valid cfg (hash_puts kvs h)"
  by (induction kvs arbitrary: h) (auto simp: hash_puts_def hash_valid_update)

lemma hash_valid_delete: "hash_valid cfg h \<Longrightarrow> hash_valid cfg (AList.delete f h)"
  by (auto simp: hash_valid_def AList.delete_eq distinct_map_filter)

lemma hash_valid_spec: "hash_valid cfg h \<Longrightarrow> hash_cmd_ok cfg c \<Longrightarrow> hash_valid cfg (snd (hash_spec c h))"
  by (cases c) (auto simp: hash_valid_puts hash_valid_update hash_valid_delete)

lemma hash_valid_tokens: "hash_valid cfg h \<Longrightarrow> \<forall>f\<in>set (map fst h). token (redis_field_separator cfg) f"
  by (auto simp: hash_valid_def)

lemma update_keys_snoc: "map fst (AList.update f v h) = (if f \<in> fst ` set h then map fst h else map fst h @ [f])"
  by (induction h) auto

lemma length_update: "length (AList.update f v h) = (if f \<in> fst ` set h then length h else Suc (length h))"
  using arg_cong [OF update_keys_snoc [of f v h], of length] by simp

lemma delete_keys: "distinct (map fst h) \<Longrightarrow> map fst (AList.delete f h) = remove1 f (map fst h)"
  by (induction h) (auto simp: AList.delete_eq filter_id_conv remove1_idem intro!: filter_True)

lemma update_not_Nil: "AList.update f v h \<noteq> []"
  by (cases h) auto

lemma hash_puts_not_Nil: "h \<noteq> [] \<or> kvs \<noteq> [] \<Longrightarrow> hash_puts kvs h \<noteq> []"
  by (induction kvs arbitrary: h) (auto simp: hash_puts_def update_not_Nil)

lemma get_fileds_rep [simp]:
  "\<forall>f\<in>set fs. token (redis_field_separator cfg) f \<Longrightarrow> get_fileds_from_hash_value cfg (hash_key_rep cfg fs) = Inr fs"
  by (auto simp: get_fileds_from_hash_value_def hash_key_rep_def get_hash_value_from_fields_def substr_from_def
      Let_def join_with_eq_Nil)

lemma hash_value_not_Nil:
  "\<forall>f\<in>set fs. token (redis_field_separator cfg) f \<Longrightarrow> fs \<noteq> [] \<Longrightarrow> get_hash_value_from_fields cfg fs \<noteq> []"
  by (simp add: get_hash_value_from_fields_def join_with_eq_Nil)

subsection \<open>Refinement\<close>

context redis_store
begin

lemmas field_space_neq [simp] = field_key_neq [unfolded field_key_space] field_key_expire [unfolded field_key_space]

lemma field_space_no [simp]: "\<not> prefix (field_space cfg k) (get_explire_key cfg k)" "\<not> prefix (field_space cfg k) k"
  by (auto simp: prefix_def)

lemma entries_apply [simp]:
  "hash_entries cfg k fs g e m k = hash_key_rep cfg fs"
  "hash_entries cfg k fs g e m (get_hash_filed_key cfg k f) = g f"
  "hash_entries cfg k fs g e m (get_explire_key cfg k) = e"
  by (simp_all add: hash_entries_def hash_write_def field_key_space [symmetric])
     (simp add: field_key_space)

lemma entries_put_field:
  "v \<noteq> [] \<Longrightarrow> kv_put (get_hash_filed_key cfg k f) v (hash_entries cfg k fs g e m) = hash_entries cfg k fs (g(f \<mapsto> v)) e m"
  by (rule ext) (auto simp: hash_entries_def hash_write_def field_key_space elim!: prefixE)

lemma entries_del_field:
  "kv_del (get_hash_filed_key cfg k f) (hash_entries cfg k fs g e m) = hash_entries cfg k fs (g(f := None)) e m"
  by (rule ext) (auto simp: hash_entries_def hash_write_def field_key_space elim!: prefixE)

lemma entries_put_key:
  "\<forall>f\<in>set fs'. token (redis_field_separator cfg) f \<Longrightarrow> fs' \<noteq> [] \<Longrightarrow>
   kv_put k (get_hash_value_from_fields cfg fs') (hash_entries cfg k fs g e m) = hash_entries cfg k fs' g e m"
  by (rule ext) (auto simp: hash_entries_def hash_write_def hash_key_rep_def hash_value_not_Nil)

lemma entries_del_key: "kv_del k (hash_entries cfg k fs g e m) = hash_entries cfg k [] g e m"
  by (rule ext) (auto simp: hash_entries_def hash_write_def hash_key_rep_def)

lemma entries_del_expire: "kv_del (get_explire_key cfg k) (hash_entries cfg k fs g e m) = hash_entries cfg k fs g None m"
  by (rule ext) (auto simp: hash_entries_def)

lemma entries_del_fields:
  "kv_dels (map (get_hash_filed_key cfg k) fs') (hash_entries cfg k fs g e m) = hash_entries cfg k fs (g |` (- set fs')) e m"
proof (induction fs' arbitrary: g)
  case (Cons f fs')
  have r: "(g(f := None)) |` (- set fs') = g |` (- set (f # fs'))" by (auto simp: restrict_map_def)
  show ?case using Cons.IH [of "g(f := None)"]
    unfolding r by (simp add: entries_del_field del: kv_dels_apply kv_del_apply fun_upd_apply)
qed (simp add: kv_dels_def restrict_map_def)

lemma hash_db_apply [simp]:
  "hash_db cfg k st m k = hash_key_rep cfg (map fst (fst st))"
  "hash_db cfg k st m (get_hash_filed_key cfg k f) = map_of (fst st) f"
  "hash_db cfg k st m (get_explire_key cfg k) = map_option to_string (snd st)"
  by (simp_all add: hash_db_def)

lemma hash_clean_ok:
  assumes "can s (n + 4 + length (fst st))" "view s = hash_db cfg k st m" "hash_valid cfg (fst st)" "deadline_ok (snd st)"
  shows "gives view can (expire_hash_clean E cfg now s k) (Inr (late now (snd st))) (hash_db cfg k (hash_now now st) m) n"
proof -
  let ?e = "get_explire_key cfg k" and ?fs = "map fst (fst st)"
  have "can s (Suc (n + 3 + length (fst st)))" using assms(1) by (simp add: numeral_eq_Suc)
  then obtain s1 where 1: "LSM_get E s ?e = (view s ?e, s1)" "view s1 = view s" "can s1 (n + 3 + length (fst st))" by (rule get_cases)
  have x: "is_expired now (view s ?e) = Inr (late now (snd st))" using assms(2,4) by (simp add: is_expired_deadline)
  show ?thesis
  proof (cases "late now (snd st)")
    case False
    have "can s1 n" by (rule can_less [OF 1(3)]) simp
    then show ?thesis using False 1 x assms(2) by (simp add: expire_hash_clean_def gives_def hash_now_def)
  next
    case True
    have "can s1 (Suc (n + 2 + length (fst st)))" using 1(3) by (simp add: numeral_eq_Suc)
    then obtain s2 where 2: "LSM_get E s1 k = (view s1 k, s2)" "view s2 = view s1" "can s2 (n + 2 + length (fst st))" by (rule get_cases)
    have fs: "get_fileds_from_hash_value cfg (view s1 k) = Inr ?fs"
      using assms(2) 1(2) hash_valid_tokens [OF assms(3)] by simp
    have "can s2 (n + 2 + length ?fs)" using 2(3) by simp
    note 3 = remove_fields_ok [OF this, of k]
    have c3: "can (remove_fields E cfg s2 k ?fs) (Suc (Suc n))" using 3 by simp
    note 4 = remove_can [OF c3, of k]
    note 5 = remove_can [OF 4(2), of ?e]
    have "map_of (fst st) |` (- set ?fs) = (\<lambda>_. None)"
      by (auto simp: restrict_map_def fun_eq_iff map_of_eq_None_iff)
    then have "kv_del ?e (kv_del k (kv_dels (map (get_hash_filed_key cfg k) ?fs) (hash_db cfg k st m))) = hash_db cfg k ([], None) m"
      unfolding hash_db_def entries_del_fields by (simp add: entries_del_key entries_del_expire del: kv_del_apply)
    then show ?thesis using True 1 2 x fs 3 4 5 assms(2)
      by (simp add: expire_hash_clean_def gives_def hash_now_def del: kv_del_apply kv_dels_apply list.map_comp)
  qed
qed

lemma hset_loop_ok:
  assumes "can s (n + length kvs)" "view s = hash_entries cfg k fs (map_of h) e m"
    and "\<forall>(f, v)\<in>set kvs. v \<noteq> []"
  shows "\<exists>s'. hset_loop E cfg k s (map fst h) (fst ` set h) i kvs =
      (s', map fst (hash_puts kvs h), i + int (length (hash_puts kvs h)) - int (length h)) \<and>
    view s' = hash_entries cfg k fs (map_of (hash_puts kvs h)) e m \<and> can s' n"
  using assms
proof (induction kvs arbitrary: s h i)
  case (Cons fv kvs)
  obtain f v where fv: "fv = (f, v)" by (cases fv)
  have "can s (Suc (n + length kvs))" using Cons.prems(1) by simp
  note p = put_can [OF this, of "get_hash_filed_key cfg k f" v]
  have "view (LSM_put E s (get_hash_filed_key cfg k f) v) = hash_entries cfg k fs (map_of (AList.update f v h)) e m"
    using Cons.prems(2,3) fv p(1) by (simp add: entries_put_field AList.update_conv' del: kv_put_apply)
  note ih = Cons.IH [OF p(2) this, of "if f \<in> fst ` set h then i else i + 1"]
  have st: "fst ` set (AList.update f v h) = insert f (fst ` set h)"
    using arg_cong [OF update_keys_snoc [of f v h], of set] by auto
  show ?case using ih Cons.prems(3) fv st
    by (auto simp: hash_puts_def update_keys_snoc length_update insert_absorb Let_def split: if_splits)
qed (simp add: hash_puts_def)

lemma fields_lookup:
  assumes "can s (Suc n)" "view s = hash_entries cfg k (map fst h) g e m" "hash_valid cfg h"
  obtains s' where "LSM_get E s k = (hash_key_rep cfg (map fst h), s')" "view s' = view s" "can s' n"
    "get_fileds_from_hash_value cfg (hash_key_rep cfg (map fst h)) = Inr (map fst h)"
proof -
  obtain s' where s': "LSM_get E s k = (view s k, s')" "view s' = view s" "can s' n" by (rule get_cases [OF assms(1)])
  have "view s k = hash_key_rep cfg (map fst h)" by (simp add: assms(2))
  with s' show thesis using get_fileds_rep [OF hash_valid_tokens [OF assms(3)]] by (intro that) auto
qed

lemma hset_batch_ok:
  assumes "expire_hash_clean E cfg now s0 k = (Inr b, s)" "can s (n + hash_cost (HSet kvs))" "view s = hash_db cfg k (h, d) m"
    and "hash_valid cfg h" "hash_cmd_ok cfg (HSet kvs)"
  shows "gives view can (redis_hset_batch E cfg now s0 k kvs) (Inr (fst (hash_spec (HSet kvs) h)))
    (hash_db cfg k (hash_puts kvs h, d) m) n"
proof -
  let ?h = "hash_puts kvs h" and ?e = "map_option to_string d"
  have "can s (Suc (Suc n + length kvs))" using assms(2) by (simp add: numeral_eq_Suc)
  then obtain s1 where 1: "LSM_get E s k = (hash_key_rep cfg (map fst h), s1)" "view s1 = view s" "can s1 (Suc n + length kvs)"
      "get_fileds_from_hash_value cfg (hash_key_rep cfg (map fst h)) = Inr (map fst h)"
    by (rule fields_lookup [OF _ _ assms(4)]) (auto simp: assms(3) hash_db_def)
  have v1: "view s1 = hash_entries cfg k (map fst h) (map_of h) ?e m" by (simp add: 1(2) assms(3) hash_db_def)
  have nz: "\<forall>(f, v)\<in>set kvs. v \<noteq> []" using assms(5) by auto
  obtain s2 where 2: "hset_loop E cfg k s1 (map fst h) (fst ` set h) 0 kvs = (s2, map fst ?h, int (length ?h) - int (length h))"
      "view s2 = hash_entries cfg k (map fst h) (map_of ?h) ?e m" "can s2 (Suc n)"
    using hset_loop_ok [OF 1(3) v1 nz, of 0] by auto
  note 3 = put_can [OF 2(3), of k "get_hash_value_from_fields cfg (map fst ?h)"]
  have h: "hash_valid cfg ?h" using hash_valid_spec [OF assms(4,5)] by simp
  have "?h \<noteq> []" using assms(5) by (cases kvs) (auto simp: hash_puts_not_Nil)
  then have "view (LSM_put E s2 k (get_hash_value_from_fields cfg (map fst ?h))) = hash_db cfg k (?h, d) m"
    using 3(1) 2(2) entries_put_key [OF hash_valid_tokens [OF h]] by (simp add: hash_db_def del: kv_put_apply)
  then show ?thesis using assms(1) 1 2 3 by (simp add: redis_hset_batch_def gives_def)
qed

lemma hset_ok:
  assumes "expire_hash_clean E cfg now s0 k = (Inr b, s)" "can s (n + 3)" "view s = hash_db cfg k (h, d) m"
    and "hash_valid cfg h" "hash_cmd_ok cfg (HSet1 f v)"
  shows "gives view can (redis_hset E cfg now s0 k f v) (Inr ok_reply) (hash_db cfg k (AList.update f v h, d) m) n"
proof -
  let ?e = "map_option to_string d" and ?h = "AList.update f v h"
  have "can s (Suc (Suc (Suc n)))" using assms(2) by (simp add: numeral_eq_Suc)
  note p = put_can [OF this, of "get_hash_filed_key cfg k f" v]
  have v0: "view (LSM_put E s (get_hash_filed_key cfg k f) v) = hash_entries cfg k (map fst h) (map_of ?h) ?e m"
    using assms(3,5) p(1) by (simp add: hash_db_def entries_put_field AList.update_conv' del: kv_put_apply)
  obtain s1 where 1: "LSM_get E (LSM_put E s (get_hash_filed_key cfg k f) v) k = (hash_key_rep cfg (map fst h), s1)"
      "view s1 = view (LSM_put E s (get_hash_filed_key cfg k f) v)" "can s1 (Suc n)"
      "get_fileds_from_hash_value cfg (hash_key_rep cfg (map fst h)) = Inr (map fst h)"
    by (rule fields_lookup [OF p(2) v0 assms(4)])
  have n: "can s1 n" by (rule can_less [OF 1(3)]) simp
  note 2 = put_can [OF 1(3), of k "get_hash_value_from_fields cfg (map fst h @ [f])"]
  have "hash_valid cfg ?h" using hash_valid_spec [OF assms(4,5)] by simp
  note tok = hash_valid_tokens [OF this, unfolded update_keys_snoc]
  show ?thesis
  proof (cases "f \<in> fst ` set h")
    case True
    then show ?thesis using assms(1) 1 n v0 by (simp add: redis_hset_def gives_def Let_def hash_db_def update_keys_snoc)
  next
    case False
    then have "view (LSM_put E s1 k (get_hash_value_from_fields cfg (map fst h @ [f]))) = hash_db cfg k (?h, d) m"
      using 2(1) 1(2) v0 tok entries_put_key [of "map fst h @ [f]"] by (simp add: hash_db_def update_keys_snoc del: kv_put_apply)
    then show ?thesis using assms(1) 1 2 False by (simp add: redis_hset_def gives_def Let_def)
  qed
qed

lemma hget_ok:
  assumes "expire_hash_clean E cfg now s0 k = (Inr b, s)" "can s (n + 1)" "view s = hash_db cfg k (h, d) m" "b \<Longrightarrow> h = []"
  shows "gives view can (redis_hget E cfg now s0 k f) (Inr (fst (hash_spec (HGet f) h))) (hash_db cfg k (h, d) m) n"
proof -
  have "can s (Suc n)" using assms(2) by simp
  then obtain s1 where 1: "LSM_get E s (get_hash_filed_key cfg k f) = (view s (get_hash_filed_key cfg k f), s1)"
    "view s1 = view s" "can s1 n" by (rule get_cases)
  have "can s n" by (rule can_less [OF assms(2)]) simp
  then show ?thesis using 1 assms(1,3,4) by (cases b) (auto simp: redis_hget_def gives_def split: option.splits)
qed

lemma hkeys_ok:
  assumes "expire_hash_clean E cfg now s0 k = (Inr b, s)" "can s (n + 1)" "view s = hash_db cfg k (h, d) m" "b \<Longrightarrow> h = []"
    and "hash_valid cfg h"
  shows "gives view can (redis_hkeys E cfg now s0 k) (Inr (fst (hash_spec HKeys h))) (hash_db cfg k (h, d) m) n"
proof -
  have "can s (Suc n)" using assms(2) by simp
  then obtain s1 where 1: "LSM_get E s k = (hash_key_rep cfg (map fst h), s1)" "view s1 = view s" "can s1 n"
      "get_fileds_from_hash_value cfg (hash_key_rep cfg (map fst h)) = Inr (map fst h)"
    by (rule fields_lookup [OF _ _ assms(5)]) (auto simp: assms(3) hash_db_def)
  have "''*0'' @ crlf = array_reply []" by code_simp
  moreover have "can s n" by (rule can_less [OF assms(2)]) simp
  ultimately show ?thesis using 1 assms(1,3,4) by (cases b) (auto simp: redis_hkeys_def gives_def)
qed

lemma hdel_ok:
  assumes "expire_hash_clean E cfg now s0 k = (Inr b, s)" "can s (n + 4)" "view s = hash_db cfg k (h, d) m" "b \<Longrightarrow> h = []"
    and "hash_valid cfg h"
  shows "gives view can (redis_hdel E cfg now s0 k f) (Inr (fst (hash_spec (HDel f) h))) (hash_db cfg k (AList.delete f h, d) m) n"
proof (cases b)
  case True
  have "can s n" by (rule can_less [OF assms(2)]) simp
  then show ?thesis using True assms(1,3,4) by (simp add: redis_hdel_def gives_def)
next
  case False
  let ?fk = "get_hash_filed_key cfg k f" and ?e = "map_option to_string d"
  have "can s (Suc (n + 3))" using assms(2) by (simp add: numeral_eq_Suc)
  then obtain s1 where 1: "LSM_get E s ?fk = (view s ?fk, s1)" "view s1 = view s" "can s1 (n + 3)" by (rule get_cases)
  define s2 where "s2 = (if map_of h f \<noteq> None then LSM_remove E s1 ?fk else s1)"
  have "can s1 (Suc (Suc (Suc n)))" using 1(3) by (simp add: numeral_eq_Suc)
  note r = remove_can [OF this, of ?fk]
  have c2: "can s2 (Suc (Suc n))" using r(2) 1(3) can_less [of s1 "n + 3" "Suc (Suc n)"] by (simp add: s2_def)
  have dist: "distinct (map fst h)" using assms(5) by (simp add: hash_valid_def)
  have mo: "map_of (AList.delete f h) = (map_of h)(f := None)" by (rule AList.delete_conv')
  have v2: "view s2 = hash_entries cfg k (map fst h) (map_of (AList.delete f h)) ?e m"
  proof (cases "map_of h f")
    case None
    then have "(map_of h)(f := None) = map_of h" by auto
    then show ?thesis unfolding mo using None 1(2) assms(3) by (simp add: s2_def hash_db_def del: fun_upd_apply)
  next
    case (Some v)
    then show ?thesis using r(1) 1(2) assms(3) by (simp add: s2_def hash_db_def mo entries_del_field del: fun_upd_apply kv_del_apply)
  qed
  obtain s3 where 3: "LSM_get E s2 k = (hash_key_rep cfg (map fst h), s3)" "view s3 = view s2" "can s3 (Suc n)"
      "get_fileds_from_hash_value cfg (hash_key_rep cfg (map fst h)) = Inr (map fst h)"
    by (rule fields_lookup [OF c2 v2 assms(5)])
  define s4 where "s4 = (if f \<notin> fst ` set h then s3 else if remove1 f (map fst h) = [] then LSM_remove E s3 k
      else LSM_put E s3 k (get_hash_value_from_fields cfg (remove1 f (map fst h))))"
  have keys: "map fst (AList.delete f h) = remove1 f (map fst h)" by (rule delete_keys [OF dist])
  have tok: "\<forall>x\<in>set (remove1 f (map fst h)). token (redis_field_separator cfg) x"
    using hash_valid_tokens [OF assms(5)] set_remove1_subset [of f "map fst h"] by blast
  have "can s3 n" by (rule can_less [OF 3(3)]) simp
  then have c4: "can s4 n" using remove_can(2) [OF 3(3)] put_can(2) [OF 3(3)] by (simp add: s4_def)
  have "view s4 = hash_entries cfg k (map fst (AList.delete f h)) (map_of (AList.delete f h)) ?e m"
    unfolding s4_def keys using remove_can(1) [OF 3(3)] put_can(1) [OF 3(3)] 3(2) v2 entries_del_key entries_put_key [OF tok]
    by (auto simp: remove1_idem simp del: kv_del_apply kv_put_apply)
  then have v4: "view s4 = hash_db cfg k (AList.delete f h, d) m" by (simp add: hash_db_def)
  have fk: "view s ?fk = map_of h f" using assms(3) by simp
  have "redis_hdel E cfg now s0 k f = (Inr (fst (hash_spec (HDel f) h)), s4)"
    using False assms(1) 1(1) 3 unfolding fk by (auto simp: redis_hdel_def Let_def s2_def s4_def)
  then show ?thesis using c4 v4 by (simp add: gives_def)
qed

lemma hash_exec_ok:
  assumes "can s (n + 4 + length (fst st) + hash_cost c)" "view s = hash_db cfg k st m"
    and "hash_valid cfg (fst st)" "deadline_ok (snd st)" "hash_cmd_ok cfg c"
  shows "gives view can (hash_exec E cfg now s k c) (Inr (fst (hash_step now c st))) (hash_db cfg k (snd (hash_step now c st)) m) n"
proof -
  obtain h d where hd: "hash_now now st = (h, d)" by (cases "hash_now now st")
  have "can s (n + hash_cost c + 4 + length (fst st))" using assms(1) by (simp add: ac_simps)
  note g = hash_clean_ok [OF this assms(2-4), of now, unfolded hd]
  then obtain s1 where 1: "expire_hash_clean E cfg now s k = (Inr (late now (snd st)), s1)" "view s1 = hash_db cfg k (h, d) m"
    "can s1 (n + hash_cost c)" by (cases "expire_hash_clean E cfg now s k") (auto simp: gives_def)
  have h: "hash_valid cfg h" "late now (snd st) \<Longrightarrow> h = []"
    using hd assms(3) by (auto simp: hash_now_def hash_valid_def split: if_splits)
  have r: "hash_step now c st = (fst (hash_spec c h), snd (hash_spec c h), d)"
    by (simp add: hash_step_def hd split_beta)
  show ?thesis
  proof (cases c)
    case (HSet kvs)
    then show ?thesis using hset_batch_ok [OF 1(1) _ 1(2) h(1)] 1(3) assms(5) r by simp
  next
    case (HSet1 f v)
    then show ?thesis using hset_ok [OF 1(1) _ 1(2) h(1)] 1(3) assms(5) r by simp
  next
    case (HGet f)
    then show ?thesis using hget_ok [OF 1(1) _ 1(2) h(2)] 1(3) r by simp
  next
    case (HDel f)
    then show ?thesis using hdel_ok [OF 1(1) _ 1(2) h(2) h(1)] 1(3) r by simp
  next
    case HKeys
    then show ?thesis using hkeys_ok [OF 1(1) _ 1(2) h(2) h(1)] 1(3) r by simp
  qed
qed

lemma hash_step_ok:
  assumes "hash_valid cfg (fst st)" "deadline_ok (snd st)" "hash_cmd_ok cfg c"
  shows "hash_valid cfg (fst (snd (hash_step now c st)))" "deadline_ok (snd (snd (hash_step now c st)))"
proof -
  obtain h d where hd: "hash_now now st = (h, d)" by (cases "hash_now now st")
  then have "hash_valid cfg h" "deadline_ok d"
    using assms(1,2) by (auto simp: hash_now_def hash_valid_def deadline_ok_def split: if_splits)
  then show "hash_valid cfg (fst (snd (hash_step now c st)))" "deadline_ok (snd (snd (hash_step now c st)))"
    using hash_valid_spec [OF _ assms(3)] by (simp_all add: hash_step_def hd split_beta)
qed

lemma hash_session_ok:
  assumes "can s (n + hash_session_cost st cs)" "view s = hash_db cfg k st m"
    and "hash_valid cfg (fst st)" "deadline_ok (snd st)" "\<forall>(now, c)\<in>set cs. hash_cmd_ok cfg c"
  shows "gives view can (hash_session E cfg s k cs) (Inr (fst (hash_session_spec st cs))) (hash_db cfg k (snd (hash_session_spec st cs)) m) n"
  using assms
proof (induction cs arbitrary: s st)
  case Nil
  then show ?case by (simp add: gives_def)
next
  case (Cons tc cs)
  obtain now c where tc: "tc = (now, c)" by (cases tc)
  let ?st = "snd (hash_step now c st)"
  have 1: "gives view can (hash_exec E cfg now s k c) (Inr (fst (hash_step now c st))) (hash_db cfg k ?st m)
      (n + hash_session_cost ?st cs)"
    using Cons.prems tc by (intro hash_exec_ok) (simp_all add: ac_simps)
  have 2: "gives view can (hash_session E cfg s' k cs) (Inr (fst (hash_session_spec ?st cs)))
      (hash_db cfg k (snd (hash_session_spec ?st cs)) m) n"
    if s': "view s' = hash_db cfg k ?st m" "can s' (n + hash_session_cost ?st cs)" for s'
    using Cons.prems s' tc hash_step_ok [of st c now] by (intro Cons.IH) auto
  have "hash_session_spec st (tc # cs) =
      (fst (hash_step now c st) # fst (hash_session_spec ?st cs), snd (hash_session_spec ?st cs))"
    by (simp add: tc split_beta)
  then show ?case by (auto simp: tc intro!: gives_and_then [OF 1] gives_and_then [OF 2] gives_return)
qed

end

subsection \<open>Properties\<close>



text \<open>
  Two hashes can share a field key: a field set under the key \<open>a\<close> whose name has an underscore is
  read back as a field of another hash, which was never written.
\<close>

theorem hash_field_keys_collide:
  "get_hash_filed_key cfg ''a'' ''b_c'' = get_hash_filed_key cfg ''a_b'' ''c'' \<and>
   fst (and_then (redis_hset_batch (skiplist_engine (\<lambda>i. False)) default_config 0 sl_db ''a'' [(''b_c'', ''v'')])
     (\<lambda>_ s. redis_hget (skiplist_engine (\<lambda>i. False)) default_config 0 s ''a_b'' ''c'')) = Inr (bulk_reply ''v'')"
proof
  show "get_hash_filed_key cfg ''a'' ''b_c'' = get_hash_filed_key cfg ''a_b'' ''c''" by (simp add: get_hash_filed_key_def)
  show "fst (and_then (redis_hset_batch (skiplist_engine (\<lambda>i. False)) default_config 0 sl_db ''a'' [(''b_c'', ''v'')])
     (\<lambda>_ s. redis_hget (skiplist_engine (\<lambda>i. False)) default_config 0 s ''a_b'' ''c'')) = Inr (bulk_reply ''v'')"
    by code_simp
qed

text \<open>
  SET over a hash and DEL afterwards leave the fields: only the key is replaced and removed, and HGET, which
  looks at the field's own key, still answers the value.
\<close>

lemma set_keeps_fields:
  assumes "redis_store E view can cfg" "can s (n + 9)" "view s (get_hash_filed_key cfg k f) = Some v"
    and "x \<noteq> []" "\<not> prefix (redis_hash_value_preffix cfg) x"
  shows "fst (and_then (redis_set E cfg s k x) (\<lambda>_ s. and_then (redis_del E cfg s [cmd, k]) (\<lambda>_ s. redis_hget E cfg now s k f))) =
    Inr (bulk_reply v)"
proof -
  let ?e = "get_explire_key cfg k" and ?f = "get_hash_filed_key cfg k f"
  note neq = redis_store.field_key_neq [OF assms(1)] redis_store.field_key_expire [OF assms(1)] redis_store.expire_key_neq [OF assms(1)]
  define m where "m = kv_del ?e (kv_put k x (view s))"
  have "n + 6 + 3 = n + 9" by simp
  then have "can s ((n + 6) + 3)" using assms(2) by metis
  then obtain s1 where 1: "redis_set E cfg s k x = (Inr ok_reply, s1)" "view s1 = m" "can s1 (n + 6)"
    using redis_store.set_ok [OF assms(1), of s "n + 6" k x] by (cases "redis_set E cfg s k x") (auto simp: gives_def m_def simp del: kv_del_apply kv_put_apply)
  have mk: "m k = Some x" "m ?f = Some v" using assms(3,4) neq by (simp_all add: m_def)
  have d: "del_budget cfg [k] m = 4" "snd (del_spec cfg [k] m) = kv_del ?e (kv_del k m)"
    using mk(1) assms(5) by (simp_all add: del_cost_def del_map_def hash_fields_def kv_dels_def)
  have "n + 2 + 4 = n + 6" by simp
  then have "can s1 ((n + 2) + del_budget cfg [k] (view s1))" using 1(2,3) d(1) by metis
  then obtain r s2 where 2: "redis_del E cfg s1 [cmd, k] = (Inr r, s2)" "view s2 = kv_del ?e (kv_del k m)" "can s2 (Suc (Suc n))"
    using redis_store.del_keys_reply [OF assms(1), of s1 "n + 2" "[k]" cmd] d(2) 1(2)
    by (cases "redis_del E cfg s1 [cmd, k]") (auto simp: gives_def simp del: kv_del_apply del_spec.simps)
  have v: "view s2 ?e = None" "view s2 ?f = Some v" using 2(2) mk(2) neq by simp_all
  obtain s3 s4 where "LSM_get E s2 ?e = (view s2 ?e, s3)" "LSM_get E s3 ?f = (view s2 ?f, s4)"
    by (rule redis_store.get_two_cases [OF assms(1) 2(3), of ?e ?f])
  then have "redis_hget E cfg now s2 k f = (Inr (bulk_reply v), s4)"
    using v by (simp add: redis_hget_def expire_hash_clean_def is_expired_def)
  then show ?thesis using 1(1) 2(1) by simp
qed

end
