(* ===== verification/Redis_Set.thy ===== *)
theory Redis_Set
  imports Redis_Base
begin

text \<open>
  Sets of the Redis layer: every member has a key of its own, the key of the set holds the number of
  members. The commands are shown to refine a finite set with a deadline.
\<close>

definition get_set_key_preffix :: "RedisConfig \<Rightarrow> string \<Rightarrow> string" where
  "get_set_key_preffix cfg key = redis_set_prefix cfg @ key @ ''_''"

definition get_set_member_key :: "RedisConfig \<Rightarrow> string \<Rightarrow> string \<Rightarrow> string" where
  "get_set_member_key cfg key elem = redis_set_prefix cfg @ key @ ''_'' @ elem"

definition get_set_member_value :: string where
  "get_set_member_value = ''1''"

definition get_set_member_prefix :: "RedisConfig \<Rightarrow> string \<Rightarrow> string" where
  "get_set_member_prefix cfg key = redis_set_prefix cfg @ key @ ''_''"

definition remove_prefix :: "'s engine_ops \<Rightarrow> 's LSM \<Rightarrow> string \<Rightarrow> 's LSM" where
  "remove_prefix E s preffix =
     (case LSM_iters E s 0 (prefix_compare preffix) of
        None \<Rightarrow> s
      | Some elems \<Rightarrow> LSM_remove_batch E s (map fst elems))"

definition expire_set_clean :: "'s engine_ops \<Rightarrow> RedisConfig \<Rightarrow> int \<Rightarrow> 's LSM \<Rightarrow> string \<Rightarrow> bool cpp \<times> 's LSM" where
  "expire_set_clean E cfg now s key =
     (case LSM_get E s (get_explire_key cfg key) of (expire_query, s) \<Rightarrow>
        and_then (is_expired now expire_query, s) (\<lambda>expired s.
          if expired
          then (Inr True,
                remove_prefix E (LSM_remove E (LSM_remove E s key) (get_explire_key cfg key)) (get_set_key_preffix cfg key))
          else (Inr False, s)))"

fun sadd_loop ::
    "'s engine_ops \<Rightarrow> RedisConfig \<Rightarrow> string \<Rightarrow> 's LSM \<Rightarrow> (string \<times> string) list \<Rightarrow> string list \<Rightarrow> (string \<times> string) list \<times> 's LSM" where
  "sadd_loop E cfg key s put_kvs [] = (put_kvs, s)"
| "sadd_loop E cfg key s put_kvs (member # ms) =
     (case LSM_get E s (get_set_member_key cfg key member) of (v, s) \<Rightarrow>
        sadd_loop E cfg key s
          (if v = None then put_kvs @ [(get_set_member_key cfg key member, get_set_member_value)] else put_kvs) ms)"

text \<open>The stored size plus the change, both \<^verbatim>\<open>int\<close>.\<close>

definition new_size :: "string option \<Rightarrow> int \<Rightarrow> int cpp" where
  "new_size key_query set_size =
     (case key_query of
        None \<Rightarrow> Inr set_size
      | Some v \<Rightarrow> cpp_bind (stoi v) (\<lambda>prev_size. signed_range 32 (set_size + prev_size)))"

definition redis_sadd :: "'s engine_ops \<Rightarrow> RedisConfig \<Rightarrow> int \<Rightarrow> 's LSM \<Rightarrow> string list \<Rightarrow> 's redis" where
  "redis_sadd E cfg now s args =
     (case args of
        cmd # key # members \<Rightarrow>
          and_then (expire_set_clean E cfg now s key) (\<lambda>_ s.
            case sadd_loop E cfg key s [] members of (put_kvs, s) \<Rightarrow>
            case LSM_get E s key of (key_query, s) \<Rightarrow>
              and_then (new_size key_query (wrap_int (int (length put_kvs))), s) (\<lambda>set_size s.
                let put_kvs = put_kvs @ [(key, to_string set_size)]
                in (Inr (int_reply (int (length put_kvs) - 1)), LSM_put_batch E s put_kvs)))
      | _ \<Rightarrow> (Inl Undefined, s))"

fun srem_loop ::
    "'s engine_ops \<Rightarrow> RedisConfig \<Rightarrow> string \<Rightarrow> 's LSM \<Rightarrow> string list \<Rightarrow> string list \<Rightarrow> string list \<times> 's LSM" where
  "srem_loop E cfg key s del_kvs [] = (del_kvs, s)"
| "srem_loop E cfg key s del_kvs (member # ms) =
     (case LSM_get E s (get_set_member_key cfg key member) of (v, s) \<Rightarrow>
        srem_loop E cfg key s (if v \<noteq> None then del_kvs @ [get_set_member_key cfg key member] else del_kvs) ms)"

definition redis_srem :: "'s engine_ops \<Rightarrow> RedisConfig \<Rightarrow> int \<Rightarrow> 's LSM \<Rightarrow> string list \<Rightarrow> 's redis" where
  "redis_srem E cfg now s args =
     (case args of
        cmd # key # members \<Rightarrow>
          and_then (expire_set_clean E cfg now s key) (\<lambda>is_expired s.
            if is_expired then (Inr (int_reply 0), s)
            else case srem_loop E cfg key s [] members of (del_kvs, s) \<Rightarrow>
                 case LSM_get E s key of (key_query, s) \<Rightarrow>
                   and_then (new_size key_query (wrap_int (- int (length del_kvs))), s) (\<lambda>set_size s.
                     (Inr (int_reply (int (length del_kvs))),
                      LSM_remove_batch E (LSM_put E s key (to_string set_size)) del_kvs)))
      | _ \<Rightarrow> (Inl Undefined, s))"

definition redis_sismember :: "'s engine_ops \<Rightarrow> RedisConfig \<Rightarrow> int \<Rightarrow> 's LSM \<Rightarrow> string \<Rightarrow> string \<Rightarrow> 's redis" where
  "redis_sismember E cfg now s key member =
     and_then (expire_set_clean E cfg now s key) (\<lambda>is_expired s.
       if is_expired then (Inr (int_reply 0), s)
       else case LSM_get E s (get_set_member_key cfg key member) of (v, s) \<Rightarrow>
              (Inr (if v \<noteq> None then int_reply 1 else int_reply 0), s))"

definition redis_scard :: "'s engine_ops \<Rightarrow> RedisConfig \<Rightarrow> int \<Rightarrow> 's LSM \<Rightarrow> string \<Rightarrow> 's redis" where
  "redis_scard E cfg now s key =
     and_then (expire_set_clean E cfg now s key) (\<lambda>is_expired s.
       if is_expired then (Inr (int_reply 0), s)
       else case LSM_get E s key of (key_query, s) \<Rightarrow>
              (Inr (case key_query of Some v \<Rightarrow> '':'' @ v @ crlf | None \<Rightarrow> int_reply 0), s))"

definition redis_smembers :: "'s engine_ops \<Rightarrow> RedisConfig \<Rightarrow> int \<Rightarrow> 's LSM \<Rightarrow> string \<Rightarrow> 's redis" where
  "redis_smembers E cfg now s key =
     and_then (expire_set_clean E cfg now s key) (\<lambda>is_expired s.
       if is_expired then (Inr (''*0'' @ crlf), s)
       else (Inr (case LSM_iters E s 0 (prefix_compare (get_set_member_prefix cfg key)) of
                    None \<Rightarrow> ''*0'' @ crlf
                  | Some elems \<Rightarrow> array_reply (map (\<lambda>(member_key, _). drop (length (get_set_member_prefix cfg key)) member_key) elems)), s))"

subsection \<open>Specification\<close>

datatype set_cmd = SAdd "string list" | SRem "string list" | SIsMember string | SCard | SMembers

fun set_spec :: "set_cmd \<Rightarrow> string set \<Rightarrow> string \<times> string set" where
  "set_spec (SAdd ms) S = (int_reply (int (card (set ms - S))), S \<union> set ms)"
| "set_spec (SRem ms) S = (int_reply (int (card (set ms \<inter> S))), S - set ms)"
| "set_spec (SIsMember x) S = (int_reply (if x \<in> S then 1 else 0), S)"
| "set_spec SCard S = (int_reply (int (card S)), S)"
| "set_spec SMembers S = (array_reply (sorted_list_of_set S), S)"

text \<open>The set with its deadline; a command that comes later finds it empty.\<close>

definition set_now :: "int \<Rightarrow> string set \<times> int option \<Rightarrow> string set \<times> int option" where
  "set_now now st = (if late now (snd st) then ({}, None) else st)"

definition set_step :: "int \<Rightarrow> set_cmd \<Rightarrow> string set \<times> int option \<Rightarrow> string \<times> string set \<times> int option" where
  "set_step now c st = (case set_now now st of (S, d) \<Rightarrow> case set_spec c S of (r, S') \<Rightarrow> (r, S', d))"

fun set_exec :: "'s engine_ops \<Rightarrow> RedisConfig \<Rightarrow> int \<Rightarrow> 's LSM \<Rightarrow> string \<Rightarrow> set_cmd \<Rightarrow> 's redis" where
  "set_exec E cfg now s k (SAdd ms) = redis_sadd E cfg now s (''SADD'' # k # ms)"
| "set_exec E cfg now s k (SRem ms) = redis_srem E cfg now s (''SREM'' # k # ms)"
| "set_exec E cfg now s k (SIsMember x) = redis_sismember E cfg now s k x"
| "set_exec E cfg now s k SCard = redis_scard E cfg now s k"
| "set_exec E cfg now s k SMembers = redis_smembers E cfg now s k"

fun set_cost :: "set_cmd \<Rightarrow> nat" where
  "set_cost (SAdd ms) = length ms + 2"
| "set_cost (SRem ms) = length ms + 3"
| "set_cost _ = 1"

text \<open>The counts are right only when no member is named twice in one command.\<close>

fun set_cmd_ok :: "set_cmd \<Rightarrow> bool" where
  "set_cmd_ok (SAdd ms) \<longleftrightarrow> distinct ms"
| "set_cmd_ok (SRem ms) \<longleftrightarrow> distinct ms"
| "set_cmd_ok _ \<longleftrightarrow> True"

fun set_session :: "'s engine_ops \<Rightarrow> RedisConfig \<Rightarrow> 's LSM \<Rightarrow> string \<Rightarrow> (int \<times> set_cmd) list \<Rightarrow> string list cpp \<times> 's LSM" where
  "set_session E cfg s k [] = (Inr [], s)"
| "set_session E cfg s k ((now, c) # cs) =
     and_then (set_exec E cfg now s k c) (\<lambda>r s.
     and_then (set_session E cfg s k cs) (\<lambda>rs s. (Inr (r # rs), s)))"

fun set_session_spec :: "string set \<times> int option \<Rightarrow> (int \<times> set_cmd) list \<Rightarrow> string list \<times> string set \<times> int option" where
  "set_session_spec st [] = ([], st)"
| "set_session_spec st ((now, c) # cs) =
     (case set_step now c st of (r, st) \<Rightarrow> case set_session_spec st cs of (rs, st) \<Rightarrow> (r # rs, st))"

fun set_session_cost :: "(int \<times> set_cmd) list \<Rightarrow> nat" where
  "set_session_cost [] = 0"
| "set_session_cost ((now, c) # cs) = 4 + set_cost c + set_session_cost cs"

text \<open>
  What the database holds: the members under their keys, the size under the key (possibly nothing for
  an empty set), the deadline under the expiry key.
\<close>

definition set_entries :: "RedisConfig \<Rightarrow> string \<Rightarrow> string option \<Rightarrow> string set \<Rightarrow> string option \<Rightarrow> kv \<Rightarrow> kv" where
  "set_entries cfg k c S e m x =
     (if x = get_explire_key cfg k then e
      else if x = k then c
      else if prefix (get_set_key_preffix cfg k) x
           then (if drop (length (get_set_key_preffix cfg k)) x \<in> S then Some get_set_member_value else None)
      else m x)"

definition size_rep :: "string set \<Rightarrow> string option \<Rightarrow> bool" where
  "size_rep S c \<longleftrightarrow> c = Some (to_string (int (card S))) \<or> (S = {} \<and> c = None)"

definition set_db :: "RedisConfig \<Rightarrow> string \<Rightarrow> string set \<times> int option \<Rightarrow> kv \<Rightarrow> kv \<Rightarrow> bool" where
  "set_db cfg k st m v \<longleftrightarrow> (\<exists>c. size_rep (fst st) c \<and> v = set_entries cfg k c (fst st) (map_option to_string (snd st)) m)"

text \<open>The database after a command that stores the number of members.\<close>

definition set_stored :: "RedisConfig \<Rightarrow> string \<Rightarrow> string set \<times> int option \<Rightarrow> kv \<Rightarrow> kv" where
  "set_stored cfg k st m = set_entries cfg k (Some (to_string (int (card (fst st))))) (fst st) (map_option to_string (snd st)) m"

lemma set_db_stored: "set_db cfg k st m (set_stored cfg k st m)"
  by (auto simp: set_db_def set_stored_def size_rep_def)

lemma append_less_append [simp]: "(p @ a :: string) < p @ b \<longleftrightarrow> a < b"
  by (induction p) auto

lemma drop_less: "prefix p a \<Longrightarrow> prefix p b \<Longrightarrow> a < b \<Longrightarrow> drop (length p) a < (drop (length p) b :: string)"
  by (auto simp: prefix_def)

lemma sorted_strip_prefix:
  "sorted_wrt (<) ks \<Longrightarrow> \<forall>k\<in>set ks. prefix p k \<Longrightarrow> sorted_wrt (<) (map (drop (length p)) ks :: string list)"
  by (induction ks) (auto intro: drop_less)

lemma strip_prefix_inverse: "\<forall>k\<in>set ks. prefix p k \<Longrightarrow> map ((@) p) (map (drop (length p)) ks) = ks"
  by (induction ks) (auto simp: prefix_def)

lemma member_key: "get_set_member_key cfg k x = get_set_key_preffix cfg k @ x"
  "get_set_member_prefix cfg k = get_set_key_preffix cfg k"
  by (simp_all add: get_set_member_key_def get_set_key_preffix_def get_set_member_prefix_def)

lemma card_add_le: "finite S \<Longrightarrow> card (S \<union> set ms) \<le> card S + length ms"
  using card_Un_le [of S "set ms"] card_length [of ms] by linarith

lemma card_diff_le: "finite S \<Longrightarrow> card (S - A) \<le> card S"
  by (rule card_mono) auto

lemma set_step_bounds:
  assumes "finite (fst st)" "deadline_ok (snd st)"
  shows "finite (fst (snd (set_step now c st))) \<and> deadline_ok (snd (snd (set_step now c st))) \<and>
    card (fst (snd (set_step now c st))) \<le> card (fst st) + set_cost c"
proof -
  obtain S d where Sd: "set_now now st = (S, d)" by (cases "set_now now st")
  then have S: "finite S" "card S \<le> card (fst st)" "deadline_ok d"
    using assms by (auto simp: set_now_def deadline_ok_def split: if_splits)
  have "card (snd (set_spec c S)) \<le> card S + set_cost c" "finite (snd (set_spec c S))"
    using S(1) by (cases c; simp add: card_diff_le trans_le_add1 order.trans [OF card_add_le])+
  then show ?thesis using S by (simp add: set_step_def Sd split_beta)
qed

subsection \<open>Refinement\<close>

context redis_store
begin

lemma set_space_neq [simp]:
  "get_set_key_preffix cfg k @ x \<noteq> k" "k \<noteq> get_set_key_preffix cfg k @ x"
  "get_set_key_preffix cfg k @ x \<noteq> get_explire_key cfg k'" "get_explire_key cfg k' \<noteq> get_set_key_preffix cfg k @ x"
proof -
  show "get_set_key_preffix cfg k @ x \<noteq> k" "k \<noteq> get_set_key_preffix cfg k @ x"
    by (auto simp: get_set_key_preffix_def dest: arg_cong [of _ _ length])
  show "get_set_key_preffix cfg k @ x \<noteq> get_explire_key cfg k'" "get_explire_key cfg k' \<noteq> get_set_key_preffix cfg k @ x"
    using parallel_append [OF header_set, of k' "k @ ''_'' @ x"] by (auto simp: get_set_key_preffix_def get_explire_key_def)
qed

lemma set_entries_apply [simp]:
  "set_entries cfg k c S e m k = c" "set_entries cfg k c S e m (get_explire_key cfg k) = e"
  "set_entries cfg k c S e m (get_set_key_preffix cfg k @ x) = (if x \<in> S then Some get_set_member_value else None)"
  by (simp_all add: set_entries_def)

lemma set_entries_put_member:
  "kv_put (get_set_key_preffix cfg k @ x) get_set_member_value (set_entries cfg k c S e m) = set_entries cfg k c (insert x S) e m"
  by (rule ext) (auto simp: set_entries_def get_set_member_value_def elim!: prefixE)

lemma set_entries_del_members:
  "kv_dels (map ((@) (get_set_key_preffix cfg k)) xs) (set_entries cfg k c S e m) = set_entries cfg k c (S - set xs) e m"
  by (rule ext) (auto simp: set_entries_def elim!: prefixE)

lemma set_entries_put_key:
  "v \<noteq> [] \<Longrightarrow> kv_put k v (set_entries cfg k c S e m) = set_entries cfg k (Some v) S e m"
  by (rule ext) (auto simp: set_entries_def)

lemma set_entries_put_members:
  "kv_puts (map (\<lambda>x. (get_set_key_preffix cfg k @ x, get_set_member_value)) xs) (set_entries cfg k c S e m) =
   set_entries cfg k c (S \<union> set xs) e m"
  by (induction xs arbitrary: S) (simp_all add: set_entries_put_member del: kv_put_apply)

lemma set_entries_clean:
  "kv_del (get_explire_key cfg k) (kv_del k (set_entries cfg k c S e m)) = set_entries cfg k None S None m"
  by (rule ext) (auto simp: set_entries_def)

lemma set_iters:
  assumes "can s n" "view s = set_entries cfg k c S e m"
  shows "case LSM_iters E s 0 (prefix_compare (get_set_key_preffix cfg k)) of
      None \<Rightarrow> S = {} | Some xs \<Rightarrow> S \<noteq> {} \<and> finite S \<and> map fst xs = map ((@) (get_set_key_preffix cfg k)) (sorted_list_of_set S)"
proof (cases "LSM_iters E s 0 (prefix_compare (get_set_key_preffix cfg k))")
  case None
  let ?p = "get_set_key_preffix cfg k"
  have none: "view s (?p @ x) = None" for x
    using iters_law [OF assms(1), of ?p] None by (simp add: prefix_answer_def)
  have "x \<notin> S" for x using none [of x] by (simp add: assms(2) split: if_splits)
  then show ?thesis using None by auto
next
  case (Some xs)
  let ?p = "get_set_key_preffix cfg k"
  have xs: "xs \<noteq> []" "sorted_wrt (<) (map fst xs)" "\<And>a b. (a, b) \<in> set xs \<longleftrightarrow> prefix ?p a \<and> view s a = Some b"
    using iters_law [OF assms(1), of ?p] Some by (auto simp: prefix_answer_def)
  have pre: "\<forall>a\<in>set (map fst xs). prefix ?p a" using xs(3) by auto
  let ?ys = "map (drop (length ?p)) (map fst xs)"
  have app: "map ((@) ?p) ?ys = map fst xs" by (rule strip_prefix_inverse [OF pre])
  have so: "sorted_wrt (<) ?ys" by (rule sorted_strip_prefix [OF xs(2) pre])
  have "x \<in> set ?ys \<longleftrightarrow> x \<in> S" for x
  proof -
    have "x \<in> set ?ys \<longleftrightarrow> (\<exists>b. (?p @ x, b) \<in> set xs)"
      using pre by (force simp: prefix_def image_iff)
    then show ?thesis by (simp add: xs(3) assms(2))
  qed
  then have st: "set ?ys = S" by blast
  then have fin: "finite S" by blast
  have "?ys = sorted_list_of_set S"
    using so st fin by (metis sorted_list_of_set.sorted_key_list_of_set_unique sorted_wrt_map strict_sorted_iff distinct_card)
  then show ?thesis using Some app st fin xs(1) by auto
qed

lemma remove_prefix_ok:
  assumes "can s (Suc n)" "view s = set_entries cfg k c S e m"
  shows "view (remove_prefix E s (get_set_key_preffix cfg k)) = set_entries cfg k c {} e m"
    "can (remove_prefix E s (get_set_key_preffix cfg k)) n"
proof -
  let ?p = "get_set_key_preffix cfg k"
  have n: "can s n" by (rule can_less [OF assms(1)]) simp
  have "view (remove_prefix E s ?p) = set_entries cfg k c {} e m \<and> can (remove_prefix E s ?p) n"
  proof (cases "LSM_iters E s 0 (prefix_compare ?p)")
    case None
    then have "S = {}" using set_iters [OF assms] by simp
    then show ?thesis using None n assms(2) by (simp add: remove_prefix_def)
  next
    case (Some xs)
    then have x: "finite S" "map fst xs = map ((@) ?p) (sorted_list_of_set S)" using set_iters [OF assms] by simp_all
    show ?thesis using Some x remove_batch_law [OF assms(1), of "map fst xs"] assms(2)
      by (simp add: remove_prefix_def set_entries_del_members del: kv_dels_apply)
  qed
  then show "view (remove_prefix E s ?p) = set_entries cfg k c {} e m" "can (remove_prefix E s ?p) n" by auto
qed

lemma set_clean_ok:
  assumes "can s (n + 4)" "set_db cfg k st m (view s)" "deadline_ok (snd st)"
  shows "\<exists>s'. expire_set_clean E cfg now s k = (Inr (late now (snd st)), s') \<and> set_db cfg k (set_now now st) m (view s') \<and> can s' n"
proof -
  let ?e = "get_explire_key cfg k"
  obtain c where c: "size_rep (fst st) c" "view s = set_entries cfg k c (fst st) (map_option to_string (snd st)) m"
    using assms(2) by (auto simp: set_db_def)
  have "can s (Suc (Suc (Suc (Suc n))))" using assms(1) by (simp add: numeral_eq_Suc)
  then obtain s1 where 1: "LSM_get E s ?e = (view s ?e, s1)" "view s1 = view s" "can s1 (Suc (Suc (Suc n)))" by (rule get_cases)
  have x: "is_expired now (view s ?e) = Inr (late now (snd st))" using c(2) assms(3) by (simp add: is_expired_deadline)
  show ?thesis
  proof (cases "late now (snd st)")
    case False
    have "can s1 n" by (rule can_less [OF 1(3)]) simp
    then show ?thesis using False 1 x assms(2) by (simp add: expire_set_clean_def set_now_def)
  next
    case True
    note 2 = remove_can [OF 1(3), of k]
    note 3 = remove_can [OF 2(2), of ?e]
    have v3: "view (LSM_remove E (LSM_remove E s1 k) ?e) = set_entries cfg k None (fst st) None m"
      using 1(2) 2(1) 3(1) c(2) by (simp add: set_entries_clean del: kv_del_apply)
    note 4 = remove_prefix_ok [OF 3(2) v3]
    have "set_db cfg k ({}, None) m (view (remove_prefix E (LSM_remove E (LSM_remove E s1 k) ?e) (get_set_key_preffix cfg k)))"
      using 4(1) by (auto simp: set_db_def size_rep_def)
    then show ?thesis using True 1 x 4(2) by (simp add: expire_set_clean_def set_now_def)
  qed
qed

lemma sadd_loop_ok:
  assumes "can s (n + length ms)" "view s = set_entries cfg k c S e m"
  shows "\<exists>s'. sadd_loop E cfg k s kvs ms =
      (kvs @ map (\<lambda>x. (get_set_key_preffix cfg k @ x, get_set_member_value)) (filter (\<lambda>x. x \<notin> S) ms), s') \<and>
    view s' = view s \<and> can s' n"
  using assms
proof (induction ms arbitrary: s kvs)
  case (Cons x ms)
  have "can s (Suc (n + length ms))" using Cons.prems(1) by simp
  then obtain s1 where 1: "LSM_get E s (get_set_key_preffix cfg k @ x) = (view s (get_set_key_preffix cfg k @ x), s1)"
    "view s1 = view s" "can s1 (n + length ms)" by (rule get_cases)
  have v: "view s (get_set_key_preffix cfg k @ x) = (if x \<in> S then Some get_set_member_value else None)" using Cons.prems(2) by simp
  note ih = Cons.IH [OF 1(3)]
  show ?case
  proof (cases "x \<in> S")
    case True
    then show ?thesis using ih [of kvs] Cons.prems(2) 1 v by (auto simp: member_key)
  next
    case False
    then show ?thesis using ih [of "kvs @ [(get_set_key_preffix cfg k @ x, get_set_member_value)]"] Cons.prems(2) 1 v
      by (auto simp: member_key)
  qed
qed simp

lemma srem_loop_ok:
  assumes "can s (n + length ms)" "view s = set_entries cfg k c S e m"
  shows "\<exists>s'. srem_loop E cfg k s ds ms =
      (ds @ map ((@) (get_set_key_preffix cfg k)) (filter (\<lambda>x. x \<in> S) ms), s') \<and> view s' = view s \<and> can s' n"
  using assms
proof (induction ms arbitrary: s ds)
  case (Cons x ms)
  have "can s (Suc (n + length ms))" using Cons.prems(1) by simp
  then obtain s1 where 1: "LSM_get E s (get_set_key_preffix cfg k @ x) = (view s (get_set_key_preffix cfg k @ x), s1)"
    "view s1 = view s" "can s1 (n + length ms)" by (rule get_cases)
  have v: "view s (get_set_key_preffix cfg k @ x) = (if x \<in> S then Some get_set_member_value else None)" using Cons.prems(2) by simp
  note ih = Cons.IH [OF 1(3)]
  show ?case
  proof (cases "x \<in> S")
    case True
    then show ?thesis using ih [of "ds @ [get_set_key_preffix cfg k @ x]"] Cons.prems(2) 1 v by (auto simp: member_key)
  next
    case False
    then show ?thesis using ih [of ds] Cons.prems(2) 1 v by (auto simp: member_key)
  qed
qed simp

lemma new_size_ok:
  assumes "size_rep S c" "int (card S) < 2 ^ 31" "0 \<le> int (card S) + d" "int (card S) + d < 2 ^ 31"
  shows "new_size c (wrap_int d) = Inr (int (card S) + d)"
proof -
  have w: "wrap_int d = d" using assms(2-4) by (intro wrap_int_id) linarith+
  have "stoi (to_string (int (card S))) = Inr (int (card S))" using assms(2) by (intro sto_int_to_string) simp_all
  then show ?thesis using assms by (auto simp: size_rep_def new_size_def w signed_range_def add.commute)
qed

lemma sadd_raw:
  assumes "expire_set_clean E cfg now s0 k = (Inr b, s)" "can s (n + set_cost (SAdd ms))"
    and "size_rep S c" "view s = set_entries cfg k c S e m" "int (card S) + int (length ms) < 2 ^ 31"
  shows "gives view can (redis_sadd E cfg now s0 (cmd # k # ms)) (Inr (int_reply (int (length (filter (\<lambda>x. x \<notin> S) ms)))))
    (set_entries cfg k (Some (to_string (int (card S) + int (length (filter (\<lambda>x. x \<notin> S) ms))))) (S \<union> set ms) e m) n"
proof -
  let ?new = "filter (\<lambda>x. x \<notin> S) ms" and ?p = "get_set_key_preffix cfg k"
  let ?kvs = "map (\<lambda>x. (?p @ x, get_set_member_value)) ?new" and ?sz = "int (card S) + int (length (filter (\<lambda>x. x \<notin> S) ms))"
  have cs: "can s (Suc (Suc n) + length ms)" using assms(2) by (simp add: ac_simps)
  obtain s1 where 1: "sadd_loop E cfg k s [] ms = (?kvs, s1)" "view s1 = view s" "can s1 (Suc (Suc n))"
    using sadd_loop_ok [OF cs assms(4), of "[]"] by auto
  obtain s2 where 2: "LSM_get E s1 k = (view s1 k, s2)" "view s2 = view s1" "can s2 (Suc n)" by (rule get_cases [OF 1(3)])
  have "length ?new \<le> length ms" by simp
  then have "int (card S) + int (length ms) < 2 ^ 31" "int (length ?new) \<le> int (length ms)" using assms(5) by auto
  then have "new_size c (wrap_int (int (length ?new))) = Inr ?sz" by (intro new_size_ok [OF assms(3)]) linarith+
  moreover have "view s1 k = c" using 1(2) assms(4) by simp
  ultimately have sz: "new_size (view s1 k) (wrap_int (int (length ?kvs))) = Inr ?sz" by (simp only: length_map)
  let ?all = "?kvs @ [(k, to_string ?sz)]"
  note 3 = put_batch_law [OF 2(3), of ?all]
  have un: "S \<union> set ?new = S \<union> set ms" by auto
  have "view (LSM_put_batch E s2 ?all) = set_entries cfg k (Some (to_string ?sz)) (S \<union> set ms) e m"
    using 3 2(2) 1(2) assms(4) un
    by (simp only: kv_puts_append set_entries_put_members set_entries_put_key [OF to_string_not_Nil] kv_puts_simps)
  then show ?thesis using assms(1) 1 2 3 sz by (simp add: redis_sadd_def gives_def Let_def)
qed

lemma sadd_ok:
  assumes "expire_set_clean E cfg now s0 k = (Inr b, s)" "can s (n + set_cost (SAdd ms))"
    and "size_rep S c" "view s = set_entries cfg k c S (map_option to_string d) m"
    and "finite S" "distinct ms" "int (card S) + int (length ms) < 2 ^ 31"
  shows "gives view can (redis_sadd E cfg now s0 (cmd # k # ms)) (Inr (fst (set_spec (SAdd ms) S))) (set_stored cfg k (S \<union> set ms, d) m) n"
proof -
  let ?new = "filter (\<lambda>x. x \<notin> S) ms"
  have eq: "set ?new = set ms - S" by auto
  have cn: "card (set ms - S) = length ?new" unfolding eq [symmetric] by (rule distinct_card) (use assms(6) in simp)
  have "S \<union> set ms = S \<union> (set ms - S)" "S \<inter> (set ms - S) = {}" by auto
  then have "int (card (S \<union> set ms)) = int (card S) + int (length ?new)"
    using card_Un_disjoint [OF assms(5), of "set ms - S"] cn by simp
  then show ?thesis using sadd_raw [OF assms(1-4,7), of cmd] cn by (simp add: set_stored_def)
qed

lemma srem_ok:
  assumes "expire_set_clean E cfg now s0 k = (Inr False, s)" "can s (n + set_cost (SRem ms))"
    and "size_rep S c" "view s = set_entries cfg k c S (map_option to_string d) m"
    and "finite S" "distinct ms" "int (card S) < 2 ^ 31"
  shows "gives view can (redis_srem E cfg now s0 (cmd # k # ms)) (Inr (fst (set_spec (SRem ms) S))) (set_stored cfg k (S - set ms, d) m) n"
proof -
  let ?old = "filter (\<lambda>x. x \<in> S) ms" and ?p = "get_set_key_preffix cfg k"
  let ?ds = "map ((@) ?p) ?old"
  have cs: "can s (Suc (Suc (Suc n)) + length ms)" using assms(2) by (simp add: ac_simps numeral_eq_Suc)
  obtain s1 where 1: "srem_loop E cfg k s [] ms = (?ds, s1)" "view s1 = view s" "can s1 (Suc (Suc (Suc n)))"
    using srem_loop_ok [OF cs assms(4), of "[]"] by auto
  obtain s2 where 2: "LSM_get E s1 k = (view s1 k, s2)" "view s2 = view s1" "can s2 (Suc (Suc n))" by (rule get_cases [OF 1(3)])
  have eq: "set ?old = set ms \<inter> S" by auto
  have cn: "card (set ms \<inter> S) = length ?old" unfolding eq [symmetric] by (rule distinct_card) (use assms(6) in simp)
  have le: "card (set ms \<inter> S) \<le> card S" by (intro card_mono) (use assms(5) in auto)
  have cd: "int (card (S - set ms)) = int (card S) - int (length ?old)"
    using card_Diff_subset_Int [of S "set ms"] le cn by (simp add: Int_commute of_nat_diff)
  have "new_size c (wrap_int (- int (length ?old))) = Inr (int (card S) + - int (length ?old))"
    by (rule new_size_ok [OF assms(3)]) (use assms(7) le cn in linarith)+
  moreover have "view s1 k = c" using 1(2) assms(4) by simp
  ultimately have sz: "new_size (view s1 k) (wrap_int (- int (length ?ds))) = Inr (int (card (S - set ms)))"
    using cd by (simp only: length_map) simp
  note 3 = put_can [OF 2(3), of k "to_string (int (card (S - set ms)))"]
  let ?s3 = "LSM_put E s2 k (to_string (int (card (S - set ms))))"
  note 4 = remove_batch_law [OF 3(2), of ?ds]
  have un: "S - set ?old = S - set ms" by auto
  have "view (LSM_remove_batch E ?s3 ?ds) = set_stored cfg k (S - set ms, d) m"
    using 4 3(1) 2(2) 1(2) assms(4) un
    by (simp only: set_entries_put_key [OF to_string_not_Nil] set_entries_del_members set_stored_def fst_conv snd_conv)
  then show ?thesis using assms(1) 1 2 4 sz cn by (auto simp: redis_srem_def gives_def Let_def)
qed

lemma set_query_ok:
  assumes "expire_set_clean E cfg now s0 k = (Inr False, s)" "can s (Suc n)"
    and c: "size_rep S c" "view s = set_entries cfg k c S e m" and "finite S"
  shows "gives view can (redis_sismember E cfg now s0 k x) (Inr (fst (set_spec (SIsMember x) S))) (view s) n"
    and "gives view can (redis_scard E cfg now s0 k) (Inr (fst (set_spec SCard S))) (view s) n"
    and "gives view can (redis_smembers E cfg now s0 k) (Inr (fst (set_spec SMembers S))) (view s) n"
proof -
  let ?p = "get_set_key_preffix cfg k"
  have n: "can s n" by (rule can_less [OF assms(2)]) simp
  obtain s1 where 1: "LSM_get E s (?p @ x) = (view s (?p @ x), s1)" "view s1 = view s" "can s1 n" by (rule get_cases [OF assms(2)])
  then show "gives view can (redis_sismember E cfg now s0 k x) (Inr (fst (set_spec (SIsMember x) S))) (view s) n"
    using assms(1) c(2) by (simp add: redis_sismember_def gives_def member_key)
  obtain s2 where 2: "LSM_get E s k = (view s k, s2)" "view s2 = view s" "can s2 n" by (rule get_cases [OF assms(2)])
  have "view s k = c" using c(2) by simp
  then show "gives view can (redis_scard E cfg now s0 k) (Inr (fst (set_spec SCard S))) (view s) n"
    using assms(1) 2 c(1) by (auto simp: redis_scard_def gives_def size_rep_def int_reply_def)
  have z: "''*0'' @ crlf = array_reply []" by code_simp
  show "gives view can (redis_smembers E cfg now s0 k) (Inr (fst (set_spec SMembers S))) (view s) n"
  proof (cases "LSM_iters E s 0 (prefix_compare ?p)")
    case None
    then show ?thesis using set_iters [OF n c(2)] assms(1) n z by (simp add: redis_smembers_def gives_def member_key)
  next
    case (Some xs)
    then have "map (drop (length ?p)) (map fst xs) = sorted_list_of_set S" using set_iters [OF n c(2)] by (simp add: comp_def)
    then have "map (\<lambda>(a, b). drop (length ?p) a) xs = sorted_list_of_set S" by (simp add: comp_def case_prod_unfold)
    then show ?thesis using Some assms(1) n by (simp add: redis_smembers_def gives_def member_key)
  qed
qed

lemma set_exec_ok:
  assumes "can s (n + 4 + set_cost c)" "set_db cfg k st m (view s)" "deadline_ok (snd st)" "finite (fst st)"
    and "set_cmd_ok c" "int (card (fst st)) + int (set_cost c) < 2 ^ 31"
  shows "\<exists>v. gives view can (set_exec E cfg now s k c) (Inr (fst (set_step now c st))) v n \<and>
    set_db cfg k (snd (set_step now c st)) m v"
proof -
  obtain S d where Sd: "set_now now st = (S, d)" by (cases "set_now now st")
  have "can s ((n + set_cost c) + 4)" using assms(1) by (simp add: ac_simps)
  then obtain s1 where 1: "expire_set_clean E cfg now s k = (Inr (late now (snd st)), s1)" "set_db cfg k (S, d) m (view s1)"
    "can s1 (n + set_cost c)" using set_clean_ok [OF _ assms(2,3)] Sd by metis
  obtain e where e: "size_rep S e" "view s1 = set_entries cfg k e S (map_option to_string d) m"
    using 1(2) by (auto simp: set_db_def)
  have S: "finite S" "card S \<le> card (fst st)" "late now (snd st) \<Longrightarrow> S = {}"
    using Sd assms(4) by (auto simp: set_now_def split: if_splits)
  have r: "set_step now c st = (fst (set_spec c S), snd (set_spec c S), d)"
    by (simp add: set_step_def Sd split_beta)
  have n: "can s1 n" by (rule can_less [OF 1(3)]) simp
  have b: "int (card S) + int (set_cost c) < 2 ^ 31" using S(2) assms(6) by linarith
  have add: ?thesis if "c = SAdd ms" for ms
    using sadd_ok [OF 1(1) _ e S(1), of n ms "''SADD''"] that 1(3) assms(5) b r set_db_stored by auto
  show ?thesis
  proof (cases "late now (snd st)")
    case False
    have cl: "expire_set_clean E cfg now s k = (Inr False, s1)" using 1(1) False by simp
    note q = set_query_ok [OF cl _ e S(1), of n]
    show ?thesis
    proof (cases c)
      case (SRem ms)
      then show ?thesis using srem_ok [OF cl _ e S(1), of n ms "''SREM''"] 1(3) assms(5) b r set_db_stored by auto
    next
      case (SIsMember x)
      then show ?thesis using q(1) [of x] 1(2,3) r by (intro exI [of _ "view s1"]) simp
    qed (use add q(2,3) 1(2,3) r in auto)
  next
    case True
    have z: "''*0'' @ crlf = array_reply []" by code_simp
    show ?thesis
    proof (cases c)
      case (SRem ms)
      then show ?thesis using 1 n r True S(3) by (auto simp: redis_srem_def gives_def)
    next
      case (SIsMember x)
      then show ?thesis using 1 n r True S(3) by (auto simp: redis_sismember_def gives_def)
    next
      case SCard
      then show ?thesis using 1 n r True S(3) by (auto simp: redis_scard_def gives_def)
    next
      case SMembers
      then show ?thesis using 1 n r True S(3) z by (auto simp: redis_smembers_def gives_def)
    qed (use add in auto)
  qed
qed

text \<open>A set without a deadline is left as it is by the check.\<close>

lemma set_clean_live:
  assumes "can s (Suc n)" "view s (get_explire_key cfg k) = None"
  obtains s' where "expire_set_clean E cfg now s k = (Inr False, s')" "view s' = view s" "can s' n"
proof -
  obtain s' where "LSM_get E s (get_explire_key cfg k) = (view s (get_explire_key cfg k), s')" "view s' = view s" "can s' n"
    by (rule get_cases [OF assms(1)])
  then show thesis using assms(2) by (intro that [of s']) (simp_all add: expire_set_clean_def is_expired_def)
qed

lemma set_session_ok:
  assumes "can s (n + set_session_cost cs)" "set_db cfg k st m (view s)" "deadline_ok (snd st)" "finite (fst st)"
    and "\<forall>(now, c)\<in>set cs. set_cmd_ok c" "int (card (fst st) + set_session_cost cs) < 2 ^ 31"
  shows "\<exists>v. gives view can (set_session E cfg s k cs) (Inr (fst (set_session_spec st cs))) v n \<and>
    set_db cfg k (snd (set_session_spec st cs)) m v"
  using assms
proof (induction cs arbitrary: s st)
  case Nil
  then show ?case by (auto simp: gives_def)
next
  case (Cons tc cs)
  obtain now c where tc: "tc = (now, c)" by (cases tc)
  let ?st = "snd (set_step now c st)"
  have cn: "can s ((n + set_session_cost cs) + 4 + set_cost c)" using Cons.prems(1) tc by (simp add: ac_simps)
  have ok: "set_cmd_ok c" "int (card (fst st)) + int (set_cost c) < 2 ^ 31" using Cons.prems(5,6) tc by auto
  obtain v where v: "gives view can (set_exec E cfg now s k c) (Inr (fst (set_step now c st))) v (n + set_session_cost cs)"
    "set_db cfg k ?st m v" using set_exec_ok [OF cn Cons.prems(2-4) ok] by blast
  then obtain s1 where s1: "set_exec E cfg now s k c = (Inr (fst (set_step now c st)), s1)" "view s1 = v"
    "can s1 (n + set_session_cost cs)" by (cases "set_exec E cfg now s k c") (auto simp: gives_def)
  have st: "finite (fst ?st)" "deadline_ok (snd ?st)" "card (fst ?st) \<le> card (fst st) + set_cost c"
    using set_step_bounds [OF Cons.prems(4,3)] by auto
  obtain w where w: "gives view can (set_session E cfg s1 k cs) (Inr (fst (set_session_spec ?st cs))) w n"
    "set_db cfg k (snd (set_session_spec ?st cs)) m w"
    using Cons.IH [OF s1(3), of ?st] v(2) s1(2) st Cons.prems(5,6) tc by auto
  have "set_session_spec st (tc # cs) =
      (fst (set_step now c st) # fst (set_session_spec ?st cs), snd (set_session_spec ?st cs))"
    by (simp add: tc split_beta)
  then show ?case using w s1(1) by (cases "set_session E cfg s1 k cs") (auto simp: tc gives_def)
qed

end

subsection \<open>Properties\<close>



text \<open>
  A member named twice in one SADD is counted twice: on every store, adding \<open>x\<close> twice to an empty set
  makes SCARD answer two, though the set has the one member \<open>x\<close>.
\<close>

theorem sadd_counts_duplicates:
  assumes "redis_store E view can cfg" "can s (n + 7)" "view s = set_entries cfg k None {} None m"
  shows "gives view can (and_then (redis_sadd E cfg now s [cmd, k, x, x]) (\<lambda>_ s. redis_scard E cfg now s k))
    (Inr (int_reply 2)) (set_entries cfg k (Some (to_string 2)) {x} None m) n"
proof -
  let ?v = "set_entries cfg k (Some (to_string 2)) {x} None m"
  note e = redis_store.set_entries_apply [OF assms(1)]
  have n: "can s (Suc ((n + 2) + set_cost (SAdd [x, x])))" using assms(2) by (simp add: numeral_eq_Suc)
  have "view s (get_explire_key cfg k) = None" by (simp add: assms(3) e)
  then obtain s1 where 1: "expire_set_clean E cfg now s k = (Inr False, s1)" "view s1 = view s"
    "can s1 ((n + 2) + set_cost (SAdd [x, x]))" by (rule redis_store.set_clean_live [OF assms(1) n])
  have g: "gives view can (redis_sadd E cfg now s [cmd, k, x, x]) (Inr (int_reply 2)) ?v (n + 2)"
    using redis_store.sadd_raw [OF assms(1) 1(1,3), where S = "{}" and c = None and e = None and m = m and cmd = cmd] 1(2) assms(3) by (simp add: size_rep_def)
  have "gives view can (redis_scard E cfg now s' k) (Inr (int_reply 2)) ?v n" if s': "view s' = ?v" "can s' (n + 2)" for s'
  proof -
    have "can s' (Suc (Suc n))" using s'(2) by simp
    then obtain s2 s3 where g: "LSM_get E s' (get_explire_key cfg k) = (view s' (get_explire_key cfg k), s2)"
        "LSM_get E s2 k = (view s' k, s3)" "view s3 = view s'" "can s3 n"
      by (rule redis_store.get_two_cases [OF assms(1), of s' n "get_explire_key cfg k" k]) simp
    then show ?thesis using s'(1) e by (simp add: redis_scard_def expire_set_clean_def is_expired_def gives_def int_reply_def)
  qed
  then show ?thesis by (rule gives_and_then [OF g])
qed

lemma sadd_counts_duplicates_witness:
  "fst (and_then (redis_sadd (skiplist_engine (\<lambda>i. False)) default_config 0 sl_db [''SADD'', ''k'', ''x'', ''x''])
     (\<lambda>_ s. redis_scard (skiplist_engine (\<lambda>i. False)) default_config 0 s ''k'')) = Inr (int_reply 2)"
proof -
  have c: "lsm_can sl_bounded sl_db (0 + 7)" by (rule sl_db_can) simp
  have v: "lsm_view sl_content sl_db = set_entries default_config ''k'' None {} None (\<lambda>_. None)"
    by (auto simp: sl_db_view set_entries_def)
  show ?thesis
    using sadd_counts_duplicates [OF sl_redis.redis_store_axioms [of "\<lambda>i. False"] c v, of 0 "''SADD''" "''x''"]
    by (simp add: gives_def)
qed

text \<open>
  DEL of a set removes its size and leaves its members: after SADD and DEL, which answers that one key
  was deleted, SISMEMBER still finds the member, and adding it again adds nothing.
\<close>

lemma del_keeps_members:
  "fst (and_then (redis_sadd (skiplist_engine (\<lambda>i. False)) default_config 0 sl_db [''SADD'', ''k'', ''x'']) (\<lambda>_ s.
     and_then (redis_del (skiplist_engine (\<lambda>i. False)) default_config s [''DEL'', ''k'']) (\<lambda>d s.
     and_then (redis_sismember (skiplist_engine (\<lambda>i. False)) default_config 0 s ''k'' ''x'') (\<lambda>i s.
     and_then (redis_sadd (skiplist_engine (\<lambda>i. False)) default_config 0 s [''SADD'', ''k'', ''x'']) (\<lambda>a s.
       (Inr [d, i, a], s)))))) = Inr [int_reply 1, int_reply 1, int_reply 0]"
  by code_simp

end
