(* ===== verification/Redis_List.thy ===== *)
theory Redis_List
  imports Redis_Base
begin

text \<open>
  Lists of the Redis layer: a list is stored under its key as the elements joined by a separator.
  The commands are shown to refine the commands on a list of strings.
\<close>

definition expire_list_clean :: "'s engine_ops \<Rightarrow> RedisConfig \<Rightarrow> int \<Rightarrow> 's LSM \<Rightarrow> string \<Rightarrow> bool cpp \<times> 's LSM" where
  "expire_list_clean E cfg now s key =
     (case LSM_get E s (get_explire_key cfg key) of (expire_query, s) \<Rightarrow>
        and_then (is_expired now expire_query, s) (\<lambda>expired s.
          if expired then (Inr True, LSM_remove E (LSM_remove E s key) (get_explire_key cfg key))
          else (Inr False, s)))"

definition value_or_empty :: "string option \<Rightarrow> string" where
  "value_or_empty v = (case v of None \<Rightarrow> [] | Some x \<Rightarrow> x)"

definition redis_lpush :: "'s engine_ops \<Rightarrow> RedisConfig \<Rightarrow> int \<Rightarrow> 's LSM \<Rightarrow> string \<Rightarrow> string \<Rightarrow> 's redis" where
  "redis_lpush E cfg now s key value =
     and_then (expire_list_clean E cfg now s key) (\<lambda>_ s.
       case LSM_get E s key of (list_opt, s) \<Rightarrow>
         let list_value = value_or_empty list_opt;
             list_value = (if list_value \<noteq> [] then value @ [redis_list_separator cfg] @ list_value else value)
         in (Inr (int_reply (int (length (split_str list_value (redis_list_separator cfg))))),
             LSM_put E s key list_value))"

definition redis_rpush :: "'s engine_ops \<Rightarrow> RedisConfig \<Rightarrow> int \<Rightarrow> 's LSM \<Rightarrow> string \<Rightarrow> string \<Rightarrow> 's redis" where
  "redis_rpush E cfg now s key value =
     and_then (expire_list_clean E cfg now s key) (\<lambda>_ s.
       case LSM_get E s key of (list_opt, s) \<Rightarrow>
         let list_value = value_or_empty list_opt;
             list_value = (if list_value \<noteq> [] then list_value @ [redis_list_separator cfg] @ value else value)
         in (Inr (int_reply (int (length (split_str list_value (redis_list_separator cfg))))),
             LSM_put E s key list_value))"

definition store_list :: "'s engine_ops \<Rightarrow> RedisConfig \<Rightarrow> 's LSM \<Rightarrow> string \<Rightarrow> string list \<Rightarrow> 's LSM" where
  "store_list E cfg s key elements =
     (if elements = [] then LSM_remove E s key else LSM_put E s key (join elements (redis_list_separator cfg)))"

definition redis_lpop :: "'s engine_ops \<Rightarrow> RedisConfig \<Rightarrow> int \<Rightarrow> 's LSM \<Rightarrow> string \<Rightarrow> 's redis" where
  "redis_lpop E cfg now s key =
     and_then (expire_list_clean E cfg now s key) (\<lambda>is_expire s.
       if is_expire then (Inr nil_reply, s)
       else case LSM_get E s key of
              (None, s) \<Rightarrow> (Inr nil_reply, s)
            | (Some v, s) \<Rightarrow>
                (case split_str v (redis_list_separator cfg) of
                   [] \<Rightarrow> (Inr nil_reply, s)
                 | value # elements \<Rightarrow> (Inr (bulk_reply value), store_list E cfg s key elements)))"

definition redis_rpop :: "'s engine_ops \<Rightarrow> RedisConfig \<Rightarrow> int \<Rightarrow> 's LSM \<Rightarrow> string \<Rightarrow> 's redis" where
  "redis_rpop E cfg now s key =
     and_then (expire_list_clean E cfg now s key) (\<lambda>is_expire s.
       if is_expire then (Inr nil_reply, s)
       else case LSM_get E s key of
              (None, s) \<Rightarrow> (Inr nil_reply, s)
            | (Some v, s) \<Rightarrow>
                let elements = split_str v (redis_list_separator cfg)
                in if elements = [] then (Inr nil_reply, s)
                   else (Inr (bulk_reply (last elements)), store_list E cfg s key (butlast elements)))"

definition redis_llen :: "'s engine_ops \<Rightarrow> RedisConfig \<Rightarrow> int \<Rightarrow> 's LSM \<Rightarrow> string \<Rightarrow> 's redis" where
  "redis_llen E cfg now s key =
     and_then (expire_list_clean E cfg now s key) (\<lambda>is_expired s.
       if is_expired then (Inr (int_reply 0), s)
       else case LSM_get E s key of
              (None, s) \<Rightarrow> (Inr (int_reply 0), s)
            | (Some v, s) \<Rightarrow> (Inr (int_reply (int (length (split_str v (redis_list_separator cfg))))), s))"

text \<open>
  The index arithmetic of LRANGE and ZRANGE: \<^verbatim>\<open>int\<close>s, but \<^verbatim>\<open>stop >= elements.size()\<close> compares as
  \<^verbatim>\<open>size_t\<close>, where a negative number is large.
\<close>

definition range_bounds :: "nat \<Rightarrow> int \<Rightarrow> int \<Rightarrow> int \<times> int" where
  "range_bounds sz start stop =
     (let start = (if start < 0 then wrap_int (start + int sz) else start);
          stop = (if stop < 0 then wrap_int (stop + int sz) else stop);
          start = (if start < 0 then 0 else start);
          stop = (if int sz \<le> stop mod 2 ^ 64 then wrap_int (int sz - 1) else stop)
      in (start, stop))"

definition range_reply :: "string list \<Rightarrow> int \<Rightarrow> int \<Rightarrow> string" where
  "range_reply elements start stop =
     (case range_bounds (length elements) start stop of (start, stop) \<Rightarrow>
        if stop < start then ''*0'' @ crlf
        else ''*'' @ to_string (stop - start + 1) @ crlf @ concat (map (\<lambda>i. bulk_reply (elements ! nat i)) [start..stop]))"

definition redis_lrange :: "'s engine_ops \<Rightarrow> RedisConfig \<Rightarrow> int \<Rightarrow> 's LSM \<Rightarrow> string \<Rightarrow> int \<Rightarrow> int \<Rightarrow> 's redis" where
  "redis_lrange E cfg now s key start stop =
     and_then (expire_list_clean E cfg now s key) (\<lambda>is_expire s.
       if is_expire then (Inr (''*0'' @ crlf), s)
       else case LSM_get E s key of
              (None, s) \<Rightarrow> (Inr (''*0'' @ crlf), s)
            | (Some v, s) \<Rightarrow>
                let elements = split_str v (redis_list_separator cfg)
                in if elements = [] then (Inr (''*0'' @ crlf), s)
                   else (Inr (range_reply elements start stop), s))"

subsection \<open>Specification\<close>

datatype list_cmd = LPush string | RPush string | LPop | RPop | LLen | LRange int int

definition list_slice :: "string list \<Rightarrow> int \<Rightarrow> int \<Rightarrow> string list" where
  "list_slice xs start stop =
     (let n = int (length xs);
          a = max 0 (if start < 0 then start + n else start);
          b = min (n - 1) (if stop < 0 then stop + n else stop)
      in take (nat (b - a + 1)) (drop (nat a) xs))"

fun list_spec :: "list_cmd \<Rightarrow> string list \<Rightarrow> string \<times> string list" where
  "list_spec (LPush v) xs = (int_reply (int (length (v # xs))), v # xs)"
| "list_spec (RPush v) xs = (int_reply (int (length (xs @ [v]))), xs @ [v])"
| "list_spec LPop xs = (case xs of [] \<Rightarrow> (nil_reply, []) | x # xs \<Rightarrow> (bulk_reply x, xs))"
| "list_spec RPop xs = (if xs = [] then (nil_reply, []) else (bulk_reply (last xs), butlast xs))"
| "list_spec LLen xs = (int_reply (int (length xs)), xs)"
| "list_spec (LRange a b) xs = (array_reply (list_slice xs a b), xs)"

text \<open>The inputs the encoding can represent, and the range bounds it treats as Redis does.\<close>

fun list_cmd_ok :: "RedisConfig \<Rightarrow> nat \<Rightarrow> list_cmd \<Rightarrow> bool" where
  "list_cmd_ok cfg n (LPush v) = token (redis_list_separator cfg) v"
| "list_cmd_ok cfg n (RPush v) = token (redis_list_separator cfg) v"
| "list_cmd_ok cfg n (LRange a b) = (- (2 ^ 31) \<le> a \<and> a < 2 ^ 31 \<and> - int n \<le> b \<and> b < 2 ^ 31)"
| "list_cmd_ok cfg n _ = True"

fun list_exec :: "'s engine_ops \<Rightarrow> RedisConfig \<Rightarrow> int \<Rightarrow> 's LSM \<Rightarrow> string \<Rightarrow> list_cmd \<Rightarrow> 's redis" where
  "list_exec E cfg now s k (LPush v) = redis_lpush E cfg now s k v"
| "list_exec E cfg now s k (RPush v) = redis_rpush E cfg now s k v"
| "list_exec E cfg now s k LPop = redis_lpop E cfg now s k"
| "list_exec E cfg now s k RPop = redis_rpop E cfg now s k"
| "list_exec E cfg now s k LLen = redis_llen E cfg now s k"
| "list_exec E cfg now s k (LRange a b) = redis_lrange E cfg now s k a b"

text \<open>A client session on one list: commands with the times they arrive.\<close>

fun list_session :: "'s engine_ops \<Rightarrow> RedisConfig \<Rightarrow> 's LSM \<Rightarrow> string \<Rightarrow> (int \<times> list_cmd) list \<Rightarrow> string list cpp \<times> 's LSM" where
  "list_session E cfg s k [] = (Inr [], s)"
| "list_session E cfg s k ((now, c) # cs) =
     and_then (list_exec E cfg now s k c) (\<lambda>r s.
     and_then (list_session E cfg s k cs) (\<lambda>rs s. (Inr (r # rs), s)))"

fun list_session_spec :: "string list \<Rightarrow> (int \<times> list_cmd) list \<Rightarrow> string list \<times> string list" where
  "list_session_spec xs [] = ([], xs)"
| "list_session_spec xs ((now, c) # cs) =
     (case list_spec c xs of (r, ys) \<Rightarrow> case list_session_spec ys cs of (rs, zs) \<Rightarrow> (r # rs, zs))"

fun list_session_ok :: "RedisConfig \<Rightarrow> string list \<Rightarrow> (int \<times> list_cmd) list \<Rightarrow> bool" where
  "list_session_ok cfg xs [] = True"
| "list_session_ok cfg xs ((now, c) # cs) \<longleftrightarrow>
     list_cmd_ok cfg (length xs) c \<and> list_session_ok cfg (snd (list_spec c xs)) cs"

text \<open>What the database holds for a list.\<close>

definition list_rep :: "RedisConfig \<Rightarrow> string list \<Rightarrow> string option" where
  "list_rep cfg xs = (if xs = [] then None else Some (join_with (redis_list_separator cfg) xs))"

definition list_valid :: "RedisConfig \<Rightarrow> string list \<Rightarrow> bool" where
  "list_valid cfg xs \<longleftrightarrow> (\<forall>x\<in>set xs. token (redis_list_separator cfg) x)"

lemma split_rep [simp]:
  "list_valid cfg xs \<Longrightarrow> split_str (join_with (redis_list_separator cfg) xs) (redis_list_separator cfg) = xs"
  by (simp add: split_str_def list_valid_def)

lemma kv_put_rep:
  "list_valid cfg xs \<Longrightarrow> xs \<noteq> [] \<Longrightarrow> kv_put k (join_with (redis_list_separator cfg) xs) m = m(k := list_rep cfg xs)"
  by (simp add: kv_put_def list_rep_def join_with_eq_Nil list_valid_def)

lemma list_valid_spec:
  "list_valid cfg xs \<Longrightarrow> list_cmd_ok cfg n c \<Longrightarrow> list_valid cfg (snd (list_spec c xs))"
  by (cases c) (auto simp: list_valid_def dest: in_set_butlastD split: list.splits)

subsection \<open>Ranges\<close>

lemma range_reply_slice:
  assumes "int (length xs) < 2 ^ 31" "xs \<noteq> []" "list_cmd_ok cfg (length xs) (LRange a b)"
  shows "range_reply xs a b = array_reply (list_slice xs a b)"
proof -
  let ?n = "int (length xs)"
  have n: "0 < ?n" using assms(2) by simp
  have ab: "- (2 ^ 31) \<le> a" "a < 2 ^ 31" "- ?n \<le> b" "b < 2 ^ 31" using assms(3) by simp_all
  define p where "p = max 0 (if a < 0 then a + ?n else a)"
  define q where "q = min (?n - 1) (if b < 0 then b + ?n else b)"
  have w: "wrap_int (a + ?n) = a + ?n" if "a < 0" using that ab n assms(1) by (intro wrap_int_id) linarith+
  have w': "wrap_int (b + ?n) = b + ?n" if "b < 0" using that ab n assms(1) by (intro wrap_int_id) linarith+
  have w'': "wrap_int (?n - 1) = ?n - 1" using n assms(1) by (intro wrap_int_id) linarith+
  have m: "x mod 2 ^ 64 = x" if "0 \<le> x" "x < 2 ^ 31" for x :: int using that by simp
  have b0: "0 \<le> (if b < 0 then b + ?n else b)" "(if b < 0 then b + ?n else b) < 2 ^ 31" using ab assms(1) by auto
  have rb: "range_bounds (length xs) a b = (p, q)"
    unfolding range_bounds_def Let_def p_def q_def using w w' w'' m [OF b0] n ab b0 by auto
  have q: "q < ?n" "0 \<le> p" by (simp_all add: q_def p_def)
  show ?thesis
  proof (cases "q < p")
    case True
    have "to_string 0 = ''0''" by code_simp
    then show ?thesis using True by (simp add: range_reply_def rb array_reply_def list_slice_def Let_def flip: p_def q_def)
  next
    case False
    have len: "length (take (nat (q - p + 1)) (drop (nat p) xs)) = nat (q - p + 1)" using q False by auto
    have "map (\<lambda>i. bulk_reply (xs ! nat i)) [p..q] = map bulk_reply (take (nat (q - p + 1)) (drop (nat p) xs))"
      using len q False by (intro nth_equalityI) (auto simp: nth_upto nat_add_distrib)
    then show ?thesis using False len
      by (simp add: range_reply_def rb array_reply_def list_slice_def Let_def flip: p_def q_def)
  qed
qed

subsection \<open>Refinement\<close>

context redis_store
begin

lemma list_clean_ok:
  assumes "can s (n + 3)" "is_expired now (view s (get_explire_key cfg k)) = Inr b"
  shows "gives view can (expire_list_clean E cfg now s k) (Inr b)
    (if b then kv_del (get_explire_key cfg k) (kv_del k (view s)) else view s) n"
proof -
  have "can s (Suc (Suc (Suc n)))" using assms(1) by (simp add: numeral_eq_Suc)
  then obtain s1 where g: "LSM_get E s (get_explire_key cfg k) = (view s (get_explire_key cfg k), s1)" "view s1 = view s"
    "can s1 (Suc (Suc n))" by (rule get_cases)
  note r1 = remove_can [OF g(3), of k]
  note r2 = remove_can [OF r1(2), of "get_explire_key cfg k"]
  have "can s1 n" by (rule can_less [OF g(3)]) simp
  then show ?thesis using g r1(1) r2 assms(2) by (auto simp: expire_list_clean_def gives_def simp del: kv_del_apply)
qed

text \<open>Without a deadline: the clean-up does nothing, and the command continues with a lookup.\<close>

lemma list_enter:
  assumes "can s (n + 2)" "view s (get_explire_key cfg k) = None"
  obtains s1 s2 where "expire_list_clean E cfg now s k = (Inr False, s1)" "LSM_get E s1 k = (view s k, s2)"
    "view s2 = view s" "can s2 n"
proof -
  have "can s (Suc (Suc n))" using assms(1) by simp
  then obtain s1 s2 where g: "LSM_get E s (get_explire_key cfg k) = (view s (get_explire_key cfg k), s1)"
      "LSM_get E s1 k = (view s k, s2)" "view s2 = view s" "can s2 n"
    by (rule get_two_cases [of s n "get_explire_key cfg k" k]) simp
  have "expire_list_clean E cfg now s k = (Inr False, s1)"
    using g(1) assms(2) by (simp add: expire_list_clean_def is_expired_def)
  with g show thesis by (intro that [of s1 s2])
qed

lemma store_list_ok:
  assumes "can s (Suc n)" "list_valid cfg xs"
  shows "view (store_list E cfg s k xs) = (view s)(k := list_rep cfg xs)" "can (store_list E cfg s k xs) n"
  using assms remove_can [OF assms(1), of k] put_can [OF assms(1), of k] kv_put_rep [OF assms(2)]
  by (auto simp: store_list_def join_def list_rep_def kv_del_def)

lemma list_exec_ok:
  assumes "can s (n + 3)" "view s (get_explire_key cfg k) = None" "view s k = list_rep cfg xs"
    and "list_valid cfg xs" "int (length xs) < 2 ^ 31" "list_cmd_ok cfg (length xs) c"
  shows "gives view can (list_exec E cfg now s k c) (Inr (fst (list_spec c xs)))
    ((view s)(k := list_rep cfg (snd (list_spec c xs)))) n"
proof -
  have "can s (Suc n + 2)" using assms(1) by (simp add: numeral_eq_Suc)
  then obtain s1 s2 where g: "expire_list_clean E cfg now s k = (Inr False, s1)" "LSM_get E s1 k = (view s k, s2)"
      "view s2 = view s" "can s2 (Suc n)" using assms(2) by (rule list_enter)
  have n: "can s2 n" by (rule can_less [OF g(4)]) simp
  have same: "(view s)(k := list_rep cfg xs) = view s" using assms(3) by auto
  have v: "list_valid cfg (snd (list_spec c xs))" by (rule list_valid_spec [OF assms(4,6)])
  have jn: "join_with (redis_list_separator cfg) xs \<noteq> []" if "xs \<noteq> []"
    using that assms(4) by (simp add: list_valid_def join_with_eq_Nil)
  note unf = gives_def list_rep_def value_or_empty_def Let_def
  note st = store_list_ok [OF g(4)]
  show ?thesis
  proof (cases c)
    case (LPush v)
    then have "(if value_or_empty (view s k) \<noteq> [] then v @ [redis_list_separator cfg] @ value_or_empty (view s k) else v) =
        join_with (redis_list_separator cfg) (v # xs)"
      using jn assms(3) by (cases xs) (auto simp: list_rep_def value_or_empty_def)
    then show ?thesis using LPush g put_can [OF g(4)] v kv_put_rep [of cfg "v # xs" k]
      by (simp add: redis_lpush_def gives_def Let_def del: join_with.simps kv_put_apply)
  next
    case (RPush v)
    then have "(if value_or_empty (view s k) \<noteq> [] then value_or_empty (view s k) @ [redis_list_separator cfg] @ v else v) =
        join_with (redis_list_separator cfg) (xs @ [v])"
      using jn assms(3) by (cases "xs = []") (auto simp: list_rep_def value_or_empty_def join_with_snoc)
    then show ?thesis using RPush g put_can [OF g(4)] v kv_put_rep [of cfg "xs @ [v]" k]
      by (simp add: redis_rpush_def gives_def Let_def del: join_with.simps kv_put_apply)
  next
    case LPop
    then show ?thesis using g n assms(3,4) same v st [of "tl xs" k]
      by (cases xs) (auto simp: redis_lpop_def gives_def list_rep_def)
  next
    case RPop
    then show ?thesis using g n assms(3,4) same v st [of "butlast xs" k]
      by (cases "xs = []") (auto simp: redis_rpop_def gives_def list_rep_def)
  next
    case LLen
    then show ?thesis using g n assms(3,4) same by (cases "xs = []") (auto simp: redis_llen_def gives_def list_rep_def)
  next
    case (LRange a b)
    have "''*0'' @ crlf = array_reply (list_slice [] a b)" by (simp add: array_reply_def list_slice_def) code_simp
    then show ?thesis using LRange g n assms(3-6) same range_reply_slice [of xs cfg a b]
      by (cases "xs = []") (auto simp: redis_lrange_def gives_def list_rep_def)
  qed
qed

lemma list_session_ok':
  assumes "can s (n + 3 * length cs)" "view s (get_explire_key cfg k) = None" "view s k = list_rep cfg xs"
    and "list_valid cfg xs" "int (length xs + length cs) < 2 ^ 31" "list_session_ok cfg xs cs"
  shows "gives view can (list_session E cfg s k cs) (Inr (fst (list_session_spec xs cs)))
    ((view s)(k := list_rep cfg (snd (list_session_spec xs cs)))) n"
  using assms
proof (induction cs arbitrary: s xs)
  case Nil
  then have "(view s)(k := list_rep cfg xs) = view s" by auto
  then show ?case using Nil by (simp add: gives_def)
next
  case (Cons tc cs)
  obtain now c where tc: "tc = (now, c)" by (cases tc)
  let ?ys = "snd (list_spec c xs)"
  have len: "length ?ys \<le> Suc (length xs)" by (cases c) (auto split: list.splits)
  have 1: "gives view can (list_exec E cfg now s k c) (Inr (fst (list_spec c xs))) ((view s)(k := list_rep cfg ?ys)) (n + 3 * length cs)"
    using Cons.prems tc by (intro list_exec_ok) (simp_all add: ac_simps)
  have 2: "gives view can (list_session E cfg s' k cs) (Inr (fst (list_session_spec ?ys cs)))
      ((view s)(k := list_rep cfg (snd (list_session_spec ?ys cs)))) n"
    if s': "view s' = (view s)(k := list_rep cfg ?ys)" "can s' (n + 3 * length cs)" for s'
  proof -
    have "list_valid cfg ?ys" using Cons.prems(4,6) tc list_valid_spec by auto
    then have "gives view can (list_session E cfg s' k cs) (Inr (fst (list_session_spec ?ys cs)))
        ((view s')(k := list_rep cfg (snd (list_session_spec ?ys cs)))) n"
      using Cons.prems s' tc len by (intro Cons.IH) auto
    then show ?thesis by (simp add: s'(1))
  qed
  have "list_session_spec xs (tc # cs) =
      (fst (list_spec c xs) # fst (list_session_spec ?ys cs), snd (list_session_spec ?ys cs))"
    by (simp add: tc split_beta)
  then show ?case using gives_and_then [OF 1] 2 by (auto simp: tc intro!: gives_and_then [OF 1] gives_and_then [OF 2] gives_return)
qed

end

subsection \<open>Properties\<close>



text \<open>
  An LRANGE whose stop lies before the first element answers the whole list from its first element,
  where the range is empty: the adjusted stop is negative, and its comparison with the
  size treats it as a large number.
\<close>

theorem lrange_stop_before_first:
  assumes "xs \<noteq> []" "int (length xs) < 2 ^ 31" "- (2 ^ 31) \<le> stop" "stop < - int (length xs)"
  shows "range_reply xs 0 stop = array_reply xs \<and> list_slice xs 0 stop = []"
proof
  let ?n = "int (length xs)"
  have n: "0 < ?n" using assms(1) by simp
  have w: "wrap_int (stop + ?n) = stop + ?n" "wrap_int (?n - 1) = ?n - 1"
    using assms(2-4) n by (intro wrap_int_id; linarith)+
  have "(stop + ?n) mod 2 ^ 64 = (stop + ?n + 2 ^ 64) mod 2 ^ 64" by simp
  also have "\<dots> = stop + ?n + 2 ^ 64" using assms(3,4) n by (intro mod_pos_pos_trivial) simp_all
  finally have "(stop + ?n) mod 2 ^ 64 = stop + ?n + 2 ^ 64" .
  then have b: "range_bounds (length xs) 0 stop = (0, ?n - 1)"
    using w assms(2-4) n by (simp add: range_bounds_def Let_def)
  have "map (\<lambda>i. bulk_reply (xs ! nat i)) [0..?n - 1] = map bulk_reply xs"
    using n by (intro nth_equalityI) (auto simp: nth_upto)
  then show "range_reply xs 0 stop = array_reply xs"
    using b n by (simp add: range_reply_def array_reply_def)
  show "list_slice xs 0 stop = []" using assms(4) n by (simp add: list_slice_def Let_def)
qed

lemma lrange_stop_before_first_witness:
  "range_reply [''a'', ''b''] 0 (- 3) = array_reply [''a'', ''b''] \<and> list_slice [''a'', ''b''] 0 (- 3) = []"
  by (rule lrange_stop_before_first) simp_all

text \<open>
  Popping the last element removes the list and leaves its deadline, so a new list under the key
  inherits it: here a list with the deadline 10 is emptied and filled again at time 5, and is gone at time 11.
\<close>

lemma emptied_list_keeps_deadline:
  "fst (let E = skiplist_engine (\<lambda>i. False); cfg = default_config in
     and_then (redis_rpush E cfg 0 sl_db ''k'' ''a'') (\<lambda>_ s.
     and_then (redis_expire E cfg 0 s ''k'' ''10'') (\<lambda>_ s.
     and_then (redis_lpop E cfg 5 s ''k'') (\<lambda>r s.
     and_then (redis_rpush E cfg 5 s ''k'' ''b'') (\<lambda>_ s.
     and_then (redis_llen E cfg 5 s ''k'') (\<lambda>n s.
     and_then (redis_llen E cfg 11 s ''k'') (\<lambda>n' s. (Inr [r, n, n'], s)))))))) =
   Inr [bulk_reply ''a'', int_reply 1, int_reply 0]"
  by code_simp

end
