(* ===== verification/Redis_ZSet.thy ===== *)
theory Redis_ZSet
  imports Redis_Set Redis_List
begin

text \<open>
  Sorted sets of the Redis layer: a key per score holds the element, a key per element holds the score.
  Scores are text, padded with zeros on the left to order their keys. The floating point sum of
  ZINCRBY, converted to \<^verbatim>\<open>uint64_t\<close>, is a parameter \<open>fadd\<close>.
\<close>

definition get_zset_key_socre :: "RedisConfig \<Rightarrow> string \<Rightarrow> string \<Rightarrow> string" where
  "get_zset_key_socre cfg key score =
     (let formatted_score = replicate (nat (redis_sorted_set_score_len cfg) - length score) CHR ''0'' @ score
      in redis_sorted_set_prefix cfg @ key @ ''_SCORE_'' @ formatted_score)"

definition get_zset_key_elem :: "RedisConfig \<Rightarrow> string \<Rightarrow> string \<Rightarrow> string" where
  "get_zset_key_elem cfg key elem = redis_sorted_set_prefix cfg @ key @ ''_ELEM_'' @ elem"

definition get_zset_key_preffix :: "RedisConfig \<Rightarrow> string \<Rightarrow> string" where
  "get_zset_key_preffix cfg key = redis_sorted_set_prefix cfg @ key @ ''_''"

definition get_zset_score_preffix :: "RedisConfig \<Rightarrow> string \<Rightarrow> string" where
  "get_zset_score_preffix cfg key = redis_sorted_set_prefix cfg @ key @ ''_SCORE_''"

definition get_zset_elem_preffix :: "RedisConfig \<Rightarrow> string \<Rightarrow> string" where
  "get_zset_elem_preffix cfg key = redis_sorted_set_prefix cfg @ key @ ''_ELEM_''"

definition get_zset_score_item :: "string \<Rightarrow> string" where
  "get_zset_score_item key =
     (case str_find key ''_SCORE_'' of Some score_pos \<Rightarrow> drop (score_pos + length ''_SCORE_'') key | None \<Rightarrow> [])"

definition expire_zset_clean :: "'s engine_ops \<Rightarrow> RedisConfig \<Rightarrow> int \<Rightarrow> 's LSM \<Rightarrow> string \<Rightarrow> bool cpp \<times> 's LSM" where
  "expire_zset_clean E cfg now s key =
     (case LSM_get E s (get_explire_key cfg key) of (expire_query, s) \<Rightarrow>
        and_then (is_expired now expire_query, s) (\<lambda>expired s.
          if expired
          then (Inr True,
                remove_prefix E (LSM_remove E (LSM_remove E s key) (get_explire_key cfg key)) (get_zset_key_preffix cfg key))
          else (Inr False, s)))"

text \<open>The loop of ZADD: the pairs to write, the score keys to remove, the number of changes.\<close>

fun zadd_loop ::
    "'s engine_ops \<Rightarrow> RedisConfig \<Rightarrow> string \<Rightarrow> 's LSM \<Rightarrow> (string \<times> string) list \<Rightarrow> string list \<Rightarrow> int \<Rightarrow> string list \<Rightarrow>
     ((string \<times> string) list \<times> string list \<times> int) cpp \<times> 's LSM" where
  "zadd_loop E cfg key s put_kvs remove_keys added_count [] = (Inr (put_kvs, remove_keys, added_count), s)"
| "zadd_loop E cfg key s put_kvs remove_keys added_count [score] = (Inl Undefined, s)"
| "zadd_loop E cfg key s put_kvs remove_keys added_count (score # elem # args) =
     (let key_score = get_zset_key_socre cfg key score;
          key_elem = get_zset_key_elem cfg key elem
      in case LSM_get E s key_elem of (query_elem, s) \<Rightarrow>
           if query_elem = Some score then zadd_loop E cfg key s put_kvs remove_keys added_count args
           else zadd_loop E cfg key s (put_kvs @ [(key_score, elem), (key_elem, score)])
                  (case query_elem of
                     Some original_score \<Rightarrow> remove_keys @ [get_zset_key_socre cfg key original_score]
                   | None \<Rightarrow> remove_keys)
                  (added_count + 1) args)"

definition redis_zadd :: "'s engine_ops \<Rightarrow> RedisConfig \<Rightarrow> int \<Rightarrow> 's LSM \<Rightarrow> string list \<Rightarrow> 's redis" where
  "redis_zadd E cfg now s args =
     (case args of
        cmd # key # pairs \<Rightarrow>
          and_then (expire_zset_clean E cfg now s key) (\<lambda>_ s.
            let del_keys = [];
                value = get_zset_key_preffix cfg key
            in case LSM_get E s value of (v, s) \<Rightarrow>
                 and_then (zadd_loop E cfg key s (if v = None then [(key, value)] else []) [] 0 pairs)
                   (\<lambda>(put_kvs, remove_keys, added_count) s.
                     (Inr (int_reply added_count), LSM_put_batch E (LSM_remove_batch E s del_keys) put_kvs)))
      | _ \<Rightarrow> (Inl Undefined, s))"

fun zrem_loop :: "'s engine_ops \<Rightarrow> RedisConfig \<Rightarrow> string \<Rightarrow> 's LSM \<Rightarrow> int \<Rightarrow> string list \<Rightarrow> int \<times> 's LSM" where
  "zrem_loop E cfg key s removed_count [] = (removed_count, s)"
| "zrem_loop E cfg key s removed_count (elem # elems) =
     (case LSM_get E s (get_zset_key_elem cfg key elem) of (query_elem, s) \<Rightarrow>
        (case query_elem of
           None \<Rightarrow> zrem_loop E cfg key s removed_count elems
         | Some score \<Rightarrow>
             zrem_loop E cfg key
               (LSM_remove E (LSM_remove E s (get_zset_key_elem cfg key elem)) (get_zset_key_socre cfg key score))
               (removed_count + 1) elems))"

definition redis_zrem :: "'s engine_ops \<Rightarrow> RedisConfig \<Rightarrow> int \<Rightarrow> 's LSM \<Rightarrow> string list \<Rightarrow> 's redis" where
  "redis_zrem E cfg now s args =
     (case args of
        cmd # key # e # es \<Rightarrow>
          and_then (expire_zset_clean E cfg now s key) (\<lambda>is_expired s.
            if is_expired then (Inr (int_reply 0), s)
            else case zrem_loop E cfg key s 0 (e # es) of (removed_count, s) \<Rightarrow> (Inr (int_reply removed_count), s))
      | _ \<Rightarrow> (Inr (''-ERR wrong number of arguments for '' @ [CHR 0x27] @ ''zrem'' @ [CHR 0x27] @ '' command'' @ crlf), s))"

definition redis_zrange :: "'s engine_ops \<Rightarrow> RedisConfig \<Rightarrow> int \<Rightarrow> 's LSM \<Rightarrow> string list \<Rightarrow> 's redis" where
  "redis_zrange E cfg now s args =
     (case args of
        cmd # key # a # b # _ \<Rightarrow>
          and_then (stoi a, s) (\<lambda>start s.
          and_then (stoi b, s) (\<lambda>stop s.
          and_then (expire_zset_clean E cfg now s key) (\<lambda>is_expired s.
            if is_expired then (Inr (''*0'' @ crlf), s)
            else (Inr (case LSM_iters E s 0 (prefix_compare (get_zset_score_preffix cfg key)) of
                         None \<Rightarrow> ''*0'' @ crlf
                       | Some elems \<Rightarrow>
                           let elements = map (\<lambda>(key_score, elem). (get_zset_score_item key_score, elem)) elems
                           in range_reply (map snd elements) start stop), s))))
      | _ \<Rightarrow> (Inl Undefined, s))"

definition redis_zcard :: "'s engine_ops \<Rightarrow> RedisConfig \<Rightarrow> int \<Rightarrow> 's LSM \<Rightarrow> string \<Rightarrow> 's redis" where
  "redis_zcard E cfg now s key =
     and_then (expire_zset_clean E cfg now s key) (\<lambda>is_expired s.
       if is_expired then (Inr (int_reply 0), s)
       else (Inr (case LSM_iters E s 0 (prefix_compare (get_zset_score_preffix cfg key)) of
                    None \<Rightarrow> int_reply 0 | Some elems \<Rightarrow> int_reply (int (length elems))), s))"

definition redis_zscore :: "'s engine_ops \<Rightarrow> RedisConfig \<Rightarrow> int \<Rightarrow> 's LSM \<Rightarrow> string \<Rightarrow> string \<Rightarrow> 's redis" where
  "redis_zscore E cfg now s key elem =
     and_then (expire_zset_clean E cfg now s key) (\<lambda>is_expired s.
       if is_expired then (Inr nil_reply, s)
       else case LSM_get E s (get_zset_key_elem cfg key elem) of (query_elem, s) \<Rightarrow>
              (Inr (case query_elem of Some v \<Rightarrow> bulk_reply v | None \<Rightarrow> nil_reply), s))"

text \<open>\<open>fadd n x\<close> is \<^verbatim>\<open>(uint64_t)(n + std::stod(x))\<close>, or the exception of \<^verbatim>\<open>std::stod\<close>.\<close>

definition redis_zincrby ::
    "(int \<Rightarrow> string \<Rightarrow> u64 cpp) \<Rightarrow> 's engine_ops \<Rightarrow> RedisConfig \<Rightarrow> int \<Rightarrow> 's LSM \<Rightarrow> string \<Rightarrow> string \<Rightarrow> string \<Rightarrow> 's redis" where
  "redis_zincrby fadd E cfg now s key increment elem =
     and_then (expire_zset_clean E cfg now s key) (\<lambda>_ s.
       let key_elem = get_zset_key_elem cfg key elem
       in case LSM_get E s key_elem of (query_elem, s) \<Rightarrow>
            and_then
              (case query_elem of
                 Some original_score \<Rightarrow>
                   and_then (cpp_bind (stoll original_score) (\<lambda>n. fadd n increment), s) (\<lambda>new_score s.
                     (Inr new_score, LSM_remove E s (get_zset_key_socre cfg key original_score)))
               | None \<Rightarrow> (fadd 0 increment, s))
              (\<lambda>new_score s.
                let new_score_str = to_string (uint new_score);
                    key_score = get_zset_key_socre cfg key new_score_str
                in (Inr ('':'' @ new_score_str @ crlf), LSM_put E (LSM_put E s key_elem new_score_str) key_score elem)))"

fun rank_loop :: "string \<Rightarrow> int \<Rightarrow> (string \<times> string) list \<Rightarrow> string" where
  "rank_loop key_score rank [] = nil_reply"
| "rank_loop key_score rank ((k, v) # elems) =
     (if k = key_score then int_reply rank else rank_loop key_score (rank + 1) elems)"

definition redis_zrank :: "'s engine_ops \<Rightarrow> RedisConfig \<Rightarrow> int \<Rightarrow> 's LSM \<Rightarrow> string \<Rightarrow> string \<Rightarrow> 's redis" where
  "redis_zrank E cfg now s key elem =
     and_then (expire_zset_clean E cfg now s key) (\<lambda>is_expired s.
       if is_expired then (Inr nil_reply, s)
       else case LSM_get E s (get_zset_key_elem cfg key elem) of (query_elem, s) \<Rightarrow>
              (Inr (case query_elem of
                      None \<Rightarrow> nil_reply
                    | Some score \<Rightarrow>
                        (case LSM_iters E s 0 (prefix_compare (get_zset_key_preffix cfg key)) of
                           None \<Rightarrow> nil_reply
                         | Some elems \<Rightarrow> rank_loop (get_zset_key_socre cfg key score) 0 elems)), s))"

subsection \<open>Lemmas\<close>

lemma elem_key_neq [simp]:
  "get_zset_key_elem cfg k e \<noteq> k" "k \<noteq> get_zset_key_elem cfg k e"
  "get_zset_key_socre cfg k sc \<noteq> get_zset_key_elem cfg k e" "get_zset_key_elem cfg k e \<noteq> get_zset_key_socre cfg k sc"
  "get_zset_key_socre cfg k sc \<noteq> k" "k \<noteq> get_zset_key_socre cfg k sc"
  by (auto simp: get_zset_key_elem_def get_zset_key_socre_def Let_def dest: arg_cong [of _ _ length])

lemma score_prefix [simp]: "prefix (get_zset_score_preffix cfg k) (get_zset_key_socre cfg k sc)"
  by (simp add: get_zset_score_preffix_def get_zset_key_socre_def Let_def)

lemma score_prefix_elem [simp]:
  "\<not> prefix (get_zset_score_preffix cfg k) (get_zset_key_elem cfg k e)" "\<not> prefix (get_zset_score_preffix cfg k) k"
  by (auto simp: get_zset_score_preffix_def get_zset_key_elem_def prefix_def dest: arg_cong [of _ _ length])

lemma zset_prefix_neq [simp]:
  "get_zset_key_preffix cfg k \<noteq> k" "k \<noteq> get_zset_key_preffix cfg k"
  "get_zset_key_preffix cfg k \<noteq> get_zset_key_elem cfg k e" "get_zset_key_elem cfg k e \<noteq> get_zset_key_preffix cfg k"
  "get_zset_key_preffix cfg k \<noteq> get_zset_key_socre cfg k e" "get_zset_key_socre cfg k e \<noteq> get_zset_key_preffix cfg k"
  by (auto simp: get_zset_key_elem_def get_zset_key_socre_def get_zset_key_preffix_def Let_def dest: arg_cong [of _ _ length])

context redis_store
begin

lemma zset_neq_expire [simp]:
  "get_zset_key_elem cfg k e \<noteq> get_explire_key cfg k'" "get_explire_key cfg k' \<noteq> get_zset_key_elem cfg k e"
  "get_zset_key_socre cfg k e \<noteq> get_explire_key cfg k'" "get_explire_key cfg k' \<noteq> get_zset_key_socre cfg k e"
proof -
  have neq: "redis_sorted_set_prefix cfg @ x \<noteq> get_explire_key cfg k'" for x
    using parallel_append [OF header_zset, of k' x] by (auto simp: get_explire_key_def)
  show e: "get_zset_key_elem cfg k e \<noteq> get_explire_key cfg k'" by (simp add: get_zset_key_elem_def neq)
  show s: "get_zset_key_socre cfg k e \<noteq> get_explire_key cfg k'" by (simp add: get_zset_key_socre_def Let_def neq)
  from e s show "get_explire_key cfg k' \<noteq> get_zset_key_elem cfg k e" "get_explire_key cfg k' \<noteq> get_zset_key_socre cfg k e"
    by simp_all
qed

lemma zset_enter:
  assumes "can s (n + 1)" "view s (get_explire_key cfg k) = None"
  obtains s' where "expire_zset_clean E cfg now s k = (Inr False, s')" "view s' = view s" "can s' n"
proof -
  have "can s (Suc n)" using assms(1) by simp
  then obtain s' where g: "LSM_get E s (get_explire_key cfg k) = (view s (get_explire_key cfg k), s')" "view s' = view s" "can s' n"
    by (rule get_cases)
  have "expire_zset_clean E cfg now s k = (Inr False, s')" using g(1) assms(2) by (simp add: expire_zset_clean_def is_expired_def)
  with g show thesis by (intro that)
qed

text \<open>ZADD of one pair: the entry of the element and that of the score.\<close>

lemma zadd_one:
  assumes "can s (n + 5)" "view s (get_explire_key cfg k) = None" "view s (get_zset_key_preffix cfg k) = None"
    and "view s (get_zset_key_elem cfg k e) \<noteq> Some sc"
  shows "gives view can (redis_zadd E cfg now s [cmd, k, sc, e]) (Inr (int_reply 1))
    (kv_puts [(k, get_zset_key_preffix cfg k), (get_zset_key_socre cfg k sc, e), (get_zset_key_elem cfg k e, sc)] (view s)) n"
proof -
  let ?kvs = "[(k, get_zset_key_preffix cfg k), (get_zset_key_socre cfg k sc, e), (get_zset_key_elem cfg k e, sc)]"
  have "can s (n + 4 + 1)" using assms(1) by (simp add: numeral_eq_Suc)
  then obtain s1 where 1: "expire_zset_clean E cfg now s k = (Inr False, s1)" "view s1 = view s" "can s1 (n + 4)"
    using assms(2) by (rule zset_enter)
  have "can s1 (Suc (Suc (Suc (Suc n))))" using 1(3) by (simp add: numeral_eq_Suc)
  then obtain s2 s3 where g: "LSM_get E s1 (get_zset_key_preffix cfg k) = (view s1 (get_zset_key_preffix cfg k), s2)"
      "LSM_get E s2 (get_zset_key_elem cfg k e) = (view s1 (get_zset_key_elem cfg k e), s3)" "view s3 = view s1" "can s3 (Suc (Suc n))"
    by (rule get_two_cases [of s1 "Suc (Suc n)" "get_zset_key_preffix cfg k" "get_zset_key_elem cfg k e"]) simp
  note 4 = remove_batch_law [OF g(4), of "[]"]
  note 5 = put_batch_law [OF conjunct2 [OF 4], of ?kvs]
  have r: "view (LSM_remove_batch E s3 []) = view s" using 4 g(3) 1(2) by (simp add: kv_dels_def)
  show ?thesis using assms(3,4) 1 g 5 r
    by (simp add: redis_zadd_def gives_def Let_def del: kv_put_apply)
qed

lemma zadd_same:
  assumes "can s (n + 5)" "view s (get_explire_key cfg k) = None" "view s (get_zset_key_preffix cfg k) = None"
    and "view s (get_zset_key_elem cfg k e) = Some sc"
  shows "gives view can (redis_zadd E cfg now s [cmd, k, sc, e]) (Inr (int_reply 0))
    (kv_put k (get_zset_key_preffix cfg k) (view s)) n"
proof -
  have "can s (n + 4 + 1)" using assms(1) by (simp add: numeral_eq_Suc)
  then obtain s1 where 1: "expire_zset_clean E cfg now s k = (Inr False, s1)" "view s1 = view s" "can s1 (n + 4)"
    using assms(2) by (rule zset_enter)
  have "can s1 (Suc (Suc (Suc (Suc n))))" using 1(3) by (simp add: numeral_eq_Suc)
  then obtain s2 s3 where g: "LSM_get E s1 (get_zset_key_preffix cfg k) = (view s1 (get_zset_key_preffix cfg k), s2)"
      "LSM_get E s2 (get_zset_key_elem cfg k e) = (view s1 (get_zset_key_elem cfg k e), s3)" "view s3 = view s1" "can s3 (Suc (Suc n))"
    by (rule get_two_cases [of s1 "Suc (Suc n)" "get_zset_key_preffix cfg k" "get_zset_key_elem cfg k e"]) simp
  note 4 = remove_batch_law [OF g(4), of "[]"]
  note 5 = put_batch_law [OF conjunct2 [OF 4], of "[(k, get_zset_key_preffix cfg k)]"]
  have r: "view (LSM_remove_batch E s3 []) = view s" using 4 g(3) 1(2) by (simp add: kv_dels_def)
  show ?thesis using assms(3,4) 1 g 5 r
    by (simp add: redis_zadd_def gives_def Let_def del: kv_put_apply)
qed

lemma zscore_ok:
  assumes "can s (n + 2)" "view s (get_explire_key cfg k) = None"
  shows "gives view can (redis_zscore E cfg now s k e)
    (Inr (case view s (get_zset_key_elem cfg k e) of Some v \<Rightarrow> bulk_reply v | None \<Rightarrow> nil_reply)) (view s) n"
proof -
  have "can s (Suc n + 1)" using assms(1) by simp
  then obtain s1 where 1: "expire_zset_clean E cfg now s k = (Inr False, s1)" "view s1 = view s" "can s1 (Suc n)"
    using assms(2) by (rule zset_enter)
  obtain s2 where 2: "LSM_get E s1 (get_zset_key_elem cfg k e) = (view s1 (get_zset_key_elem cfg k e), s2)" "view s2 = view s1" "can s2 n"
    by (rule get_cases [OF 1(3)])
  show ?thesis using 1 2 by (simp add: redis_zscore_def gives_def)
qed

lemma zcard_ok:
  assumes "can s (n + 1)" "view s (get_explire_key cfg k) = None"
    and "finite {x. prefix (get_zset_score_preffix cfg k) x \<and> view s x \<noteq> None}"
  shows "gives view can (redis_zcard E cfg now s k)
    (Inr (int_reply (int (card {x. prefix (get_zset_score_preffix cfg k) x \<and> view s x \<noteq> None})))) (view s) n"
proof -
  let ?p = "get_zset_score_preffix cfg k"
  obtain s1 where 1: "expire_zset_clean E cfg now s k = (Inr False, s1)" "view s1 = view s" "can s1 n"
    using assms(1,2) by (rule zset_enter)
  note ans = iters_law [OF 1(3), of ?p]
  show ?thesis
  proof (cases "LSM_iters E s1 0 (prefix_compare ?p)")
    case None
    then have "{x. prefix ?p x \<and> view s x \<noteq> None} = {}" using ans 1(2) by (auto simp: prefix_answer_def)
    then have "card {x. prefix ?p x \<and> view s x \<noteq> None} = 0" by (simp only: card.empty)
    then show ?thesis using None 1 by (simp add: redis_zcard_def gives_def)
  next
    case (Some xs)
    have xs: "sorted_wrt (<) (map fst xs)" "\<And>a b. (a, b) \<in> set xs \<longleftrightarrow> prefix ?p a \<and> view s a = Some b"
      using ans Some 1(2) by (auto simp: prefix_answer_def)
    have "fst ` set xs = {x. prefix ?p x \<and> view s x \<noteq> None}" 
    proof (intro set_eqI iffI)
      fix x assume "x \<in> fst ` set xs"
      then obtain b where "(x, b) \<in> set xs" by auto
      then show "x \<in> {x. prefix ?p x \<and> view s x \<noteq> None}" using xs(2) by simp
    next
      fix x assume "x \<in> {x. prefix ?p x \<and> view s x \<noteq> None}"
      then obtain b where "(x, b) \<in> set xs" using xs(2) by auto
      then show "x \<in> fst ` set xs" by force
    qed
    moreover have "distinct (map fst xs)" using xs(1) by (simp add: strict_sorted_iff)
    ultimately have "card {x. prefix ?p x \<and> view s x \<noteq> None} = length xs"
      using distinct_card [of "map fst xs"] by simp
    then show ?thesis using Some 1 by (simp add: redis_zcard_def gives_def)
  qed
qed

end

subsection \<open>Properties\<close>

text \<open>
  ZADD followed by ZSCORE answers the score that was given, whether the element is new, has that score
  already, or had another one.
\<close>

theorem zadd_zscore:
  assumes "redis_store E view can cfg" "can s (n + 7)" "sc \<noteq> []"
    and "view s (get_explire_key cfg k) = None" "view s (get_zset_key_preffix cfg k) = None"
  shows "fst (and_then (redis_zadd E cfg now s [cmd, k, sc, e]) (\<lambda>_ s. redis_zscore E cfg now' s k e)) = Inr (bulk_reply sc)"
proof -
  have c: "can s ((n + 2) + 5)" using assms(2) by (simp add: numeral_eq_Suc)
  note neq = redis_store.zset_neq_expire [OF assms(1)] redis_store.expire_key_neq [OF assms(1)]
  have "\<exists>i v. gives view can (redis_zadd E cfg now s [cmd, k, sc, e]) (Inr i) v (n + 2) \<and>
      v (get_explire_key cfg k) = None \<and> v (get_zset_key_elem cfg k e) = Some sc"
  proof (cases "view s (get_zset_key_elem cfg k e) = Some sc")
    case True
    show ?thesis using redis_store.zadd_same [OF assms(1) c assms(4,5) True, of now cmd] True neq assms(4)
      by (intro exI conjI) (assumption, simp_all)
  next
    case False
    show ?thesis using redis_store.zadd_one [OF assms(1) c assms(4,5) False, of now cmd] neq assms(3,4)
      by (intro exI conjI) (assumption, simp_all)
  qed
  then obtain i v where v: "gives view can (redis_zadd E cfg now s [cmd, k, sc, e]) (Inr i) v (n + 2)"
    "v (get_explire_key cfg k) = None" "v (get_zset_key_elem cfg k e) = Some sc" by blast
  have "gives view can (redis_zscore E cfg now' s' k e) (Inr (bulk_reply sc)) v n" if "view s' = v" "can s' (n + 2)" for s'
    using redis_store.zscore_ok [OF assms(1) that(2), of k now' e] that(1) v by simp
  from gives_and_then [OF v(1) this] show ?thesis by (simp add: gives_def)
qed

lemma zadd_zscore_witness:
  "fst (and_then (redis_zadd (skiplist_engine (\<lambda>i. False)) default_config 0 sl_db [''ZADD'', ''k'', ''3'', ''a''])
     (\<lambda>_ s. redis_zscore (skiplist_engine (\<lambda>i. False)) default_config 1 s ''k'' ''a'')) = Inr (bulk_reply ''3'')"
proof -
  have c: "lsm_can sl_bounded sl_db (0 + 7)" by (rule sl_db_can) simp
  show ?thesis by (rule zadd_zscore [OF sl_redis.redis_store_axioms c]) (simp_all add: sl_db_view)
qed

text \<open>
  Giving an element another score leaves the entry of the old score behind: after ZADD of \<open>e\<close> with two
  scores in turn ZCARD counts two elements, though there is one. \<^verbatim>\<open>redis_zadd\<close> collects the old
  score keys in \<^verbatim>\<open>remove_keys\<close> but passes the empty \<^verbatim>\<open>del_keys\<close> to \<^verbatim>\<open>remove_batch\<close>.
\<close>

theorem zadd_leaves_old_score:
  assumes "redis_store E view can cfg" "can s (n + 11)" "e \<noteq> []" "sc1 \<noteq> []" "sc2 \<noteq> []"
    and "get_zset_key_socre cfg k sc1 \<noteq> get_zset_key_socre cfg k sc2" "view s = (\<lambda>_. None)"
  shows "fst (and_then (redis_zadd E cfg now s [cmd, k, sc1, e]) (\<lambda>_ s.
    and_then (redis_zadd E cfg now s [cmd, k, sc2, e]) (\<lambda>_ s. redis_zcard E cfg now s k))) = Inr (int_reply 2)"
proof -
  let ?p = "get_zset_key_preffix cfg k" and ?e = "get_zset_key_elem cfg k e"
  let ?m1 = "kv_puts [(k, ?p), (get_zset_key_socre cfg k sc1, e), (?e, sc1)] (\<lambda>_. None)"
  let ?m2 = "kv_puts [(k, ?p), (get_zset_key_socre cfg k sc2, e), (?e, sc2)] ?m1"
  note neq = redis_store.zset_neq_expire [OF assms(1)] redis_store.expire_key_neq [OF assms(1)]
  have ne: "?p \<noteq> get_explire_key cfg k"
    using redis_store.header_zset [OF assms(1)] parallel_append [of "redis_expire_header cfg" "redis_sorted_set_prefix cfg" k "k @ ''_''"]
    by (auto simp: get_zset_key_preffix_def get_explire_key_def)
  have sc: "sc1 \<noteq> sc2" using assms(6) by auto
  have "can s ((n + 6) + 5)" using assms(2) by (simp add: numeral_eq_Suc)
  note z1 = redis_store.zadd_one [OF assms(1) this, of k e sc1 now cmd, unfolded assms(7)]
  have 1: "gives view can (redis_zadd E cfg now s [cmd, k, sc1, e]) (Inr (int_reply 1)) ?m1 (n + 6)"
    by (rule z1) simp_all
  have 2: "gives view can (redis_zadd E cfg now s' [cmd, k, sc2, e]) (Inr (int_reply 1)) ?m2 (n + 1)"
    if s': "view s' = ?m1" "can s' (n + 6)" for s'
  proof -
    have "can s' ((n + 1) + 5)" using s'(2) by (simp add: numeral_eq_Suc)
    note z2 = redis_store.zadd_one [OF assms(1) this, of k e sc2 now cmd, unfolded s'(1)]
    show ?thesis by (rule z2) (use neq ne sc assms(4) in simp_all)
  qed
  have keys: "{x. prefix (get_zset_score_preffix cfg k) x \<and> ?m2 x \<noteq> None} =
      {get_zset_key_socre cfg k sc1, get_zset_key_socre cfg k sc2}"
    using assms(3) by (auto simp: get_zset_key_preffix_def split: if_splits)
  have ek: "?m2 (get_explire_key cfg k) = None" using neq ne by simp
  have 3: "gives view can (redis_zcard E cfg now s' k) (Inr (int_reply 2)) ?m2 n" if s': "view s' = ?m2" "can s' (n + 1)" for s'
    using redis_store.zcard_ok [OF assms(1) s'(2), of k now] ek keys assms(6) unfolding s'(1) by simp
  have "gives view can (and_then (redis_zadd E cfg now s [cmd, k, sc1, e]) (\<lambda>_ s.
    and_then (redis_zadd E cfg now s [cmd, k, sc2, e]) (\<lambda>_ s. redis_zcard E cfg now s k))) (Inr (int_reply 2)) ?m2 n"
    by (rule gives_and_then [OF 1], rule gives_and_then [OF 2], assumption+, rule 3)
  then show ?thesis by (simp add: gives_def)
qed

lemma zadd_leaves_old_score_witness:
  "fst (and_then (redis_zadd (skiplist_engine (\<lambda>i. False)) default_config 0 sl_db [''ZADD'', ''k'', ''1'', ''a''])
     (\<lambda>_ s. and_then (redis_zadd (skiplist_engine (\<lambda>i. False)) default_config 0 s [''ZADD'', ''k'', ''2'', ''a''])
     (\<lambda>_ s. redis_zcard (skiplist_engine (\<lambda>i. False)) default_config 0 s ''k''))) = Inr (int_reply 2)"
proof -
  have c: "lsm_can sl_bounded sl_db (0 + 11)" by (rule sl_db_can) simp
  have "get_zset_key_socre default_config ''k'' ''1'' \<noteq> get_zset_key_socre default_config ''k'' ''2''"
    by (simp add: get_zset_key_socre_def)
  then show ?thesis by (intro zadd_leaves_old_score [OF sl_redis.redis_store_axioms c]) (simp_all add: sl_db_view)
qed

end
