(* ===== verification/Redis_Commands.thy ===== *)
theory Redis_Commands
  imports Redis_Hash Redis_ZSet
begin

text \<open>
  The commands on argument vectors: the public methods of \<^verbatim>\<open>RedisWrapper\<close>, the handlers of
  \<^verbatim>\<open>server/src/handler.cpp\<close> that check the number of arguments, and the table of command names.
  \<open>env\<close> collects what a command depends on beside the database.
\<close>

record 's env =
  ops :: "'s engine_ops"
  config :: RedisConfig
  clock :: int
  fadd :: "int \<Rightarrow> string \<Rightarrow> u64 cpp"

text \<open>\<^verbatim>\<open>args[i]\<close>\<close>

definition arg :: "string list \<Rightarrow> nat \<Rightarrow> string cpp" where
  "arg args i = (if i < length args then Inr (args ! i) else Inl Undefined)"

definition with_1 :: "string list \<Rightarrow> 's LSM \<Rightarrow> (string \<Rightarrow> 's LSM \<Rightarrow> 's redis) \<Rightarrow> 's redis" where
  "with_1 args s f = and_then (arg args 1, s) f"

definition with_2 :: "string list \<Rightarrow> 's LSM \<Rightarrow> (string \<Rightarrow> string \<Rightarrow> 's LSM \<Rightarrow> 's redis) \<Rightarrow> 's redis" where
  "with_2 args s f = and_then (arg args 1, s) (\<lambda>a s. and_then (arg args 2, s) (f a))"

definition with_3 :: "string list \<Rightarrow> 's LSM \<Rightarrow> (string \<Rightarrow> string \<Rightarrow> string \<Rightarrow> 's LSM \<Rightarrow> 's redis) \<Rightarrow> 's redis" where
  "with_3 args s f = and_then (arg args 1, s) (\<lambda>a s. and_then (arg args 2, s) (\<lambda>b s. and_then (arg args 3, s) (f a b)))"

definition wrong_number :: "string \<Rightarrow> string" where
  "wrong_number name = ''-ERR wrong number of arguments for '' @ [CHR 0x27] @ name @ [CHR 0x27] @ '' command'' @ crlf"

subsection \<open>RedisWrapper\<close>

definition RedisWrapper_set :: "'s env \<Rightarrow> 's LSM \<Rightarrow> string list \<Rightarrow> 's redis" where
  "RedisWrapper_set env s args = with_2 args s (\<lambda>k v s. redis_set (ops env) (config env) s k v)"

definition RedisWrapper_get :: "'s env \<Rightarrow> 's LSM \<Rightarrow> string list \<Rightarrow> 's redis" where
  "RedisWrapper_get env s args = with_1 args s (\<lambda>k s. redis_get (ops env) (config env) (clock env) s k)"

definition RedisWrapper_del :: "'s env \<Rightarrow> 's LSM \<Rightarrow> string list \<Rightarrow> 's redis" where
  "RedisWrapper_del env s args = redis_del (ops env) (config env) s args"

definition RedisWrapper_incr :: "'s env \<Rightarrow> 's LSM \<Rightarrow> string list \<Rightarrow> 's redis" where
  "RedisWrapper_incr env s args = with_1 args s (\<lambda>k s. redis_incr (ops env) s k)"

definition RedisWrapper_decr :: "'s env \<Rightarrow> 's LSM \<Rightarrow> string list \<Rightarrow> 's redis" where
  "RedisWrapper_decr env s args = with_1 args s (\<lambda>k s. redis_decr (ops env) s k)"

definition RedisWrapper_expire :: "'s env \<Rightarrow> 's LSM \<Rightarrow> string list \<Rightarrow> 's redis" where
  "RedisWrapper_expire env s args = with_2 args s (\<lambda>k v s. redis_expire (ops env) (config env) (clock env) s k v)"

definition RedisWrapper_ttl :: "'s env \<Rightarrow> 's LSM \<Rightarrow> string list \<Rightarrow> 's redis" where
  "RedisWrapper_ttl env s args = with_1 args s (\<lambda>k s. redis_ttl (ops env) (config env) (clock env) s k)"

text \<open>The field-value pairs, from the third argument on; an argument without a partner is dropped.\<close>

fun pair_up :: "string list \<Rightarrow> (string \<times> string) list" where
  "pair_up (f # v # args) = (f, v) # pair_up args"
| "pair_up _ = []"

definition RedisWrapper_hset :: "'s env \<Rightarrow> 's LSM \<Rightarrow> string list \<Rightarrow> 's redis" where
  "RedisWrapper_hset env s args =
     (if length args < 4 \<or> (length args - 1) mod 2 \<noteq> 1 then (Inr (wrong_number ''hset''), s)
      else with_1 args s (\<lambda>k s. redis_hset_batch (ops env) (config env) (clock env) s k (pair_up (drop 2 args))))"

definition RedisWrapper_hget :: "'s env \<Rightarrow> 's LSM \<Rightarrow> string list \<Rightarrow> 's redis" where
  "RedisWrapper_hget env s args = with_2 args s (\<lambda>k f s. redis_hget (ops env) (config env) (clock env) s k f)"

definition RedisWrapper_hdel :: "'s env \<Rightarrow> 's LSM \<Rightarrow> string list \<Rightarrow> 's redis" where
  "RedisWrapper_hdel env s args = with_2 args s (\<lambda>k f s. redis_hdel (ops env) (config env) (clock env) s k f)"

definition RedisWrapper_hkeys :: "'s env \<Rightarrow> 's LSM \<Rightarrow> string list \<Rightarrow> 's redis" where
  "RedisWrapper_hkeys env s args = with_1 args s (\<lambda>k s. redis_hkeys (ops env) (config env) (clock env) s k)"

definition RedisWrapper_lpush :: "'s env \<Rightarrow> 's LSM \<Rightarrow> string list \<Rightarrow> 's redis" where
  "RedisWrapper_lpush env s args = with_2 args s (\<lambda>k v s. redis_lpush (ops env) (config env) (clock env) s k v)"

definition RedisWrapper_rpush :: "'s env \<Rightarrow> 's LSM \<Rightarrow> string list \<Rightarrow> 's redis" where
  "RedisWrapper_rpush env s args = with_2 args s (\<lambda>k v s. redis_rpush (ops env) (config env) (clock env) s k v)"

definition RedisWrapper_lpop :: "'s env \<Rightarrow> 's LSM \<Rightarrow> string list \<Rightarrow> 's redis" where
  "RedisWrapper_lpop env s args = with_1 args s (\<lambda>k s. redis_lpop (ops env) (config env) (clock env) s k)"

definition RedisWrapper_rpop :: "'s env \<Rightarrow> 's LSM \<Rightarrow> string list \<Rightarrow> 's redis" where
  "RedisWrapper_rpop env s args = with_1 args s (\<lambda>k s. redis_rpop (ops env) (config env) (clock env) s k)"

definition RedisWrapper_llen :: "'s env \<Rightarrow> 's LSM \<Rightarrow> string list \<Rightarrow> 's redis" where
  "RedisWrapper_llen env s args = with_1 args s (\<lambda>k s. redis_llen (ops env) (config env) (clock env) s k)"

definition RedisWrapper_lrange :: "'s env \<Rightarrow> 's LSM \<Rightarrow> string list \<Rightarrow> 's redis" where
  "RedisWrapper_lrange env s args = and_then (cpp_bind (arg args 2) stoi, s) (\<lambda>start s.
     and_then (cpp_bind (arg args 3) stoi, s) (\<lambda>stop s.
     with_1 args s (\<lambda>k s. redis_lrange (ops env) (config env) (clock env) s k start stop)))"

definition RedisWrapper_zadd :: "'s env \<Rightarrow> 's LSM \<Rightarrow> string list \<Rightarrow> 's redis" where
  "RedisWrapper_zadd env s args = redis_zadd (ops env) (config env) (clock env) s args"

definition RedisWrapper_zrem :: "'s env \<Rightarrow> 's LSM \<Rightarrow> string list \<Rightarrow> 's redis" where
  "RedisWrapper_zrem env s args = redis_zrem (ops env) (config env) (clock env) s args"

definition RedisWrapper_zrange :: "'s env \<Rightarrow> 's LSM \<Rightarrow> string list \<Rightarrow> 's redis" where
  "RedisWrapper_zrange env s args = redis_zrange (ops env) (config env) (clock env) s args"

definition RedisWrapper_zcard :: "'s env \<Rightarrow> 's LSM \<Rightarrow> string list \<Rightarrow> 's redis" where
  "RedisWrapper_zcard env s args = with_1 args s (\<lambda>k s. redis_zcard (ops env) (config env) (clock env) s k)"

definition RedisWrapper_zscore :: "'s env \<Rightarrow> 's LSM \<Rightarrow> string list \<Rightarrow> 's redis" where
  "RedisWrapper_zscore env s args = with_2 args s (\<lambda>k e s. redis_zscore (ops env) (config env) (clock env) s k e)"

definition RedisWrapper_zincrby :: "'s env \<Rightarrow> 's LSM \<Rightarrow> string list \<Rightarrow> 's redis" where
  "RedisWrapper_zincrby env s args = with_3 args s (\<lambda>k i e s. redis_zincrby (fadd env) (ops env) (config env) (clock env) s k i e)"

definition RedisWrapper_zrank :: "'s env \<Rightarrow> 's LSM \<Rightarrow> string list \<Rightarrow> 's redis" where
  "RedisWrapper_zrank env s args = with_2 args s (\<lambda>k e s. redis_zrank (ops env) (config env) (clock env) s k e)"

definition RedisWrapper_sadd :: "'s env \<Rightarrow> 's LSM \<Rightarrow> string list \<Rightarrow> 's redis" where
  "RedisWrapper_sadd env s args = redis_sadd (ops env) (config env) (clock env) s args"

definition RedisWrapper_srem :: "'s env \<Rightarrow> 's LSM \<Rightarrow> string list \<Rightarrow> 's redis" where
  "RedisWrapper_srem env s args = redis_srem (ops env) (config env) (clock env) s args"

definition RedisWrapper_sismember :: "'s env \<Rightarrow> 's LSM \<Rightarrow> string list \<Rightarrow> 's redis" where
  "RedisWrapper_sismember env s args = with_2 args s (\<lambda>k e s. redis_sismember (ops env) (config env) (clock env) s k e)"

definition RedisWrapper_scard :: "'s env \<Rightarrow> 's LSM \<Rightarrow> string list \<Rightarrow> 's redis" where
  "RedisWrapper_scard env s args = with_1 args s (\<lambda>k s. redis_scard (ops env) (config env) (clock env) s k)"

definition RedisWrapper_smembers :: "'s env \<Rightarrow> 's LSM \<Rightarrow> string list \<Rightarrow> 's redis" where
  "RedisWrapper_smembers env s args = with_1 args s (\<lambda>k s. redis_smembers (ops env) (config env) (clock env) s k)"

definition RedisWrapper_clear :: "'s env \<Rightarrow> 's LSM \<Rightarrow> 's LSM" where
  "RedisWrapper_clear env s = LSM_clear (ops env) s"

definition RedisWrapper_flushall :: "'s env \<Rightarrow> 's LSM \<Rightarrow> 's LSM" where
  "RedisWrapper_flushall env s = LSM_flush (ops env) s"

subsection \<open>Handlers\<close>

definition flushall_handler :: "'s env \<Rightarrow> 's LSM \<Rightarrow> 's redis" where
  "flushall_handler env s = (Inr ok_reply, RedisWrapper_clear env s)"

definition save_handler :: "'s env \<Rightarrow> 's LSM \<Rightarrow> 's redis" where
  "save_handler env s = (Inr ok_reply, RedisWrapper_flushall env s)"

definition set_handler :: "'s env \<Rightarrow> 's LSM \<Rightarrow> string list \<Rightarrow> 's redis" where
  "set_handler env s args =
     (if length args \<noteq> 3 then (Inr (wrong_number ''SET''), s) else RedisWrapper_set env s args)"

definition get_handler :: "'s env \<Rightarrow> 's LSM \<Rightarrow> string list \<Rightarrow> 's redis" where
  "get_handler env s args =
     (if length args \<noteq> 2 then (Inr (wrong_number ''GET''), s) else RedisWrapper_get env s args)"

definition del_handler :: "'s env \<Rightarrow> 's LSM \<Rightarrow> string list \<Rightarrow> 's redis" where
  "del_handler env s args =
     (if length args < 2 then (Inr (wrong_number ''DEL''), s) else RedisWrapper_del env s args)"

definition incr_handler :: "'s env \<Rightarrow> 's LSM \<Rightarrow> string list \<Rightarrow> 's redis" where
  "incr_handler env s args =
     (if length args \<noteq> 2 then (Inr (wrong_number ''INCR''), s) else and_then (RedisWrapper_incr env s args) (\<lambda>res s. (Inr ('':'' @ res @ crlf), s)))"

definition decr_handler :: "'s env \<Rightarrow> 's LSM \<Rightarrow> string list \<Rightarrow> 's redis" where
  "decr_handler env s args =
     (if length args \<noteq> 2 then (Inr (wrong_number ''DECR''), s) else and_then (RedisWrapper_decr env s args) (\<lambda>res s. (Inr ('':'' @ res @ crlf), s)))"

definition expire_handler :: "'s env \<Rightarrow> 's LSM \<Rightarrow> string list \<Rightarrow> 's redis" where
  "expire_handler env s args =
     (if length args \<noteq> 3 then (Inr (wrong_number ''EXPIRE''), s) else RedisWrapper_expire env s args)"

definition ttl_handler :: "'s env \<Rightarrow> 's LSM \<Rightarrow> string list \<Rightarrow> 's redis" where
  "ttl_handler env s args =
     (if length args \<noteq> 2 then (Inr (wrong_number ''TTL''), s) else RedisWrapper_ttl env s args)"

definition hset_handler :: "'s env \<Rightarrow> 's LSM \<Rightarrow> string list \<Rightarrow> 's redis" where
  "hset_handler env s args =
     (if length args < 4 then (Inr (wrong_number ''HSET''), s) else RedisWrapper_hset env s args)"

definition hget_handler :: "'s env \<Rightarrow> 's LSM \<Rightarrow> string list \<Rightarrow> 's redis" where
  "hget_handler env s args =
     (if length args \<noteq> 3 then (Inr (wrong_number ''HGET''), s) else RedisWrapper_hget env s args)"

definition hdel_handler :: "'s env \<Rightarrow> 's LSM \<Rightarrow> string list \<Rightarrow> 's redis" where
  "hdel_handler env s args =
     (if length args \<noteq> 3 then (Inr (wrong_number ''HDEL''), s) else RedisWrapper_hdel env s args)"

definition hkeys_handler :: "'s env \<Rightarrow> 's LSM \<Rightarrow> string list \<Rightarrow> 's redis" where
  "hkeys_handler env s args =
     (if length args \<noteq> 2 then (Inr (wrong_number ''HKEYS''), s) else RedisWrapper_hkeys env s args)"

definition lpush_handler :: "'s env \<Rightarrow> 's LSM \<Rightarrow> string list \<Rightarrow> 's redis" where
  "lpush_handler env s args =
     (if length args \<noteq> 3 then (Inr (wrong_number ''LPUSH''), s) else RedisWrapper_lpush env s args)"

definition rpush_handler :: "'s env \<Rightarrow> 's LSM \<Rightarrow> string list \<Rightarrow> 's redis" where
  "rpush_handler env s args =
     (if length args \<noteq> 3 then (Inr (wrong_number ''RPUSH''), s) else RedisWrapper_rpush env s args)"

definition lpop_handler :: "'s env \<Rightarrow> 's LSM \<Rightarrow> string list \<Rightarrow> 's redis" where
  "lpop_handler env s args =
     (if length args \<noteq> 2 then (Inr (wrong_number ''LPOP''), s) else RedisWrapper_lpop env s args)"

definition rpop_handler :: "'s env \<Rightarrow> 's LSM \<Rightarrow> string list \<Rightarrow> 's redis" where
  "rpop_handler env s args =
     (if length args \<noteq> 2 then (Inr (wrong_number ''RPOP''), s) else RedisWrapper_rpop env s args)"

definition llen_handler :: "'s env \<Rightarrow> 's LSM \<Rightarrow> string list \<Rightarrow> 's redis" where
  "llen_handler env s args =
     (if length args \<noteq> 3 then (Inr (wrong_number ''LLEN''), s) else RedisWrapper_llen env s args)"

definition lrange_handler :: "'s env \<Rightarrow> 's LSM \<Rightarrow> string list \<Rightarrow> 's redis" where
  "lrange_handler env s args =
     (if length args \<noteq> 4 then (Inr (wrong_number ''LRANGE''), s) else RedisWrapper_lrange env s args)"

definition zadd_handler :: "'s env \<Rightarrow> 's LSM \<Rightarrow> string list \<Rightarrow> 's redis" where
  "zadd_handler env s args =
     (if length args < 4 \<or> (length args - 2) mod 2 \<noteq> 0 then (Inr (wrong_number ''zadd''), s) else RedisWrapper_zadd env s args)"

definition zrem_handler :: "'s env \<Rightarrow> 's LSM \<Rightarrow> string list \<Rightarrow> 's redis" where
  "zrem_handler env s args =
     (if length args < 3 then (Inr (wrong_number ''zrem''), s) else RedisWrapper_zrem env s args)"

definition zrange_handler :: "'s env \<Rightarrow> 's LSM \<Rightarrow> string list \<Rightarrow> 's redis" where
  "zrange_handler env s args =
     (if length args < 4 then (Inr (wrong_number ''zrange''), s) else RedisWrapper_zrange env s args)"

definition zcard_handler :: "'s env \<Rightarrow> 's LSM \<Rightarrow> string list \<Rightarrow> 's redis" where
  "zcard_handler env s args =
     (if length args \<noteq> 2 then (Inr (wrong_number ''zcard''), s) else RedisWrapper_zcard env s args)"

definition zscore_handler :: "'s env \<Rightarrow> 's LSM \<Rightarrow> string list \<Rightarrow> 's redis" where
  "zscore_handler env s args =
     (if length args \<noteq> 3 then (Inr (wrong_number ''zscore''), s) else RedisWrapper_zscore env s args)"

definition zincrby_handler :: "'s env \<Rightarrow> 's LSM \<Rightarrow> string list \<Rightarrow> 's redis" where
  "zincrby_handler env s args =
     (if length args \<noteq> 4 then (Inr (wrong_number ''zincrby''), s) else RedisWrapper_zincrby env s args)"

definition zrank_handler :: "'s env \<Rightarrow> 's LSM \<Rightarrow> string list \<Rightarrow> 's redis" where
  "zrank_handler env s args =
     (if length args \<noteq> 3 then (Inr (wrong_number ''zrank''), s) else RedisWrapper_zrank env s args)"

definition sadd_handler :: "'s env \<Rightarrow> 's LSM \<Rightarrow> string list \<Rightarrow> 's redis" where
  "sadd_handler env s args =
     (if length args < 3 then (Inr (wrong_number ''sadd''), s) else RedisWrapper_sadd env s args)"

definition srem_handler :: "'s env \<Rightarrow> 's LSM \<Rightarrow> string list \<Rightarrow> 's redis" where
  "srem_handler env s args =
     (if length args < 3 then (Inr (wrong_number ''srem''), s) else RedisWrapper_srem env s args)"

definition sismember_handler :: "'s env \<Rightarrow> 's LSM \<Rightarrow> string list \<Rightarrow> 's redis" where
  "sismember_handler env s args =
     (if length args \<noteq> 3 then (Inr (wrong_number ''sismember''), s) else RedisWrapper_sismember env s args)"

definition scard_handler :: "'s env \<Rightarrow> 's LSM \<Rightarrow> string list \<Rightarrow> 's redis" where
  "scard_handler env s args =
     (if length args \<noteq> 2 then (Inr (wrong_number ''scard''), s) else RedisWrapper_scard env s args)"

definition smembers_handler :: "'s env \<Rightarrow> 's LSM \<Rightarrow> string list \<Rightarrow> 's redis" where
  "smembers_handler env s args =
     (if length args \<noteq> 2 then (Inr (wrong_number ''smembers''), s) else RedisWrapper_smembers env s args)"

subsection \<open>Command names\<close>

datatype OPS =
    PING | FLUSHALL | SAVE | GET | SET | DEL | INCR | DECR | EXPIRE | TTL | HSET | HGET | HDEL |
    HKEYS | LPUSH | RPUSH | LPOP | RPOP | LLEN | LRANGE | ZADD | ZREM | ZRANGE | ZCARD | ZSCORE |
    ZINCRBY | ZRANK | SADD | SREM | SISMEMBER | SCARD | SMEMBERS | UNKNOWN

definition tolower :: "char \<Rightarrow> char" where
  "tolower c = (if 65 \<le> (of_char c :: nat) \<and> (of_char c :: nat) \<le> 90 then char_of ((of_char c :: nat) + 32) else c)"

definition toLower :: "string \<Rightarrow> string" where
  "toLower str = map tolower str"

definition opsMap :: "(string \<times> OPS) list" where
  "opsMap =
     [(''ping'', PING), (''flushall'', FLUSHALL), (''save'', SAVE), (''get'', GET), (''set'', SET),
      (''del'', DEL), (''incr'', INCR), (''decr'', DECR), (''expire'', EXPIRE), (''ttl'', TTL),
      (''hset'', HSET), (''hget'', HGET), (''hdel'', HDEL), (''hkeys'', HKEYS), (''rpush'', RPUSH),
      (''lpush'', LPUSH), (''rpop'', RPOP), (''lpop'', LPOP), (''llen'', LLEN), (''lrange'',
      LRANGE), (''zadd'', ZADD), (''zcard'', ZCARD), (''zincrby'', ZINCRBY), (''zrange'', ZRANGE),
      (''zrank'', ZRANK), (''zrem'', ZREM), (''zscore'', ZSCORE), (''sadd'', SADD), (''scard'',
      SCARD), (''smembers'', SMEMBERS), (''srem'', SREM), (''sismember'', SISMEMBER)]"

definition string2Ops :: "string \<Rightarrow> OPS" where
  "string2Ops opStr = (case map_of opsMap (toLower opStr) of Some op \<Rightarrow> op | None \<Rightarrow> UNKNOWN)"

text \<open>The switch of \<^verbatim>\<open>handleRequest\<close> on the command name.\<close>

definition dispatch :: "'s env \<Rightarrow> 's LSM \<Rightarrow> string list \<Rightarrow> 's redis" where
  "dispatch env s args =
     (case args of
        [] \<Rightarrow> (Inl Undefined, s)
      | name # _ \<Rightarrow>
          (case string2Ops name of
             PING \<Rightarrow> (Inr (''+PONG'' @ crlf), s)
           | FLUSHALL \<Rightarrow> flushall_handler env s
           | SAVE \<Rightarrow> save_handler env s
           | SET \<Rightarrow> set_handler env s args
           | GET \<Rightarrow> get_handler env s args
           | DEL \<Rightarrow> del_handler env s args
           | INCR \<Rightarrow> incr_handler env s args
           | DECR \<Rightarrow> decr_handler env s args
           | EXPIRE \<Rightarrow> expire_handler env s args
           | TTL \<Rightarrow> ttl_handler env s args
           | HSET \<Rightarrow> hset_handler env s args
           | HGET \<Rightarrow> hget_handler env s args
           | HDEL \<Rightarrow> hdel_handler env s args
           | HKEYS \<Rightarrow> hkeys_handler env s args
           | LLEN \<Rightarrow> llen_handler env s args
           | LPUSH \<Rightarrow> lpush_handler env s args
           | RPUSH \<Rightarrow> rpush_handler env s args
           | LPOP \<Rightarrow> lpop_handler env s args
           | RPOP \<Rightarrow> rpop_handler env s args
           | LRANGE \<Rightarrow> lrange_handler env s args
           | ZADD \<Rightarrow> zadd_handler env s args
           | ZCARD \<Rightarrow> zcard_handler env s args
           | ZINCRBY \<Rightarrow> zincrby_handler env s args
           | ZRANGE \<Rightarrow> zrange_handler env s args
           | ZRANK \<Rightarrow> zrank_handler env s args
           | ZSCORE \<Rightarrow> zscore_handler env s args
           | ZREM \<Rightarrow> zrem_handler env s args
           | SADD \<Rightarrow> sadd_handler env s args
           | SMEMBERS \<Rightarrow> smembers_handler env s args
           | SCARD \<Rightarrow> scard_handler env s args
           | SISMEMBER \<Rightarrow> sismember_handler env s args
           | SREM \<Rightarrow> srem_handler env s args
           | UNKNOWN \<Rightarrow> (Inr (''-ERR unknown command '' @ [CHR 0x27] @ name @ [CHR 0x27] @ crlf), s)))"

subsection \<open>Properties of the dispatch\<close>

text \<open>The number of arguments each command takes, its name included.\<close>

fun arity_ok :: "OPS \<Rightarrow> nat \<Rightarrow> bool" where
  "arity_ok DEL n \<longleftrightarrow> 2 \<le> n"
| "arity_ok HSET n \<longleftrightarrow> 4 \<le> n \<and> even n"
| "arity_ok ZADD n \<longleftrightarrow> 4 \<le> n \<and> even n"
| "arity_ok ZRANGE n \<longleftrightarrow> 4 \<le> n"
| "arity_ok ZREM n \<longleftrightarrow> 3 \<le> n"
| "arity_ok SADD n \<longleftrightarrow> 3 \<le> n"
| "arity_ok SREM n \<longleftrightarrow> 3 \<le> n"
| "arity_ok LRANGE n \<longleftrightarrow> n = 4"
| "arity_ok ZINCRBY n \<longleftrightarrow> n = 4"
| "arity_ok SET n \<longleftrightarrow> n = 3"
| "arity_ok EXPIRE n \<longleftrightarrow> n = 3"
| "arity_ok HGET n \<longleftrightarrow> n = 3"
| "arity_ok HDEL n \<longleftrightarrow> n = 3"
| "arity_ok LPUSH n \<longleftrightarrow> n = 3"
| "arity_ok RPUSH n \<longleftrightarrow> n = 3"
| "arity_ok LLEN n \<longleftrightarrow> n = 3"
| "arity_ok ZSCORE n \<longleftrightarrow> n = 3"
| "arity_ok ZRANK n \<longleftrightarrow> n = 3"
| "arity_ok SISMEMBER n \<longleftrightarrow> n = 3"
| "arity_ok PING n \<longleftrightarrow> 1 \<le> n"
| "arity_ok FLUSHALL n \<longleftrightarrow> 1 \<le> n"
| "arity_ok SAVE n \<longleftrightarrow> 1 \<le> n"
| "arity_ok UNKNOWN n \<longleftrightarrow> 1 \<le> n"
| "arity_ok _ n \<longleftrightarrow> n = 2"

lemmas handler_defs =
  set_handler_def get_handler_def del_handler_def incr_handler_def decr_handler_def expire_handler_def ttl_handler_def
  hset_handler_def hget_handler_def hdel_handler_def hkeys_handler_def lpush_handler_def rpush_handler_def
  lpop_handler_def rpop_handler_def llen_handler_def lrange_handler_def zadd_handler_def zrem_handler_def
  zrange_handler_def zcard_handler_def zscore_handler_def zincrby_handler_def zrank_handler_def sadd_handler_def
  srem_handler_def sismember_handler_def scard_handler_def smembers_handler_def

text \<open>A server on the skip list engine with the default configuration; its ZINCRBY adds whole numbers.\<close>

definition sl_env :: "SkipList env" where
  "sl_env = \<lparr>ops = skiplist_engine (\<lambda>i. False), config = default_config, clock = 0,
     fadd = (\<lambda>n x. cpp_bind (stoll x) (\<lambda>i. Inr (word_of_int (n + i))))\<rparr>"

text \<open>
  A command with a number of arguments it does not take is answered with an error and changes
  nothing: the request never reaches the store.
\<close>

theorem dispatch_checks_arity:
  assumes "\<not> arity_ok (string2Ops name) (length (name # args))"
  shows "\<exists>e. dispatch env s (name # args) = (Inr (wrong_number e), s)"
proof (cases "string2Ops name")
  case HSET
  then show ?thesis using assms by (auto simp: dispatch_def hset_handler_def RedisWrapper_hset_def; presburger)
next
  case ZADD
  then show ?thesis using assms by (auto simp: dispatch_def zadd_handler_def)
next
  case DEL
  then show ?thesis using assms by (cases args) (auto simp: dispatch_def del_handler_def)
qed (use assms in \<open>auto simp: dispatch_def handler_defs\<close>)

lemma dispatch_checks_arity_witness: "\<exists>e. dispatch sl_env sl_db [''Get''] = (Inr (wrong_number e), sl_db)"
proof -
  have "string2Ops ''Get'' = GET" by code_simp
  then show ?thesis by (intro dispatch_checks_arity) simp
qed

text \<open>Two spellings of a command that differ in case.\<close>

lemma tolower_idem: "tolower (tolower c) = tolower c"
  by (auto simp: tolower_def)

lemma string2Ops_toLower [simp]: "string2Ops (toLower name) = string2Ops name"
  by (simp add: string2Ops_def toLower_def tolower_idem comp_def)

text \<open>
  LLEN cannot be used: its handler asks for three arguments, so that the form with one key is always
  refused, and with a second key that one is ignored.
\<close>

theorem llen_needs_spurious_argument:
  "dispatch env s [''LLEN'', k] = (Inr (wrong_number ''LLEN''), s) \<and>
   dispatch env s [''LLEN'', k, x] = redis_llen (ops env) (config env) (clock env) s k"
proof -
  have "string2Ops ''LLEN'' = LLEN" by code_simp
  then show ?thesis by (simp add: dispatch_def llen_handler_def RedisWrapper_llen_def with_1_def arg_def)
qed

end
