(* ===== verification/Server.thy ===== *)
theory Server
  imports Redis_Commands
begin

text \<open>
  The Redis protocol of \<^verbatim>\<open>server/src/server.cpp\<close>: the parser of \<^verbatim>\<open>handleRequest\<close> and the part of
  \<^verbatim>\<open>do_read\<close> that takes a request out of the receive buffer, once the buffer holds a line. Requests are
  assumed to be shorter than 2 GB, so that positions fit \<^verbatim>\<open>int\<close>. Sockets and the event
  loop are not modelled.
\<close>

subsection \<open>Positions\<close>

definition newline :: char where
  "newline = CHR 0x0A"

text \<open>\<^verbatim>\<open>request.find('\n', pos)\<close>\<close>

definition find_newline :: "string \<Rightarrow> nat \<Rightarrow> nat option" where
  "find_newline request pos =
     (if newline \<in> set (drop pos request)
      then Some (pos + length (takeWhile (\<lambda>c. c \<noteq> newline) (drop pos request))) else None)"

text \<open>\<^verbatim>\<open>request.find('\n', pos) + 1\<close>, where \<^verbatim>\<open>npos + 1\<close> is zero.\<close>

definition after_newline :: "string \<Rightarrow> nat \<Rightarrow> nat" where
  "after_newline request pos = (case find_newline request pos of Some p \<Rightarrow> p + 1 | None \<Rightarrow> 0)"

definition protocol_error :: "string \<Rightarrow> string" where
  "protocol_error msg = ''-ERR Protocol error: '' @ msg @ crlf"

definition expected :: "char \<Rightarrow> string" where
  "expected c = protocol_error (''expected '' @ [CHR 0x27, c, CHR 0x27])"

subsection \<open>Requests\<close>

text \<open>The loop over the elements: an error reply, or the arguments.\<close>

fun parse_args :: "string \<Rightarrow> nat \<Rightarrow> nat \<Rightarrow> string list \<Rightarrow> string + string list" where
  "parse_args request 0 pos args = Inr args"
| "parse_args request (Suc n) pos args =
     (if length request \<le> pos \<or> request ! pos \<noteq> CHR ''$'' then Inl (expected CHR ''$'')
      else case stoi (drop (pos + 1) request) of
             Inl e \<Rightarrow> Inl (protocol_error ''invalid bulk string length'')
           | Inr len \<Rightarrow>
               let pos = after_newline request pos
               in if int (length request) < (int pos + len) mod 2 ^ 64
                  then Inl (protocol_error ''bulk string length exceeds request size'')
                  else parse_args request n (after_newline request pos)
                         (args @ [if len < 0 then drop pos request else take (nat len) (drop pos request)]))"

definition handleRequest :: "'s env \<Rightarrow> 's LSM \<Rightarrow> string \<Rightarrow> 's redis" where
  "handleRequest env s request =
     (if request = [] then (Inr (expected CHR ''*''), s)
      else if request = ''PING'' @ crlf then (Inr (''+PONG'' @ crlf), s)
      else case stoi (drop 1 request) of
             Inl e \<Rightarrow> (Inr (protocol_error ''invalid number of elements''), s)
           | Inr numElements \<Rightarrow>
               (case parse_args request (nat numElements) (after_newline request 0) [] of
                  Inl reply \<Rightarrow> (Inr reply, s)
                | Inr args \<Rightarrow> dispatch env s args))"

subsection \<open>Reading\<close>

text \<open>\<^verbatim>\<open>std::getline\<close> on the buffer: the line without its newline, and what is left.\<close>

definition getline :: "string \<Rightarrow> string \<times> string" where
  "getline buf = (takeWhile (\<lambda>c. c \<noteq> newline) buf, drop 1 (dropWhile (\<lambda>c. c \<noteq> newline) buf))"

fun read_lines :: "nat \<Rightarrow> string \<Rightarrow> string \<Rightarrow> string option \<times> string" where
  "read_lines 0 buf full_request = (Some full_request, buf)"
| "read_lines (Suc n) buf full_request =
     (if buf = [] then (None, buf)
      else case getline buf of (line, buf) \<Rightarrow> read_lines n buf (full_request @ line @ crlf))"

text \<open>The completion handler of \<^verbatim>\<open>do_read\<close>: the reply to write, the database, the rest of the buffer.\<close>

definition do_read :: "'s env \<Rightarrow> 's LSM \<Rightarrow> string \<Rightarrow> 's redis \<times> string" where
  "do_read env s buf =
     (case getline buf of (line, buf) \<Rightarrow>
      let request_line = line @ crlf
      in if request_line = ''PING'' @ crlf then ((Inr (''+PONG'' @ crlf), s), buf)
         else if length request_line < 2 \<or> request_line ! 0 \<noteq> CHR ''*'' then ((Inr (expected CHR ''*''), s), buf)
         else case stoi (drop 1 request_line) of
                Inl e \<Rightarrow> ((Inr (protocol_error ''invalid number of elements''), s), buf)
              | Inr numElements \<Rightarrow>
                  (case signed_range 32 (numElements * 2) of
                     Inl e \<Rightarrow> ((Inl e, s), buf)
                   | Inr lines \<Rightarrow>
                       (case read_lines (nat lines) buf request_line of
                          (None, buf) \<Rightarrow> ((Inr (protocol_error ''partial request received''), s), buf)
                        | (Some full_request, buf) \<Rightarrow> (handleRequest env s full_request, buf))))"

subsection \<open>The wire format\<close>

text \<open>
  A client sends an array of bulk strings, lines ending in \<open>e\<close>; \<^verbatim>\<open>do_read\<close> hands it to the parser with
  one more carriage return before each newline, because \<^verbatim>\<open>std::getline\<close> leaves the one that came.
\<close>

definition bulk_with :: "string \<Rightarrow> string \<Rightarrow> string" where
  "bulk_with e v = ''$'' @ to_string (int (length v)) @ e @ v @ e"

definition request_with :: "string \<Rightarrow> string list \<Rightarrow> string" where
  "request_with e args = ''*'' @ to_string (int (length args)) @ e @ concat (map (bulk_with e) args)"

definition line_end :: "nat \<Rightarrow> string" where
  "line_end n = replicate (Suc n) CHR 0x0D @ [newline]"

lemma request_with_crlf: "request_with (line_end 0) args = array_reply args"
proof -
  have "bulk_with (line_end 0) = bulk_reply"
    by (rule ext) (simp add: bulk_with_def bulk_reply_def line_end_def crlf_def newline_def)
  then show ?thesis by (simp add: request_with_def array_reply_def line_end_def crlf_def newline_def)
qed

text \<open>An argument the format can carry.\<close>

definition arg_ok :: "string \<Rightarrow> bool" where
  "arg_ok v \<longleftrightarrow> newline \<notin> set v \<and> int (length v) < 2 ^ 31"

lemma not_digit_cr: "\<not> is_digit CHR 0x0D" "CHR 0x0D \<noteq> newline" "CHR ''$'' \<noteq> newline" "CHR ''*'' \<noteq> newline"
  by (simp_all add: is_digit_def newline_def)

lemma newline_to_string [simp]: "newline \<notin> set (to_string i)"
  using to_string_chars [of newline i] by (auto simp: newline_def is_digit_def)

lemma line_end_simps [simp]: "hd (line_end n @ r) = CHR 0x0D" "line_end n \<noteq> []" "length (line_end n) = n + 2"
  by (simp_all add: line_end_def)

lemma stoi_line: "0 \<le> i \<Longrightarrow> i < 2 ^ 31 \<Longrightarrow> stoi (to_string i @ line_end n @ r) = Inr i"
  by (rule sto_int_append) (simp_all add: not_digit_cr)

lemma after_newline_line:
  assumes "drop pos request = xs @ line_end n @ rest" "newline \<notin> set xs"
  shows "after_newline request pos = pos + length xs + n + 2"
proof -
  have d: "drop pos request = (xs @ replicate (Suc n) CHR 0x0D) @ newline # rest" using assms(1) by (simp add: line_end_def)
  have "takeWhile (\<lambda>c. c \<noteq> newline) (drop pos request) = xs @ replicate (Suc n) CHR 0x0D"
    unfolding d using assms(2) not_digit_cr by (subst takeWhile_append2) auto
  then show ?thesis by (simp add: after_newline_def find_newline_def d)
qed

lemma drop_more: "drop pos request = xs @ ys \<Longrightarrow> drop (pos + length xs) request = ys"
  by (metis append_eq_conv_conj drop_drop add.commute)

lemma parse_args_bulks:
  assumes "drop pos request = concat (map (bulk_with (line_end n)) args)" "\<forall>v\<in>set args. arg_ok v"
    and "int (length request) < 2 ^ 63"
  shows "parse_args request (length args) pos acc = Inr (acc @ args)"
  using assms(1,2)
proof (induction args arbitrary: pos acc)
  case (Cons v args)
  let ?ds = "to_string (int (length v))" and ?rest = "concat (map (bulk_with (line_end n)) args)"
  have d: "drop pos request = CHR ''$'' # ?ds @ line_end n @ v @ line_end n @ ?rest" using Cons.prems(1) by (simp add: bulk_with_def [of _ v])
  have v: "newline \<notin> set v" "int (length v) < 2 ^ 31" using Cons.prems(2) by (auto simp: arg_ok_def)
  have lt: "pos < length request" using d by (metis drop_eq_Nil2 list.distinct(1) not_le)
  then have dollar: "request ! pos = CHR ''$''" using d by (metis Cons_nth_drop_Suc list.inject)
  have d1: "drop (pos + 1) request = ?ds @ line_end n @ v @ line_end n @ ?rest"
    using drop_more [of pos request "[CHR ''$'']"] d by simp
  have len: "stoi (drop (pos + 1) request) = Inr (int (length v))" using d1 v(2) by (simp add: stoi_line)
  have d': "drop pos request = (CHR ''$'' # ?ds) @ line_end n @ v @ line_end n @ ?rest" using d by simp
  define p where "p = pos + length (CHR ''$'' # ?ds) + n + 2"
  have p: "after_newline request pos = p"
    unfolding p_def by (rule after_newline_line [OF d']) (use not_digit_cr(3) in auto)
  have dp: "drop p request = v @ line_end n @ ?rest"
    using drop_more [of pos request "CHR ''$'' # ?ds @ line_end n"] d by (simp add: p_def add.assoc)
  have q: "after_newline request p = p + length v + n + 2" by (rule after_newline_line [OF dp v(1)])
  have dq: "drop (p + length v + n + 2) request = ?rest"
    using drop_more [of p request "v @ line_end n"] dp by (simp add: add.assoc)
  have "p < length request" using dp by (cases "p < length request") auto
  then have "p + length v \<le> length request" using arg_cong [OF dp, of length] by simp
  then have "(int p + int (length v)) mod 2 ^ 64 = int p + int (length v)" "\<not> int (length request) < int p + int (length v)"
    using assms(3) by auto
  then show ?case using lt dollar len p q dp Cons.IH [OF dq] Cons.prems(2) by (simp add: Let_def)
qed simp

text \<open>A request is parsed back into its arguments.\<close>

lemma handleRequest_args:
  assumes "\<forall>v\<in>set args. arg_ok v" "int (length args) < 2 ^ 31" "int (length (request_with (line_end n) args)) < 2 ^ 63"
  shows "handleRequest env s (request_with (line_end n) args) = dispatch env s args"
proof -
  let ?req = "request_with (line_end n) args" and ?ds = "to_string (int (length args))"
  have r: "?req = (CHR ''*'' # ?ds) @ line_end n @ concat (map (bulk_with (line_end n)) args)" by (simp add: request_with_def)
  have "stoi (drop 1 ?req) = Inr (int (length args))" using assms(2) by (simp add: r stoi_line)
  moreover have a: "after_newline ?req 0 = length (CHR ''*'' # ?ds) + n + 2"
    using after_newline_line [of 0 ?req "CHR ''*'' # ?ds" n] r not_digit_cr(4) by auto
  moreover have "drop (length (CHR ''*'' # ?ds) + n + 2) ?req = concat (map (bulk_with (line_end n)) args)"
    using drop_more [of 0 ?req "CHR ''*'' # ?ds @ line_end n"] r by (simp add: add.assoc)
  then have "parse_args ?req (length args) (length (CHR ''*'' # ?ds) + n + 2) [] = Inr args"
    using parse_args_bulks [OF _ assms(1,3)] by simp
  moreover have "?req \<noteq> []" "?req \<noteq> ''PING'' @ crlf" by (simp_all add: r)
  ultimately show ?thesis by (simp add: handleRequest_def)
qed

lemma getline_line:
  assumes "newline \<notin> set xs"
  shows "getline (xs @ line_end 0 @ rest) = (xs @ [CHR 0x0D], rest)"
proof -
  have e: "xs @ line_end 0 @ rest = (xs @ [CHR 0x0D]) @ newline # rest" by (simp add: line_end_def)
  have "takeWhile (\<lambda>c. c \<noteq> newline) ((xs @ [CHR 0x0D]) @ newline # rest) = xs @ [CHR 0x0D]"
    "dropWhile (\<lambda>c. c \<noteq> newline) ((xs @ [CHR 0x0D]) @ newline # rest) = newline # rest"
    using assms not_digit_cr(2) by (subst takeWhile_append2 dropWhile_append2; auto)+
  then show ?thesis unfolding e getline_def by simp
qed

lemma cr_crlf: "CHR 0x0D # crlf = line_end 1"
  by (simp add: line_end_def crlf_def newline_def)

lemma read_lines_bulks:
  assumes "\<forall>v\<in>set args. arg_ok v"
  shows "read_lines (2 * length args) (concat (map (bulk_with (line_end 0)) args) @ rest) full =
    (Some (full @ concat (map (bulk_with (line_end 1)) args)), rest)"
  using assms
proof (induction args arbitrary: full)
  case (Cons v args)
  let ?b = "concat (map (bulk_with (line_end 0)) args)" and ?ds = "to_string (int (length v))"
  have v: "newline \<notin> set v" "newline \<notin> set (CHR ''$'' # ?ds)" using Cons.prems not_digit_cr(3) by (auto simp: arg_ok_def)
  have two: "2 * length (v # args) = Suc (Suc (2 * length args))" by simp
  have buf: "concat (map (bulk_with (line_end 0)) (v # args)) @ rest = (CHR ''$'' # ?ds) @ line_end 0 @ v @ line_end 0 @ ?b @ rest"
    by (simp add: bulk_with_def [of _ v])
  have "full @ ((CHR ''$'' # ?ds) @ [CHR 0x0D]) @ crlf = full @ (CHR ''$'' # ?ds) @ line_end 1" by (simp add: cr_crlf)
  moreover have "(v @ [CHR 0x0D]) @ crlf = v @ line_end 1" by (simp add: cr_crlf)
  ultimately show ?case
    using Cons.IH [of "full @ (CHR ''$'' # ?ds) @ line_end 1 @ v @ line_end 1"] Cons.prems
    unfolding two buf read_lines.simps getline_line [OF v(2)] prod.case
    by (simp add: getline_line [OF v(1)] bulk_with_def [of "line_end (Suc 0)" v])
qed simp

text \<open>The same wire format, as \<^verbatim>\<open>do_read\<close> passes it on.\<close>

lemma length_request_with: "length (request_with (line_end n) args) =
   length (request_with (line_end 0) args) + n * (2 * length args + 1)"
proof -
  have "length (concat (map (bulk_with (line_end n)) args)) =
      length (concat (map (bulk_with (line_end 0)) args)) + n * (2 * length args)"
    by (induction args) (simp_all add: bulk_with_def)
  then show ?thesis by (simp add: request_with_def)
qed

lemma do_read_args:
  assumes "\<forall>v\<in>set args. arg_ok v" "int (length args) < 2 ^ 30" "int (length (array_reply args)) < 2 ^ 62"
  shows "do_read env s (array_reply args @ rest) = (dispatch env s args, rest)"
proof -
  let ?ds = "to_string (int (length args))" and ?b = "concat (map (bulk_with (line_end 0)) args)"
  have buf: "array_reply args @ rest = (CHR ''*'' # ?ds) @ line_end 0 @ ?b @ rest"
    by (simp add: request_with_crlf [symmetric] request_with_def)
  have nn: "newline \<notin> set (CHR ''*'' # ?ds)" using not_digit_cr(4) by auto
  have gl: "getline (array_reply args @ rest) = ((CHR ''*'' # ?ds) @ [CHR 0x0D], ?b @ rest)"
    unfolding buf by (rule getline_line [OF nn])
  have rl: "((CHR ''*'' # ?ds) @ [CHR 0x0D]) @ crlf = (CHR ''*'' # ?ds) @ line_end 1" by (simp add: cr_crlf)
  have st: "stoi (drop 1 ((CHR ''*'' # ?ds) @ line_end 1)) = Inr (int (length args))"
    using stoi_line [of "int (length args)" 1 "[]"] assms(2) by simp
  have sr: "signed_range 32 (int (length args) * 2) = Inr (int (length args) * 2)" using assms(2) by (simp add: signed_range_def)
  have nt: "nat (int (length args) * 2) = 2 * length args" by simp
  have rd: "read_lines (2 * length args) (?b @ rest) ((CHR ''*'' # ?ds) @ line_end 1) = (Some (request_with (line_end 1) args), rest)"
    using read_lines_bulks [OF assms(1)] by (simp add: request_with_def)
  have "int (length (request_with (line_end 1) args)) < 2 ^ 63"
    using assms(2,3) length_request_with [of 1 args] by (simp add: request_with_crlf)
  then have "handleRequest env s (request_with (line_end 1) args) = dispatch env s args"
    using assms(1,2) by (intro handleRequest_args) simp_all
  then show ?thesis unfolding do_read_def gl prod.case Let_def rl st sr sum.case nt rd option.case by simp
qed

lemma length_nat_to_string: "length (nat_to_string m) \<le> Suc m"
proof (induction m rule: nat_to_string.induct)
  case (1 m)
  show ?case
  proof (cases "m < 10")
    case False
    then have "length (nat_to_string m) = length (nat_to_string (m div 10)) + 1" by (subst nat_to_string.simps) simp
    then show ?thesis using 1 [OF False] False by linarith
  qed (subst nat_to_string.simps, simp)
qed

lemma length_array_reply: "length (array_reply ws) \<le> sum_list (map (\<lambda>w. 2 * length w + 6) ws) + length ws + 4"
proof -
  have bl: "length (bulk_reply w) \<le> 2 * length w + 6" for w
    using length_nat_to_string [of "length w"] by (simp add: bulk_reply_def to_string_def crlf_def)
  have "length (concat (map bulk_reply ws)) \<le> sum_list (map (\<lambda>w. 2 * length w + 6) ws)"
  proof (induction ws)
    case (Cons w ws)
    then show ?case using bl [of w] by simp
  qed simp
  then show ?thesis using length_nat_to_string [of "length ws"] by (simp add: array_reply_def to_string_def crlf_def)
qed

subsection \<open>Properties\<close>

text \<open>
  The server reads what a client sends: when the receive buffer starts with the array of bulk strings
  for \<open>args\<close>, the reader takes exactly this request out of the buffer and answers it with the command
  \<open>args\<close>; what follows, such as a pipelined request, stays in the buffer. The arguments may be any
  bytes but newlines.
\<close>

theorem do_read_dispatches:
  assumes "\<forall>v\<in>set args. arg_ok v" "int (length args) < 2 ^ 30" "int (length (array_reply args)) < 2 ^ 62"
  shows "do_read env s (array_reply args @ rest) = (dispatch env s args, rest)"
  by (rule do_read_args [OF assms])

lemma do_read_dispatches_witness:
  "do_read sl_env sl_db (array_reply [''GET'', ''k''] @ ''*1'') = (dispatch sl_env sl_db [''GET'', ''k''], ''*1'')"
  by (rule do_read_dispatches) (simp_all add: arg_ok_def newline_def array_reply_def bulk_reply_def to_string_def crlf_def nat_to_string.simps)

text \<open>
  From the wire to the store and back: SET and GET sent by a client answer the value, for every key and value
  without a newline, on every store with the contract \<open>redis_store\<close>.
\<close>

theorem server_set_get:
  assumes "redis_store (ops env) view can (config env)" "can s (n + 5)" "v \<noteq> []" "arg_ok k" "arg_ok v"
    and "do_read env s (array_reply [''SET'', k, v] @ array_reply [''GET'', k]) = ((r1, s1), buf1)"
    and "do_read env s1 buf1 = ((r2, s2), buf2)"
  shows "r1 = Inr ok_reply \<and> r2 = Inr (bulk_reply v) \<and> buf2 = [] \<and>
    view s2 = kv_del (get_explire_key (config env) k) (kv_put k v (view s))"
proof -
  have ops: "string2Ops ''SET'' = SET" "string2Ops ''GET'' = GET" by code_simp+
  have ok: "arg_ok ''SET''" "arg_ok ''GET''" by (simp_all add: arg_ok_def newline_def)
  have len: "int (length (array_reply [''SET'', k, v])) < 2 ^ 62" "int (length (array_reply [''GET'', k])) < 2 ^ 62"
    using length_array_reply [of "[''SET'', k, v]"] length_array_reply [of "[''GET'', k]"] assms(4,5) by (auto simp: arg_ok_def)
  have 1: "dispatch env s [''SET'', k, v] = (r1, s1)" "buf1 = array_reply [''GET'', k]"
    using assms(6) do_read_args [of "[''SET'', k, v]" env s] assms(4,5) ok len(1) by auto
  have 2: "dispatch env s1 [''GET'', k] = (r2, s2)" "buf2 = []"
    using assms(7) do_read_args [of "[''GET'', k]" env s1 "[]"] assms(4) ok len(2) 1(2) by auto
  have set: "redis_set (ops env) (config env) s k v = (r1, s1)"
    using 1(1) ops by (simp add: dispatch_def set_handler_def RedisWrapper_set_def with_2_def arg_def)
  have get: "redis_get (ops env) (config env) (clock env) s1 k = (r2, s2)"
    using 2(1) ops by (simp add: dispatch_def get_handler_def RedisWrapper_get_def with_1_def arg_def)
  have "r1 = Inr ok_reply" using set by (simp add: redis_set_def)
  then show ?thesis using redis_store.set_get_ok [OF assms(1-3), of k "clock env"] set get 2(2) by (simp add: gives_def)
qed

lemma server_set_get_witness:
  "\<exists>s1 s2. do_read sl_env sl_db (array_reply [''SET'', ''k'', ''v''] @ array_reply [''GET'', ''k'']) =
       ((Inr ok_reply, s1), array_reply [''GET'', ''k'']) \<and>
     do_read sl_env s1 (array_reply [''GET'', ''k'']) = ((Inr (bulk_reply ''v''), s2), [])"
proof -
  have st: "redis_store (ops sl_env) (lsm_view sl_content) (lsm_can sl_bounded) (config sl_env)"
    using sl_redis.redis_store_axioms by (simp add: sl_env_def)
  have c: "lsm_can sl_bounded sl_db (0 + 5)" by (rule sl_db_can) simp
  have ok: "arg_ok ''k''" "arg_ok ''v''" "arg_ok ''SET''" by (simp_all add: arg_ok_def newline_def)
  have l: "int (length (array_reply [''SET'', ''k'', ''v''])) < 2 ^ 62" using length_array_reply [of "[''SET'', ''k'', ''v'']"] by simp
  obtain r1 s1 where 1: "dispatch sl_env sl_db [''SET'', ''k'', ''v''] = (r1, s1)" by fastforce
  have d1: "do_read sl_env sl_db (array_reply [''SET'', ''k'', ''v''] @ array_reply [''GET'', ''k'']) =
      ((r1, s1), array_reply [''GET'', ''k''])" using do_read_args [of "[''SET'', ''k'', ''v'']" sl_env sl_db] ok l 1 by simp
  obtain r2 s2 b where d2: "do_read sl_env s1 (array_reply [''GET'', ''k'']) = ((r2, s2), b)" by (metis prod.exhaust)
  show ?thesis using server_set_get [OF st c _ ok(1,2) d1 d2] d1 d2 by auto
qed

text \<open>
  A value with a newline is cut and stored wrong without an error: the reader counts lines, so that
  the request for the three bytes \<open>a\<close>, newline, \<open>b\<close> ends after the \<open>a\<close>, and the parser fills the
  value up with the line end the reader added. The rest of the value is taken for the next
  request.
\<close>

theorem newline_in_value_corrupts:
  "do_read env s (array_reply [''SET'', ''k'', [CHR ''a'', CHR 0x0A, CHR ''b'']]) =
     (dispatch env s [''SET'', ''k'', [CHR ''a'', CHR 0x0D, CHR 0x0A]], [CHR ''b'', CHR 0x0D, CHR 0x0A])"
proof -
  define buf where "buf = array_reply [''SET'', ''k'', [CHR ''a'', CHR 0x0A, CHR ''b'']]"
  define line where "line = ''*3'' @ [CHR 0x0D] @ crlf"
  define full where "full = line @ ''$3'' @ [CHR 0x0D] @ crlf @ ''SET'' @ [CHR 0x0D] @ crlf @ ''$1'' @ [CHR 0x0D] @ crlf @
    ''k'' @ [CHR 0x0D] @ crlf @ ''$3'' @ [CHR 0x0D] @ crlf @ ''a'' @ crlf"
  define rest where "rest = snd (getline buf)"
  have "fst (getline buf) @ crlf = line" unfolding buf_def line_def by code_simp
  then obtain l where g: "getline buf = (l, rest)" "l @ crlf = line" by (cases "getline buf") (auto simp: rest_def)
  have n: "stoi (drop 1 line) = Inr 3" "signed_range 32 (3 * 2) = Inr 6" "line \<noteq> ''PING'' @ crlf"
    "\<not> (length line < 2 \<or> line ! 0 \<noteq> CHR ''*'')" unfolding line_def by code_simp+
  have r: "read_lines (nat 6) rest line = (Some full, [CHR ''b'', CHR 0x0D, CHR 0x0A])"
    unfolding rest_def buf_def full_def line_def by code_simp
  have h: "stoi (drop 1 full) = Inr 3" "full \<noteq> []" "full \<noteq> ''PING'' @ crlf"
    "parse_args full (nat 3) (after_newline full 0) [] = Inr [''SET'', ''k'', [CHR ''a'', CHR 0x0D, CHR 0x0A]]"
    unfolding full_def line_def by code_simp+
  have f: "handleRequest env s full = dispatch env s [''SET'', ''k'', [CHR ''a'', CHR 0x0D, CHR 0x0A]]"
    using h(2,3) unfolding handleRequest_def h(1,4) sum.case by (simp only: if_False)
  have "do_read env s buf = (dispatch env s [''SET'', ''k'', [CHR ''a'', CHR 0x0D, CHR 0x0A]], [CHR ''b'', CHR 0x0D, CHR 0x0A])"
    using n(3,4) unfolding do_read_def g prod.case Let_def n(1,2) sum.case r option.case f by (simp only: if_False)
  then show ?thesis by (simp only: buf_def)
qed

text \<open>An inline PING is refused: the carriage return that came stays in the line that is compared.\<close>

lemma inline_ping_refused: "do_read env s (''PING'' @ crlf @ rest) = ((Inr (expected CHR ''*''), s), rest)"
proof -
  have "''PING'' @ crlf @ rest = ''PING'' @ line_end 0 @ rest" by (simp add: crlf_def line_end_def newline_def)
  then have "getline (''PING'' @ crlf @ rest) = (''PING'' @ [CHR 0x0D], rest)"
    using getline_line [of "''PING''" rest] by (simp add: newline_def)
  then show ?thesis by (simp add: do_read_def Let_def crlf_def)
qed

text \<open>INCR on text throws out of \<^verbatim>\<open>handleRequest\<close>: there is no handler between it and the event loop.\<close>

lemma incr_text_uncaught:
  assumes "redis_store (ops env) view can (config env)" "can s (n + 2)" "view s k = Some v" "stoll v = Inl e"
  shows "fst (dispatch env s [''INCR'', k]) = Inl e"
proof -
  have "string2Ops ''INCR'' = INCR" by code_simp
  moreover have "gives view can (redis_incr (ops env) s k) (fst (counter_spec 1 (view s) k)) (snd (counter_spec 1 (view s) k)) n"
    by (rule redis_store.incr_decr_ok(1) [OF assms(1,2)])
  ultimately show ?thesis using assms(3,4)
    by (cases "redis_incr (ops env) s k")
       (simp add: dispatch_def incr_handler_def RedisWrapper_incr_def with_1_def arg_def gives_def counter_spec_def)
qed

end
