(* ===== verification/Server_Session.thy ===== *)
theory Server_Session
  imports Server
begin

text \<open>
  A connection of \<^verbatim>\<open>RedisSession\<close> in \<^verbatim>\<open>server/src/server.cpp\<close> on the bytes received so far: \<^verbatim>\<open>do_read\<close> completes
  as soon as the receive buffer holds a line end, \<^verbatim>\<open>do_write\<close> sends the reply and reads again. An exception
  that leaves a handler ends the event loop, and with it the server. Writes succeed, and no bytes arrive
  between two reads.
\<close>

lemma getline_shorter: "newline \<in> set buf \<Longrightarrow> length (snd (getline buf)) < length buf"
  by (induction buf) (auto simp: getline_def)

lemma getline_not_longer: "length (snd (getline buf)) \<le> length buf"
  using length_dropWhile_le [of "\<lambda>c. c \<noteq> newline" buf] by (simp add: getline_def)

lemma read_lines_not_longer: "length (snd (read_lines n buf full)) \<le> length buf"
proof (induction n arbitrary: buf full)
  case (Suc n)
  show ?case
    using Suc [of "snd (getline buf)" "full @ fst (getline buf) @ crlf"] getline_not_longer [of buf]
    by (cases "getline buf") (auto intro: order_trans)
qed simp

lemma do_read_not_longer: "length (snd (do_read env s buf)) \<le> length (snd (getline buf))"
proof -
  obtain line b where g: "getline buf = (line, b)" by (cases "getline buf")
  have "length b' \<le> length b" if "read_lines n b full = (r, b')" for n full r b'
    using read_lines_not_longer [of n b full] that by simp
  then show ?thesis by (auto simp: do_read_def g Let_def split: sum.splits prod.splits option.splits)
qed

definition has_line :: "string \<Rightarrow> bool" where
  "has_line buf \<longleftrightarrow> str_find buf crlf \<noteq> None"

lemma find_from_append: "find_from p i (xs @ p @ ys) \<noteq> None"
proof (induction xs arbitrary: i)
  case Nil
  show ?case
  proof (cases "p @ ys")
    case (Cons c s)
    then have "prefix p (c # s)" by (metis prefixI)
    with Cons show ?thesis by simp
  qed simp
qed auto

lemma find_from_subset: "find_from p i s \<noteq> None \<Longrightarrow> set p \<subseteq> set s"
proof (induction p i s rule: find_from.induct)
  case (2 p i c s)
  show ?case
  proof (cases "prefix p (c # s)")
    case True
    then show ?thesis by (rule set_mono_prefix)
  qed (use 2 in auto)
qed (simp split: if_splits)

lemma has_line_newline: "has_line buf \<Longrightarrow> newline \<in> set buf"
  using find_from_subset [of crlf 0 buf] by (auto simp: has_line_def str_find_def crlf_def newline_def)

lemma has_line_append: "has_line (xs @ crlf @ ys)"
  by (simp only: has_line_def str_find_def) (rule find_from_append)

text \<open>The replies written, the exception that ended the server if there was one, and what is left.\<close>

type_synonym 's session = "string list \<times> cpp_error option \<times> 's LSM \<times> string"

function serve :: "'s env \<Rightarrow> 's LSM \<Rightarrow> string \<Rightarrow> 's session" where
  "serve env s buf =
     (if \<not> has_line buf then ([], None, s, buf)
      else case do_read env s buf of
             ((Inl e, s), buf) \<Rightarrow> ([], Some e, s, buf)
           | ((Inr reply, s), buf) \<Rightarrow> (case serve env s buf of (replies, r) \<Rightarrow> (reply # replies, r)))"
  by pat_completeness auto
termination
proof (relation "measure (\<lambda>(env, s, buf). length buf)", simp)
  fix env and s :: "'s LSM" and buf x y a b
  assume "\<not> \<not> has_line buf" "(x, y) = do_read env s buf" "(a, b) = x"
  then have "newline \<in> set buf" "y = snd (do_read env s buf)" 
    by (simp add: has_line_newline) (metis \<open>(x, y) = do_read env s buf\<close> snd_conv)
  then show "((env, b, y), env, s, buf) \<in> measure (\<lambda>(env, s, buf). length buf)"
    using do_read_not_longer [of env s buf] getline_shorter [of buf] by simp
qed

declare serve.simps [simp del]

text \<open>The reference: the commands one after the other, up to the first exception.\<close>

fun run_commands :: "'s env \<Rightarrow> 's LSM \<Rightarrow> string list list \<Rightarrow> string list \<times> cpp_error option \<times> 's LSM" where
  "run_commands env s [] = ([], None, s)"
| "run_commands env s (args # reqs) =
     (case dispatch env s args of
        (Inl e, s) \<Rightarrow> ([], Some e, s)
      | (Inr reply, s) \<Rightarrow> (case run_commands env s reqs of (replies, r) \<Rightarrow> (reply # replies, r)))"

definition request_ok :: "string list \<Rightarrow> bool" where
  "request_ok args \<longleftrightarrow> (\<forall>v\<in>set args. arg_ok v) \<and> int (length args) < 2 ^ 30 \<and> int (length (array_reply args)) < 2 ^ 62"

lemma array_reply_has_line: "has_line (array_reply args @ rest)"
proof -
  have "array_reply args @ rest = (''*'' @ to_string (int (length args))) @ crlf @ concat (map bulk_reply args) @ rest"
    by (simp add: array_reply_def)
  then show ?thesis by (simp only: has_line_append)
qed

lemma serve_requests:
  assumes "\<forall>args\<in>set reqs. request_ok args" "\<not> has_line rest"
  shows "\<exists>buf. serve env s (concat (map array_reply reqs) @ rest) =
      (case run_commands env s reqs of (replies, e, s') \<Rightarrow> (replies, e, s', buf)) \<and>
    (fst (snd (run_commands env s reqs)) = None \<longrightarrow> buf = rest)"
  using assms(1)
proof (induction reqs arbitrary: s)
  case Nil
  then show ?case using assms(2) by (simp add: serve.simps [of env s rest])
next
  case (Cons args reqs)
  let ?buf = "concat (map array_reply reqs) @ rest"
  have d: "do_read env s (array_reply args @ ?buf) = (dispatch env s args, ?buf)"
    using do_read_args [of args env s ?buf] Cons.prems by (simp add: request_ok_def)
  have step: "serve env s (concat (map array_reply (args # reqs)) @ rest) =
      (case dispatch env s args of
         (Inl e, s) \<Rightarrow> ([], Some e, s, ?buf)
       | (Inr reply, s) \<Rightarrow> (case serve env s ?buf of (replies, r) \<Rightarrow> (reply # replies, r)))"
    using array_reply_has_line [of args ?buf] d
    by (subst serve.simps) (auto split: prod.splits sum.splits)
  obtain r s1 where r: "dispatch env s args = (r, s1)" by (cases "dispatch env s args")
  show ?case
  proof (cases r)
    case (Inl e)
    then show ?thesis unfolding step r by (simp add: r)
  next
    case (Inr reply)
    obtain buf where buf: "serve env s1 ?buf = (case run_commands env s1 reqs of (replies, e, s') \<Rightarrow> (replies, e, s', buf))"
      "fst (snd (run_commands env s1 reqs)) = None \<longrightarrow> buf = rest"
      using Cons.IH [of s1] Cons.prems by (metis list.set_intros(2))
    obtain rs e s2 where rc: "run_commands env s1 reqs = (rs, e, s2)" by (cases "run_commands env s1 reqs")
    show ?thesis
      unfolding step r Inr by (rule exI [of _ buf]) (use buf in \<open>simp add: r Inr rc\<close>)
  qed
qed



end
