(* ===== verification/Keyspace.thy ===== *)
theory Keyspace
  imports Redis_Hash Redis_ZSet
begin

text \<open>
  The keyspace a client of the Redis layer sees: every key holds nothing, a string, a list, a hash or a
  set. This theory has the commands on it, how the database represents it, and that each command of the layer is a
  step of it on every store with the contract \<open>redis_store\<close>. \<open>Server_Keyspace\<close> lifts this to the server.
\<close>

subsection \<open>The keyspace\<close>

datatype rvalue = Str string | Lst "string list" | Hsh hash | Sts "string set"

type_synonym keyspace = "string \<Rightarrow> rvalue option"

datatype client_cmd = PingC | GetC string | SetC string string | DelC "string list" | IncrC string | DecrC string
  | ListC string list_cmd | HashC string hash_cmd | SetsC string set_cmd

definition list_at :: "rvalue option \<Rightarrow> string list" where
  "list_at v = (case v of Some (Lst xs) \<Rightarrow> xs | _ \<Rightarrow> [])"

definition hash_at :: "rvalue option \<Rightarrow> hash" where
  "hash_at v = (case v of Some (Hsh h) \<Rightarrow> h | _ \<Rightarrow> [])"

definition set_at :: "rvalue option \<Rightarrow> string set" where
  "set_at v = (case v of Some (Sts S) \<Rightarrow> S | _ \<Rightarrow> {})"

definition number_at :: "rvalue option \<Rightarrow> int option" where
  "number_at v = (case v of None \<Rightarrow> Some 0 | Some (Str x) \<Rightarrow> (case stoll x of Inl _ \<Rightarrow> None | Inr i \<Rightarrow> Some i) | _ \<Rightarrow> None)"

fun del_keyspace :: "string list \<Rightarrow> keyspace \<Rightarrow> nat \<times> keyspace" where
  "del_keyspace [] db = (0, db)"
| "del_keyspace (k # ks) db =
     (case del_keyspace ks (db(k := None)) of (c, db') \<Rightarrow> (if db k = None then c else Suc c, db'))"

definition add_keyspace :: "int \<Rightarrow> string \<Rightarrow> keyspace \<Rightarrow> string \<times> keyspace" where
  "add_keyspace d k db = (case number_at (db k) of
      Some i \<Rightarrow> (int_reply (i + d), db(k \<mapsto> Str (to_string (i + d)))) | None \<Rightarrow> ([], db))"

text \<open>A list or hash without elements is no value; a set is one from its first SADD or SREM on, empty or not.\<close>

definition list_value :: "string list \<Rightarrow> rvalue option" where
  "list_value xs = (if xs = [] then None else Some (Lst xs))"

definition hash_value :: "hash \<Rightarrow> rvalue option" where
  "hash_value h = (if h = [] then None else Some (Hsh h))"

definition set_value :: "set_cmd \<Rightarrow> rvalue option \<Rightarrow> rvalue option" where
  "set_value c v = (case c of SAdd ms \<Rightarrow> Some (Sts (set_at v \<union> set ms)) | SRem ms \<Rightarrow> Some (Sts (set_at v - set ms)) | _ \<Rightarrow> v)"

fun keyspace_spec :: "keyspace \<Rightarrow> client_cmd \<Rightarrow> string \<times> keyspace" where
  "keyspace_spec db PingC = (''+PONG'' @ crlf, db)"
| "keyspace_spec db (GetC k) = (case db k of Some (Str v) \<Rightarrow> bulk_reply v | _ \<Rightarrow> nil_reply, db)"
| "keyspace_spec db (SetC k v) = (ok_reply, db(k \<mapsto> Str v))"
| "keyspace_spec db (DelC ks) = (case del_keyspace ks db of (c, db') \<Rightarrow> (int_reply (int c), db'))"
| "keyspace_spec db (IncrC k) = add_keyspace 1 k db"
| "keyspace_spec db (DecrC k) = add_keyspace (- 1) k db"
| "keyspace_spec db (ListC k c) = (case list_spec c (list_at (db k)) of (reply, xs) \<Rightarrow> (reply, db(k := list_value xs)))"
| "keyspace_spec db (HashC k c) = (case hash_spec c (hash_at (db k)) of (reply, h) \<Rightarrow> (reply, db(k := hash_value h)))"
| "keyspace_spec db (SetsC k c) = (fst (set_spec c (set_at (db k))), db(k := set_value c (db k)))"

fun keyspace_run :: "keyspace \<Rightarrow> client_cmd list \<Rightarrow> string list \<times> keyspace" where
  "keyspace_run db [] = ([], db)"
| "keyspace_run db (c # cs) = (case keyspace_spec db c of (reply, db') \<Rightarrow>
     case keyspace_run db' cs of (replies, db'') \<Rightarrow> (reply # replies, db''))"

subsection \<open>Its representation\<close>

text \<open>The entry under the key itself.\<close>

definition rep :: "RedisConfig \<Rightarrow> rvalue option \<Rightarrow> string option" where
  "rep cfg v = (case v of None \<Rightarrow> None | Some (Str x) \<Rightarrow> Some x | Some (Lst xs) \<Rightarrow> list_rep cfg xs
     | Some (Hsh h) \<Rightarrow> hash_key_rep cfg (map fst h) | Some (Sts S) \<Rightarrow> Some (to_string (int (card S))))"

text \<open>The database keys that belong to a key of the client, and the entries they hold for a value without a deadline.\<close>

definition own_key :: "RedisConfig \<Rightarrow> string \<Rightarrow> string \<Rightarrow> bool" where
  "own_key cfg k x \<longleftrightarrow> x = get_explire_key cfg k \<or> x = k \<or> prefix (field_space cfg k) x \<or> prefix (get_set_key_preffix cfg k) x"

definition write_value :: "RedisConfig \<Rightarrow> string \<Rightarrow> rvalue option \<Rightarrow> kv \<Rightarrow> kv" where
  "write_value cfg k v m x =
     (if x = get_explire_key cfg k then None
      else if x = k then rep cfg v
      else if prefix (field_space cfg k) x then map_of (hash_at v) (drop (length (field_space cfg k)) x)
      else if prefix (get_set_key_preffix cfg k) x
           then (if drop (length (get_set_key_preffix cfg k)) x \<in> set_at v then Some get_set_member_value else None)
      else m x)"

definition value_ok :: "RedisConfig \<Rightarrow> rvalue option \<Rightarrow> bool" where
  "value_ok cfg v \<longleftrightarrow> (case v of Some (Lst xs) \<Rightarrow> xs \<noteq> [] \<and> list_valid cfg xs | Some (Hsh h) \<Rightarrow> h \<noteq> [] \<and> hash_valid cfg h
     | Some (Sts S) \<Rightarrow> finite S | _ \<Rightarrow> True)"

definition store_rep :: "RedisConfig \<Rightarrow> string set \<Rightarrow> keyspace \<Rightarrow> kv \<Rightarrow> bool" where
  "store_rep cfg K db m \<longleftrightarrow> (\<forall>k\<in>K. write_value cfg k (db k) m = m \<and> value_ok cfg (db k))"

text \<open>The keys of a client: none of them is an internal key of another, and no two share one.\<close>

definition client_keys :: "RedisConfig \<Rightarrow> string set \<Rightarrow> bool" where
  "client_keys cfg K \<longleftrightarrow> redis_field_prefix cfg \<parallel> redis_set_prefix cfg \<and>
     (\<forall>k\<in>K. \<forall>k'\<in>K. k' \<noteq> get_explire_key cfg k \<and> \<not> prefix (field_space cfg k) k' \<and> \<not> prefix (get_set_key_preffix cfg k) k' \<and>
       (k \<noteq> k' \<longrightarrow> field_space cfg k \<parallel> field_space cfg k' \<and> get_set_key_preffix cfg k \<parallel> get_set_key_preffix cfg k'))"

lemma write_value_outside: "\<not> own_key cfg k x \<Longrightarrow> write_value cfg k v m x = m x"
  by (simp add: write_value_def own_key_def)

lemma write_value_inside: "own_key cfg k x \<Longrightarrow> write_value cfg k v m x = write_value cfg k v m' x"
  by (auto simp: write_value_def own_key_def)

lemma write_value_again [simp]: "write_value cfg k v (write_value cfg k v' m) = write_value cfg k v m"
  by (rule ext) (simp add: write_value_def)

lemma prefixes_apart: "a \<parallel> b \<Longrightarrow> prefix (a @ c) x \<Longrightarrow> prefix (b @ d) x \<Longrightarrow> False"
  by (meson append_prefixD parallel_def prefix_same_cases)

lemma spaces_apart:
  "redis_field_prefix cfg \<parallel> redis_set_prefix cfg \<Longrightarrow> prefix (field_space cfg k) x \<Longrightarrow> \<not> prefix (get_set_key_preffix cfg k') x"
  using prefixes_apart by (auto simp: field_space_def get_set_key_preffix_def)

context redis_store
begin

lemma expire_apart: "\<not> prefix (field_space cfg k) (get_explire_key cfg k')" "\<not> prefix (get_set_key_preffix cfg k) (get_explire_key cfg k')"
  by (auto simp: prefix_def)

lemma own_key_unique:
  assumes "client_keys cfg K" "k \<in> K" "k' \<in> K" "own_key cfg k x" "own_key cfg k' x"
  shows "k = k'"
proof (rule ccontr)
  assume ne: "k \<noteq> k'"
  have par: "redis_field_prefix cfg \<parallel> redis_set_prefix cfg" using assms(1) by (simp add: client_keys_def)
  have both: "\<not> (prefix a x \<and> prefix b x)" if "a \<parallel> b" for a b using that by (meson parallel_def prefix_same_cases)
  have "k' \<noteq> get_explire_key cfg k" "k \<noteq> get_explire_key cfg k'" "get_explire_key cfg k \<noteq> get_explire_key cfg k'"
    using assms(1-3) ne by (simp_all add: client_keys_def get_explire_key_def)
  moreover have "\<not> prefix (field_space cfg k) k'" "\<not> prefix (field_space cfg k') k"
    "\<not> prefix (get_set_key_preffix cfg k) k'" "\<not> prefix (get_set_key_preffix cfg k') k"
    using assms(1-3) by (simp_all add: client_keys_def)
  moreover have "\<not> (prefix (field_space cfg k) x \<and> prefix (field_space cfg k') x)"
    "\<not> (prefix (get_set_key_preffix cfg k) x \<and> prefix (get_set_key_preffix cfg k') x)"
    using assms(1-3) ne by (intro both; simp add: client_keys_def)+
  ultimately show False
    using assms(4,5) ne spaces_apart [OF par, of k x k'] spaces_apart [OF par, of k' x k] expire_apart
    unfolding own_key_def by (elim disjE) simp_all
qed

lemma store_rep_update:
  assumes "store_rep cfg K db m" "client_keys cfg K" "k \<in> K" "value_ok cfg v"
  shows "store_rep cfg K (db(k := v)) (write_value cfg k v m)"
proof -
  have "write_value cfg k' (db k') (write_value cfg k v m) = write_value cfg k v m" if k': "k' \<in> K" "k' \<noteq> k" for k'
  proof
    fix x
    have h: "write_value cfg k' (db k') m = m" using assms(1) k'(1) by (simp add: store_rep_def)
    show "write_value cfg k' (db k') (write_value cfg k v m) x = write_value cfg k v m x"
    proof (cases "own_key cfg k' x")
      case True
      then have "\<not> own_key cfg k x" using own_key_unique [OF assms(2,3) k'(1)] k'(2) by blast
      then show ?thesis using write_value_inside [OF True, of "db k'" _ m] h write_value_outside by metis
    qed (simp add: write_value_outside)
  qed
  then show ?thesis using assms(1,4) by (auto simp: store_rep_def)
qed

lemma holds_apply:
  assumes "write_value cfg k v m = m"
  shows "m k = rep cfg v" "m (get_explire_key cfg k) = None"
  using fun_cong [OF assms, of k] fun_cong [OF assms, of "get_explire_key cfg k"] by (simp_all add: write_value_def)

text \<open>The views of the single types.\<close>

lemma write_plain:
  assumes "write_value cfg k v m = m" "hash_at v = []" "set_at v = {}" "hash_at v' = []" "set_at v' = {}"
  shows "m(k := rep cfg v') = write_value cfg k v' m"
proof
  fix x
  show "(m(k := rep cfg v')) x = write_value cfg k v' m x"
    using fun_cong [OF assms(1), of x] assms(2-) by (auto simp: write_value_def split: if_splits)
qed

lemma write_hash:
  assumes "write_value cfg k v m = m" "set_at v = {}"
  shows "hash_db cfg k (h, None) m = write_value cfg k (hash_value h) m"
proof
  fix x
  have "set_at (hash_value h) = {}" "hash_at (hash_value h) = h" "rep cfg (hash_value h) = hash_key_rep cfg (map fst h)"
    by (auto simp: set_at_def hash_at_def hash_value_def rep_def hash_key_rep_def)
  then show "hash_db cfg k (h, None) m x = write_value cfg k (hash_value h) m x"
    using fun_cong [OF assms(1), of x] assms(2)
    by (auto simp: write_value_def hash_db_def hash_entries_def hash_write_def)
qed

lemma write_set:
  assumes "write_value cfg k v m = m" "hash_at v = []" "hash_at v' = []" "redis_field_prefix cfg \<parallel> redis_set_prefix cfg"
  shows "set_entries cfg k (rep cfg v') (set_at v') None m = write_value cfg k v' m"
proof
  fix x
  show "set_entries cfg k (rep cfg v') (set_at v') None m x = write_value cfg k v' m x"
    using fun_cong [OF assms(1), of x] assms(2,3) spaces_apart [OF assms(4), of k x k] by (auto simp: write_value_def set_entries_def)
qed

end

subsection \<open>Commands the encoding can serve\<close>

text \<open>
  A value has one type; an empty string cannot be stored; a string, a list or the size of a set must not be taken for
  a hash by DEL, and a set must be empty before DEL; SET replaces a string or a list; a number stays within 64 bits;
  HSET with one field is not offered by the server.
\<close>

definition str_at :: "rvalue option \<Rightarrow> bool" where
  "str_at v \<longleftrightarrow> (case v of None \<Rightarrow> True | Some (Str _) \<Rightarrow> True | _ \<Rightarrow> False)"

definition kind_list :: "rvalue option \<Rightarrow> bool" where
  "kind_list v \<longleftrightarrow> (case v of None \<Rightarrow> True | Some (Lst _) \<Rightarrow> True | _ \<Rightarrow> False)"

definition kind_hash :: "rvalue option \<Rightarrow> bool" where
  "kind_hash v \<longleftrightarrow> (case v of None \<Rightarrow> True | Some (Hsh _) \<Rightarrow> True | _ \<Rightarrow> False)"

definition kind_set :: "rvalue option \<Rightarrow> bool" where
  "kind_set v \<longleftrightarrow> (case v of None \<Rightarrow> True | Some (Sts _) \<Rightarrow> True | _ \<Rightarrow> False)"

definition del_ok :: "RedisConfig \<Rightarrow> rvalue option \<Rightarrow> bool" where
  "del_ok cfg v \<longleftrightarrow> set_at v = {} \<and> (case v of Some (Hsh _) \<Rightarrow> True
     | _ \<Rightarrow> (case rep cfg v of None \<Rightarrow> True | Some x \<Rightarrow> \<not> prefix (redis_hash_value_preffix cfg) x))"

definition add_ok :: "int \<Rightarrow> rvalue option \<Rightarrow> bool" where
  "add_ok d v \<longleftrightarrow> (case number_at v of None \<Rightarrow> False | Some i \<Rightarrow> - (2 ^ 63) \<le> i + d \<and> i + d < 2 ^ 63)"

fun cmd_ok :: "RedisConfig \<Rightarrow> keyspace \<Rightarrow> client_cmd \<Rightarrow> bool" where
  "cmd_ok cfg db PingC \<longleftrightarrow> True"
| "cmd_ok cfg db (GetC k) \<longleftrightarrow> str_at (db k)"
| "cmd_ok cfg db (SetC k v) \<longleftrightarrow> v \<noteq> [] \<and> (str_at (db k) \<or> kind_list (db k))"
| "cmd_ok cfg db (DelC ks) \<longleftrightarrow> ks \<noteq> [] \<and> (\<forall>k\<in>set ks. del_ok cfg (db k))"
| "cmd_ok cfg db (IncrC k) \<longleftrightarrow> add_ok 1 (db k)"
| "cmd_ok cfg db (DecrC k) \<longleftrightarrow> add_ok (- 1) (db k)"
| "cmd_ok cfg db (ListC k c) \<longleftrightarrow> kind_list (db k) \<and>
     int (length (list_at (db k))) < 2 ^ 31 \<and> list_cmd_ok cfg (length (list_at (db k))) c"
| "cmd_ok cfg db (HashC k c) \<longleftrightarrow> kind_hash (db k) \<and> hash_cmd_ok cfg c \<and> (\<forall>f v. c \<noteq> HSet1 f v)"
| "cmd_ok cfg db (SetsC k c) \<longleftrightarrow> kind_set (db k) \<and> set_cmd_ok c \<and> c \<noteq> SAdd [] \<and> c \<noteq> SRem [] \<and>
     int (card (set_at (db k))) + int (set_cost c) < 2 ^ 31"

fun cmd_keys :: "client_cmd \<Rightarrow> string list" where
  "cmd_keys PingC = []"
| "cmd_keys (GetC k) = [k]"
| "cmd_keys (SetC k v) = [k]"
| "cmd_keys (DelC ks) = ks"
| "cmd_keys (IncrC k) = [k]"
| "cmd_keys (DecrC k) = [k]"
| "cmd_keys (ListC k c) = [k]"
| "cmd_keys (HashC k c) = [k]"
| "cmd_keys (SetsC k c) = [k]"

fun cmds_ok :: "RedisConfig \<Rightarrow> keyspace \<Rightarrow> client_cmd list \<Rightarrow> bool" where
  "cmds_ok cfg db [] \<longleftrightarrow> True"
| "cmds_ok cfg db (c # cs) \<longleftrightarrow> cmd_ok cfg db c \<and> cmds_ok cfg (snd (keyspace_spec db c)) cs"

text \<open>The operations on the database a command takes at most.\<close>

definition cmd_cost :: "keyspace \<Rightarrow> client_cmd \<Rightarrow> nat" where
  "cmd_cost db c = (case c of DelC ks \<Rightarrow> sum_list (map (\<lambda>k. 4 + length (hash_at (db k))) ks)
     | HashC k c \<Rightarrow> 4 + length (hash_at (db k)) + hash_cost c | SetsC k c \<Rightarrow> 4 + set_cost c | _ \<Rightarrow> 3)"

fun run_cost :: "keyspace \<Rightarrow> client_cmd list \<Rightarrow> nat" where
  "run_cost db [] = 0"
| "run_cost db (c # cs) = cmd_cost db c + run_cost (snd (keyspace_spec db c)) cs"

text \<open>The method of the layer a command calls; a counter is answered as an integer.\<close>

fun cmd_exec :: "'s engine_ops \<Rightarrow> RedisConfig \<Rightarrow> int \<Rightarrow> 's LSM \<Rightarrow> client_cmd \<Rightarrow> 's redis" where
  "cmd_exec E cfg now s PingC = (Inr (''+PONG'' @ crlf), s)"
| "cmd_exec E cfg now s (GetC k) = redis_get E cfg now s k"
| "cmd_exec E cfg now s (SetC k v) = redis_set E cfg s k v"
| "cmd_exec E cfg now s (DelC ks) = redis_del E cfg s (''del'' # ks)"
| "cmd_exec E cfg now s (IncrC k) = and_then (redis_incr E s k) (\<lambda>res s. (Inr ('':'' @ res @ crlf), s))"
| "cmd_exec E cfg now s (DecrC k) = and_then (redis_decr E s k) (\<lambda>res s. (Inr ('':'' @ res @ crlf), s))"
| "cmd_exec E cfg now s (ListC k c) = list_exec E cfg now s k c"
| "cmd_exec E cfg now s (HashC k c) = hash_exec E cfg now s k c"
| "cmd_exec E cfg now s (SetsC k c) = set_exec E cfg now s k c"

subsection \<open>Each command is a step\<close>

lemmas at_defs = list_at_def hash_at_def set_at_def

lemma str_at_plain: "str_at v \<or> kind_list v \<Longrightarrow> hash_at v = [] \<and> set_at v = {}"
  by (auto simp: str_at_def kind_list_def at_defs split: option.splits rvalue.splits)

lemma kind_value:
  "kind_list v \<Longrightarrow> value_ok cfg v \<Longrightarrow> v = list_value (list_at v) \<and> list_valid cfg (list_at v)"
  "kind_hash v \<Longrightarrow> value_ok cfg v \<Longrightarrow> v = hash_value (hash_at v) \<and> hash_valid cfg (hash_at v) \<and> set_at v = {}"
  "kind_set v \<Longrightarrow> value_ok cfg v \<Longrightarrow> finite (set_at v) \<and> size_rep (set_at v) (rep cfg v) \<and> hash_at v = []"
  by (auto simp: kind_list_def kind_hash_def kind_set_def list_value_def hash_value_def value_ok_def at_defs rep_def size_rep_def
      list_valid_def hash_valid_def split: option.splits rvalue.splits)

lemma list_value_facts [simp]:
  "rep cfg (list_value xs) = list_rep cfg xs" "hash_at (list_value xs) = []" "set_at (list_value xs) = {}"
  "value_ok cfg (list_value xs) \<longleftrightarrow> xs = [] \<or> list_valid cfg xs"
  by (auto simp: list_value_def rep_def list_rep_def at_defs value_ok_def)

lemma hash_value_facts [simp]:
  "value_ok cfg (hash_value h) \<longleftrightarrow> h = [] \<or> hash_valid cfg h" "value_ok cfg (Some (Str x))" "value_ok cfg None"
  by (auto simp: hash_value_def value_ok_def)

text \<open>\<open>step_to\<close>: the call answers \<open>reply\<close> and leaves the value \<open>v\<close> at the key, everything else as it was.\<close>

definition step_to :: "RedisConfig \<Rightarrow> ('s LSM \<Rightarrow> kv) \<Rightarrow> ('s LSM \<Rightarrow> nat \<Rightarrow> bool) \<Rightarrow> 's LSM \<Rightarrow> string \<Rightarrow> 's redis \<Rightarrow>
    string \<Rightarrow> rvalue option \<Rightarrow> nat \<Rightarrow> bool" where
  "step_to cfg view can s k x reply v n \<longleftrightarrow> gives view can x (Inr reply) (write_value cfg k v (view s)) n \<and> value_ok cfg v"

lemma step_toI:
  assumes "gives view can x (Inr reply) m n" "m = write_value cfg k v (view s)" "value_ok cfg v"
  shows "step_to cfg view can s k x reply v n"
  using assms by (simp add: step_to_def)

context redis_store
begin

lemma get_string_step:
  assumes "can s (n + 3)" "write_value cfg k v (view s) = view s" "value_ok cfg v" "str_at v"
  shows "step_to cfg view can s k (redis_get E cfg now s k) (case v of Some (Str x) \<Rightarrow> bulk_reply x | _ \<Rightarrow> nil_reply) v n"
proof -
  note h = holds_apply [OF assms(2)]
  have "gives view can (redis_get E cfg now s k) (Inr (case v of Some (Str x) \<Rightarrow> bulk_reply x | _ \<Rightarrow> nil_reply)) (view s) n"
  proof (cases v)
    case None
    moreover have "kv_del (get_explire_key cfg k) (view s) = view s" using h(2) by (auto simp: kv_del_def)
    ultimately show ?thesis using get_missing [OF assms(1), of k now] h(1) by (simp add: rep_def)
  next
    case (Some r)
    then obtain x where "v = Some (Str x)" using assms(4) by (cases r) (auto simp: str_at_def)
    moreover have "can s (n + 2)" by (rule can_le [OF assms(1)]) simp
    ultimately show ?thesis using get_live [of s n k x now] h by (simp add: rep_def is_expired_def)
  qed
  then show ?thesis by (rule step_toI) (simp_all add: assms(2,3))
qed

lemma set_string_step:
  assumes "can s (n + 3)" "write_value cfg k v (view s) = view s" "str_at v \<or> kind_list v" "x \<noteq> []"
  shows "step_to cfg view can s k (redis_set E cfg s k x) ok_reply (Some (Str x)) n"
proof (rule step_toI [OF set_ok [OF assms(1)]])
  have "kv_del (get_explire_key cfg k) (kv_put k x (view s)) = (view s)(k := rep cfg (Some (Str x)))"
    using assms(4) holds_apply(2) [OF assms(2)] by (auto simp: kv_del_def kv_put_def rep_def)
  also have "\<dots> = write_value cfg k (Some (Str x)) (view s)"
    using str_at_plain [OF assms(3)] by (intro write_plain [OF assms(2)]) (simp_all add: at_defs)
  finally show "kv_del (get_explire_key cfg k) (kv_put k x (view s)) = write_value cfg k (Some (Str x)) (view s)" .
qed simp

lemma counter_step:
  assumes "gives view can x (fst (counter_spec d (view s) k)) (snd (counter_spec d (view s) k)) n"
    and "write_value cfg k (db k) (view s) = view s" "add_ok d (db k)"
  shows "\<exists>v. step_to cfg view can s k (and_then x (\<lambda>res s. (Inr ('':'' @ res @ crlf), s))) (fst (add_keyspace d k db)) v n \<and>
    snd (add_keyspace d k db) = db(k := v)"
proof -
  obtain i where i: "number_at (db k) = Some i" "- (2 ^ 63) \<le> i + d" "i + d < 2 ^ 63"
    using assms(3) by (auto simp: add_ok_def split: option.splits)
  let ?v = "Some (Str (to_string (i + d)))"
  have a: "fst (add_keyspace d k db) = '':'' @ to_string (i + d) @ crlf" "snd (add_keyspace d k db) = db(k := ?v)"
    using i(1) by (simp_all add: add_keyspace_def int_reply_def)
  have "counter_spec d (view s) k = (Inr (to_string (i + d)), (view s)(k := rep cfg ?v))"
    using i holds_apply(1) [OF assms(2)] by (auto simp: counter_spec_def number_at_def rep_def signed_range_def kv_put_def
        split: option.splits rvalue.splits sum.splits)
  moreover have "str_at (db k)" using i(1) by (auto simp: number_at_def str_at_def split: option.splits rvalue.splits)
  then have "(view s)(k := rep cfg ?v) = write_value cfg k ?v (view s)"
    using str_at_plain by (intro write_plain [OF assms(2)]) (auto simp: at_defs)
  ultimately have "gives view can x (Inr (to_string (i + d))) (write_value cfg k ?v (view s)) n" using assms(1) by simp
  then have "gives view can (and_then x (\<lambda>res s. (Inr ('':'' @ res @ crlf), s))) (Inr ('':'' @ to_string (i + d) @ crlf))
      (write_value cfg k ?v (view s)) n" by (rule gives_and_then) (rule gives_return)
  then have "step_to cfg view can s k (and_then x (\<lambda>res s. (Inr ('':'' @ res @ crlf), s))) (fst (add_keyspace d k db)) ?v n"
    unfolding a by (rule step_toI) simp_all
  then show ?thesis using a(2) by blast
qed

lemma list_cmd_step:
  assumes "can s (n + 3)" "write_value cfg k v (view s) = view s" "value_ok cfg v" "kind_list v"
    and "int (length (list_at v)) < 2 ^ 31" "list_cmd_ok cfg (length (list_at v)) c"
  shows "step_to cfg view can s k (list_exec E cfg now s k c) (fst (list_spec c (list_at v))) (list_value (snd (list_spec c (list_at v)))) n"
proof -
  let ?xs = "list_at v" and ?ys = "snd (list_spec c (list_at v))"
  have v: "v = list_value ?xs" "list_valid cfg ?xs" using kind_value(1) [OF assms(4,3)] by auto
  have r: "view s k = list_rep cfg ?xs"
    using holds_apply(1) [OF assms(2)] arg_cong [OF v(1), of "rep cfg"] by simp
  have y: "value_ok cfg (list_value ?ys)" using list_valid_spec [OF v(2) assms(6)] by simp
  have "(view s)(k := rep cfg (list_value ?ys)) = write_value cfg k (list_value ?ys) (view s)"
    using str_at_plain assms(4) by (intro write_plain [OF assms(2)]) auto
  then show ?thesis
    using list_exec_ok [OF assms(1) holds_apply(2) [OF assms(2)] r v(2) assms(5,6), of now] y by (intro step_toI) simp_all
qed

lemma hash_cmd_step:
  assumes "can s (n + (4 + length (hash_at v) + hash_cost c))" "write_value cfg k v (view s) = view s" "value_ok cfg v" "kind_hash v"
    and "hash_cmd_ok cfg c"
  shows "step_to cfg view can s k (hash_exec E cfg now s k c) (fst (hash_spec c (hash_at v))) (hash_value (snd (hash_spec c (hash_at v)))) n"
proof -
  let ?h = "hash_at v"
  have v: "v = hash_value ?h" "hash_valid cfg ?h" "set_at v = {}" using kind_value(2) [OF assms(4,3)] by auto
  note w = write_hash [OF assms(2) v(3)]
  have "view s = hash_db cfg k (?h, None) (view s)" using w [of ?h] v(1) assms(2) by simp
  moreover have "hash_step now c (?h, None) = (fst (hash_spec c ?h), snd (hash_spec c ?h), None)"
    by (simp add: hash_step_def hash_now_def late_def split_beta)
  ultimately have "gives view can (hash_exec E cfg now s k c) (Inr (fst (hash_spec c ?h)))
      (write_value cfg k (hash_value (snd (hash_spec c ?h))) (view s)) n"
    using hash_exec_ok [of s n "(?h, None)" c k "view s" now] assms(1,5) v(2) w by (simp add: ac_simps deadline_ok_def)
  then show ?thesis using hash_valid_spec [OF v(2) assms(5)] by (intro step_toI) simp_all
qed

lemma set_cmd_step:
  assumes "can s (n + (4 + set_cost c))" "write_value cfg k v (view s) = view s" "value_ok cfg v" "kind_set v"
    and "set_cmd_ok c" "int (card (set_at v)) + int (set_cost c) < 2 ^ 31" "redis_field_prefix cfg \<parallel> redis_set_prefix cfg"
  shows "step_to cfg view can s k (set_exec E cfg now s k c) (fst (set_spec c (set_at v))) (set_value c v) n"
proof -
  let ?S = "set_at v"
  have v: "finite ?S" "size_rep ?S (rep cfg v)" "hash_at v = []" using kind_value(3) [OF assms(4,3)] by auto
  note w = write_set [OF assms(2) v(3) _ assms(7)]
  have "can s (Suc (n + set_cost c))" by (rule can_less [OF assms(1)]) simp
  then obtain s1 where 1: "expire_set_clean E cfg now s k = (Inr False, s1)" "view s1 = view s" "can s1 (n + set_cost c)"
    using holds_apply(2) [OF assms(2)] by (rule set_clean_live)
  have e: "view s1 = set_entries cfg k (rep cfg v) ?S (map_option to_string None) (view s)" using w [OF v(3)] 1(2) assms(2) by simp
  have st: "set_stored cfg k (S, None) (view s) = write_value cfg k (Some (Sts S)) (view s)" for S
    using w [of "Some (Sts S)"] by (simp add: at_defs rep_def set_stored_def)
  note q = set_query_ok [OF 1(1) _ v(2) e v(1), of n]
  have "gives view can (set_exec E cfg now s k c) (Inr (fst (set_spec c ?S))) (write_value cfg k (set_value c v) (view s)) n"
  proof (cases c)
    case (SAdd ms)
    then show ?thesis using sadd_ok [OF 1(1) _ v(2) e v(1), of n ms "''SADD''"] 1(3) assms(5,6) st by (simp add: set_value_def)
  next
    case (SRem ms)
    then show ?thesis using srem_ok [OF 1(1) _ v(2) e v(1), of n ms "''SREM''"] 1(3) assms(5,6) st by (simp add: set_value_def)
  qed (use q 1(2,3) assms(2) in \<open>simp_all add: set_value_def\<close>)
  moreover have "value_ok cfg (set_value c v)" using assms(3) v(1) by (cases c) (simp_all add: set_value_def value_ok_def)
  ultimately show ?thesis by (simp add: step_to_def)
qed

text \<open>DEL, key by key.\<close>

lemma del_one:
  assumes "write_value cfg k v m = m" "value_ok cfg v" "del_ok cfg v"
  shows "kv_del (get_explire_key cfg k) (del_map cfg k m) = write_value cfg k None m \<and> del_cost cfg m k \<le> length (hash_at v) \<and>
    (m k = None \<longleftrightarrow> v = None)"
proof -
  note h = holds_apply [OF assms(1)]
  have S: "set_at v = {}" using assms(3) by (simp add: del_ok_def)
  show ?thesis
  proof (cases "hash_at v")
    case Nil
    have x: "hash_fields cfg x = []" if "m k = Some x" for x
      using that h(1) assms(2,3) Nil by (auto simp: hash_fields_def del_ok_def hash_at_def value_ok_def split: option.splits rvalue.splits)
    then have "kv_del (get_explire_key cfg k) (del_map cfg k m) = m(k := rep cfg None)"
      using h(2) by (auto simp: del_map_def kv_del_def kv_dels_def rep_def split: option.splits)
    moreover have "\<dots> = write_value cfg k None m" using Nil S by (intro write_plain [OF assms(1)]) (simp_all add: at_defs)
    moreover have "m k = None \<longleftrightarrow> v = None" using h(1) assms(2)
      by (auto simp: rep_def value_ok_def list_rep_def hash_key_rep_def split: option.splits rvalue.splits)
    ultimately show ?thesis using x by (auto simp: del_cost_def split: option.splits)
  next
    case (Cons fv hs)
    then have v: "v = Some (Hsh (hash_at v))" by (auto simp: hash_at_def split: option.splits rvalue.splits)
    let ?h = "hash_at v"
    have ok: "hash_valid cfg ?h" using assms(2) unfolding value_ok_def by (subst (asm) v) simp
    let ?x = "get_hash_value_from_fields cfg (map fst ?h)"
    have r: "m k = Some ?x" using h(1) Cons arg_cong [OF v, of "rep cfg"] by (simp add: rep_def hash_key_rep_def)
    have "hash_key_rep cfg (map fst ?h) = Some ?x" using Cons by (simp add: hash_key_rep_def)
    then have f: "hash_fields cfg ?x = map fst ?h"
      using get_fileds_rep [OF hash_valid_tokens [OF ok]] get_fileds_hash [of cfg ?x] by (simp add: get_hash_value_from_fields_def)
    have m: "m = hash_db cfg k (?h, None) m" using write_hash [OF assms(1) S, of ?h] assms(1) v Cons by (simp add: hash_value_def)
    have "map_of ?h |` (- set (map fst ?h)) = (\<lambda>_. None)" by (auto simp: restrict_map_def fun_eq_iff map_of_eq_None_iff)
    then have "kv_del k (kv_dels (map (get_hash_filed_key cfg k) (map fst ?h)) (hash_db cfg k (?h, None) m)) = hash_db cfg k ([], None) m"
      unfolding hash_db_def entries_del_fields by (simp add: entries_del_key del: kv_del_apply)
    then have d: "del_map cfg k m = write_value cfg k None m"
      using m write_hash [OF assms(1) S, of "[]"] r f by (simp add: del_map_def hash_value_def)
    then have "kv_del (get_explire_key cfg k) (del_map cfg k m) = write_value cfg k None m" by (auto simp: kv_del_def write_value_def)
    then show ?thesis using r f v by (auto simp: del_cost_def)
  qed
qed

lemma del_spec_keyspace:
  assumes "store_rep cfg K db m" "client_keys cfg K" "set ks \<subseteq> K" "\<forall>k\<in>set ks. del_ok cfg (db k)"
  shows "fst (del_spec cfg ks m) = int (fst (del_keyspace ks db)) \<and>
    store_rep cfg K (snd (del_keyspace ks db)) (snd (del_spec cfg ks m)) \<and>
    (\<forall>x. (\<forall>k\<in>K. \<not> own_key cfg k x) \<longrightarrow> snd (del_spec cfg ks m) x = m x) \<and>
    del_budget cfg ks m \<le> sum_list (map (\<lambda>k. 4 + length (hash_at (db k))) ks)"
  using assms(1,3,4)
proof (induction ks arbitrary: db m)
  case (Cons k ks)
  have k: "k \<in> K" using Cons.prems(2) by simp
  have "write_value cfg k (db k) m = m" "value_ok cfg (db k)" "del_ok cfg (db k)"
    using Cons.prems k by (simp_all add: store_rep_def)
  note d = del_one [OF this]
  have r: "store_rep cfg K (db(k := None)) (write_value cfg k None m)"
    by (rule store_rep_update [OF Cons.prems(1) assms(2) k]) simp
  have "sum_list (map (\<lambda>k'. 4 + length (hash_at ((db(k := None)) k'))) ks) \<le> sum_list (map (\<lambda>k'. 4 + length (hash_at (db k'))) ks)"
    by (intro sum_list_mono) (simp add: hash_at_def)
  moreover have "\<forall>k'\<in>set ks. del_ok cfg ((db(k := None)) k')" using Cons.prems(3) by (simp add: del_ok_def set_at_def rep_def)
  ultimately show ?case using Cons.IH [OF r] Cons.prems(2) d k write_value_outside [of cfg k _ None m]
    by (auto simp: split_beta Let_def simp del: kv_del_apply fun_upd_apply)
qed simp

end

subsection \<open>A run of commands\<close>

text \<open>
  A call answers the reply and leaves the keyspace of the pair \<open>res\<close>; database keys that belong to no key of the client
  keep what they hold.
\<close>

definition keyspace_step :: "RedisConfig \<Rightarrow> string set \<Rightarrow> ('s LSM \<Rightarrow> kv) \<Rightarrow> ('s LSM \<Rightarrow> nat \<Rightarrow> bool) \<Rightarrow> kv \<Rightarrow> 's redis \<Rightarrow>
    string \<times> keyspace \<Rightarrow> nat \<Rightarrow> bool" where
  "keyspace_step cfg K view can m x res n \<longleftrightarrow> (\<exists>m'. gives view can x (Inr (fst res)) m' n \<and> store_rep cfg K (snd res) m' \<and>
     (\<forall>x. (\<forall>k\<in>K. \<not> own_key cfg k x) \<longrightarrow> m' x = m x))"

context redis_store
begin

lemma keyspace_stepI:
  assumes "step_to cfg view can s k x reply v n" "store_rep cfg K db (view s)" "client_keys cfg K" "k \<in> K"
  shows "keyspace_step cfg K view can (view s) x (reply, db(k := v)) n"
proof -
  have "gives view can x (Inr reply) (write_value cfg k v (view s)) n" "value_ok cfg v" using assms(1) by (simp_all add: step_to_def)
  then show ?thesis using store_rep_update [OF assms(2-4)] assms(4) by (auto simp: keyspace_step_def write_value_outside)
qed

lemma cmd_step:
  assumes "store_rep cfg K db (view s)" "client_keys cfg K" "can s (n + cmd_cost db c)" "set (cmd_keys c) \<subseteq> K" "cmd_ok cfg db c"
  shows "keyspace_step cfg K view can (view s) (cmd_exec E cfg now s c) (keyspace_spec db c) n"
proof -
  have h: "write_value cfg k (db k) (view s) = view s" "value_ok cfg (db k)" if "k \<in> K" for k
    using assms(1) that by (simp_all add: store_rep_def)
  note I = keyspace_stepI [OF _ assms(1,2)]
  show ?thesis
  proof (cases c)
    case PingC
    have "can s n" using can_le [OF assms(3), of 0] by simp
    then show ?thesis using PingC assms(1) by (auto simp: keyspace_step_def gives_def)
  next
    case (GetC k)
    then have "step_to cfg view can s k (cmd_exec E cfg now s c) (fst (keyspace_spec db c)) (db k) n"
      using get_string_step [where n = n and k = k and now = now, OF _ h] assms(3-5) by (simp add: cmd_cost_def)
    then show ?thesis using I GetC assms(4) by fastforce
  next
    case (SetC k x)
    then have "step_to cfg view can s k (cmd_exec E cfg now s c) ok_reply (Some (Str x)) n"
      using set_string_step [where n = n and x = x and k = k, OF _ h(1)] assms(3-5) by (simp add: cmd_cost_def)
    then show ?thesis using I SetC assms(4) by fastforce
  next
    case (DelC ks)
    note d = del_spec_keyspace [OF assms(1,2), of ks]
    have b: "set ks \<subseteq> K" "\<forall>k\<in>set ks. del_ok cfg (db k)" using DelC assms(4,5) by simp_all
    have "can s (n + del_budget cfg ks (view s))" by (rule can_le [OF assms(3)]) (use d b DelC in \<open>simp add: cmd_cost_def\<close>)
    then show ?thesis using del_keys_reply [of s n ks "''del''"] d b DelC by (auto simp: keyspace_step_def split_beta)
  next
    case (IncrC k)
    have "can s (n + 2)" by (rule can_le [OF assms(3)]) (simp add: cmd_cost_def IncrC)
    moreover have k: "k \<in> K" using assms(4) IncrC by simp
    ultimately obtain v where "step_to cfg view can s k (cmd_exec E cfg now s c) (fst (keyspace_spec db c)) v n"
      "snd (keyspace_spec db c) = db(k := v)"
      using counter_step [where db = db and k = k, OF incr_decr_ok(1) h(1) [OF k]] assms(5) IncrC by auto
    then show ?thesis using I [OF _ k] by (metis prod.collapse)
  next
    case (DecrC k)
    have "can s (n + 2)" by (rule can_le [OF assms(3)]) (simp add: cmd_cost_def DecrC)
    moreover have k: "k \<in> K" using assms(4) DecrC by simp
    ultimately obtain v where "step_to cfg view can s k (cmd_exec E cfg now s c) (fst (keyspace_spec db c)) v n"
      "snd (keyspace_spec db c) = db(k := v)"
      using counter_step [where db = db and k = k, OF incr_decr_ok(2) h(1) [OF k]] assms(5) DecrC by auto
    then show ?thesis using I [OF _ k] by (metis prod.collapse)
  next
    case (ListC k c')
    then show ?thesis using I [OF list_cmd_step [OF _ h]] assms(3-5) by (simp add: cmd_cost_def split_beta)
  next
    case (HashC k c')
    then show ?thesis using I [OF hash_cmd_step [OF _ h]] assms(3-5) by (simp add: cmd_cost_def split_beta)
  next
    case (SetsC k c')
    have "redis_field_prefix cfg \<parallel> redis_set_prefix cfg" using assms(2) by (simp add: client_keys_def)
    then show ?thesis using SetsC I [OF set_cmd_step [OF _ h]] assms(3-5) by (simp add: cmd_cost_def split_beta)
  qed
qed

end

end
