(* ===== verification/Server_Keyspace.thy ===== *)
theory Server_Keyspace
  imports Server_Session Keyspace
begin

text \<open>
  What a client of the server may rely on: a keyspace of strings, lists, hashes and sets. Every pipeline of commands
  on its keys, sent over a connection, is answered with the replies of the keyspace, and the database holds
  its final state. The whole path is involved: the receive buffer, the parser, the command table, the handlers,
  the Redis encoding and the contract \<open>redis_store\<close> of the database.
\<close>

subsection \<open>The commands on the wire\<close>

text \<open>LLEN needs a third argument, which is ignored; HSET takes fields and values in turn.\<close>

fun list_args :: "string \<Rightarrow> list_cmd \<Rightarrow> string list" where
  "list_args k (LPush v) = [''lpush'', k, v]"
| "list_args k (RPush v) = [''rpush'', k, v]"
| "list_args k LPop = [''lpop'', k]"
| "list_args k RPop = [''rpop'', k]"
| "list_args k LLen = [''llen'', k, k]"
| "list_args k (LRange a b) = [''lrange'', k, to_string a, to_string b]"

fun pair_args :: "(string \<times> string) list \<Rightarrow> string list" where
  "pair_args [] = []"
| "pair_args ((f, v) # kvs) = f # v # pair_args kvs"

fun hash_args :: "string \<Rightarrow> hash_cmd \<Rightarrow> string list" where
  "hash_args k (HSet kvs) = ''hset'' # k # pair_args kvs"
| "hash_args k (HSet1 f v) = [''hset'', k, f, v]"
| "hash_args k (HGet f) = [''hget'', k, f]"
| "hash_args k (HDel f) = [''hdel'', k, f]"
| "hash_args k HKeys = [''hkeys'', k]"

fun set_args :: "string \<Rightarrow> set_cmd \<Rightarrow> string list" where
  "set_args k (SAdd ms) = ''sadd'' # k # ms"
| "set_args k (SRem ms) = ''srem'' # k # ms"
| "set_args k (SIsMember x) = [''sismember'', k, x]"
| "set_args k SCard = [''scard'', k]"
| "set_args k SMembers = [''smembers'', k]"

fun cmd_args :: "client_cmd \<Rightarrow> string list" where
  "cmd_args PingC = [''ping'']"
| "cmd_args (GetC k) = [''get'', k]"
| "cmd_args (SetC k v) = [''set'', k, v]"
| "cmd_args (DelC ks) = ''del'' # ks"
| "cmd_args (IncrC k) = [''incr'', k]"
| "cmd_args (DecrC k) = [''decr'', k]"
| "cmd_args (ListC k c) = list_args k c"
| "cmd_args (HashC k c) = hash_args k c"
| "cmd_args (SetsC k c) = set_args k c"

lemma cmd_args_not_Nil: "cmd_args c \<noteq> []"
  by (cases c) (auto elim: list_args.elims hash_args.elims set_args.elims dest: sym)

text \<open>The case of the name is free.\<close>

definition spells :: "string list \<Rightarrow> client_cmd \<Rightarrow> bool" where
  "spells args c \<longleftrightarrow> args \<noteq> [] \<and> toLower (hd args) # tl args = cmd_args c"

lemma spells_Cons:
  assumes "spells args c" "cmd_args c = name # rest"
  obtains x where "args = x # rest" "string2Ops x = string2Ops name"
proof -
  from assms obtain x where x: "args = x # rest" "toLower x = name" by (cases args) (auto simp: spells_def)
  then show thesis using string2Ops_toLower [of x] by (intro that) auto
qed

lemma ops_names:
  "string2Ops ''ping'' = PING" "string2Ops ''get'' = GET" "string2Ops ''set'' = SET" "string2Ops ''del'' = DEL"
  "string2Ops ''incr'' = INCR" "string2Ops ''decr'' = DECR" "string2Ops ''lpush'' = LPUSH" "string2Ops ''rpush'' = RPUSH"
  "string2Ops ''lpop'' = LPOP" "string2Ops ''rpop'' = RPOP" "string2Ops ''llen'' = LLEN" "string2Ops ''lrange'' = LRANGE"
  "string2Ops ''hset'' = HSET" "string2Ops ''hget'' = HGET" "string2Ops ''hdel'' = HDEL" "string2Ops ''hkeys'' = HKEYS"
  "string2Ops ''sadd'' = SADD" "string2Ops ''srem'' = SREM" "string2Ops ''sismember'' = SISMEMBER"
  "string2Ops ''scard'' = SCARD" "string2Ops ''smembers'' = SMEMBERS"
  by code_simp+

lemmas command_defs = dispatch_def handler_defs arg_def with_1_def with_2_def
  RedisWrapper_get_def RedisWrapper_set_def RedisWrapper_del_def RedisWrapper_incr_def RedisWrapper_decr_def
  RedisWrapper_lpush_def RedisWrapper_rpush_def RedisWrapper_lpop_def RedisWrapper_rpop_def
  RedisWrapper_llen_def RedisWrapper_lrange_def RedisWrapper_hset_def RedisWrapper_hget_def RedisWrapper_hdel_def
  RedisWrapper_hkeys_def RedisWrapper_sadd_def RedisWrapper_srem_def RedisWrapper_sismember_def RedisWrapper_scard_def
  RedisWrapper_smembers_def

lemma pair_args_length [simp]: "length (pair_args kvs) = 2 * length kvs"
  by (induction kvs rule: pair_args.induct) simp_all

lemma pair_up_args [simp]: "pair_up (pair_args kvs) = kvs"
  by (induction kvs rule: pair_args.induct) simp_all

text \<open>The methods that take the whole vector skip its first argument.\<close>

lemma name_ignored:
  "redis_sadd E cfg now s (x # args) = redis_sadd E cfg now s (''SADD'' # args)"
  "redis_srem E cfg now s (x # args) = redis_srem E cfg now s (''SREM'' # args)"
  "redis_del E cfg s (x # args) = redis_del E cfg s (''del'' # args)"
  by (simp_all add: redis_sadd_def redis_srem_def redis_del_def)

text \<open>What the table and the handlers make of a command.\<close>

lemma dispatch_cmd:
  assumes "spells args c" "cmd_ok cfg db c"
  shows "dispatch env s args = cmd_exec (ops env) (config env) (clock env) s c"
proof -
  obtain name rest where l: "cmd_args c = name # rest" using cmd_args_not_Nil [of c] by (cases "cmd_args c") auto
  obtain x where x: "args = x # rest" "string2Ops x = string2Ops name" using assms(1) l by (rule spells_Cons)
  show ?thesis
  proof (cases c)
    case (DelC ks)
    then show ?thesis using l x assms(2) by (auto simp: command_defs ops_names name_ignored(3) [where x = x] Suc_le_eq)
  next
    case (ListC k c')
    have "stoi (to_string a) = Inr a \<and> stoi (to_string b) = Inr b" if "c' = LRange a b" for a b
      using assms(2) ListC that by (auto intro!: sto_int_to_string)
    then show ?thesis using l x ListC by (cases c') (auto simp: command_defs ops_names)
  next
    case (HashC k c')
    show ?thesis
    proof (cases c')
      case (HSet kvs)
      then have "kvs \<noteq> []" using assms(2) HashC by simp
      then have "2 \<le> 2 * length kvs" "(2 * length kvs + 1) mod 2 = 1" by (cases kvs; simp)+
      then show ?thesis using l x HashC HSet by (auto simp: command_defs ops_names)
    qed (use l x HashC assms(2) in \<open>auto simp: command_defs ops_names\<close>)
  next
    case (SetsC k c')
    have "ms \<noteq> []" if "c' = SAdd ms \<or> c' = SRem ms" for ms using assms(2) SetsC that by auto
    then show ?thesis using l x SetsC
      by (cases c') (auto simp: command_defs ops_names name_ignored(1) [where x = x] name_ignored(2) [where x = x] Suc_le_eq)
  qed (use l x in \<open>auto simp: command_defs ops_names\<close>)
qed

subsection \<open>A connection\<close>

definition outside :: "RedisConfig \<Rightarrow> string set \<Rightarrow> string \<Rightarrow> bool" where
  "outside cfg K x \<longleftrightarrow> (\<forall>k\<in>K. \<not> own_key cfg k x)"

lemma run_commands_keyspace:
  assumes "redis_store (ops env) view can (config env)" "client_keys (config env) K"
    and "store_rep (config env) K db (view s)" "can s (n + run_cost db cs)" "\<Union>(set ` cmd_keys ` set cs) \<subseteq> K"
    and "cmds_ok (config env) db cs" "list_all2 spells reqs cs"
  shows "\<exists>s'. run_commands env s reqs = (fst (keyspace_run db cs), None, s') \<and>
    store_rep (config env) K (snd (keyspace_run db cs)) (view s') \<and> (\<forall>x. outside (config env) K x \<longrightarrow> view s' x = view s x) \<and> can s' n"
  using assms(3-)
proof (induction cs arbitrary: db s reqs)
  case Nil
  then show ?case by auto
next
  case (Cons c cs)
  let ?db = "snd (keyspace_spec db c)"
  obtain args reqs' where reqs: "reqs = args # reqs'" "spells args c" "list_all2 spells reqs' cs"
    using Cons.prems(5) by (auto simp: list_all2_Cons2)
  have can: "can s (n + run_cost ?db cs + cmd_cost db c)" using Cons.prems(2) by (simp add: ac_simps)
  have "keyspace_step (config env) K view can (view s) (cmd_exec (ops env) (config env) (clock env) s c) (keyspace_spec db c)
      (n + run_cost ?db cs)"
    using Cons.prems(3,4) by (intro redis_store.cmd_step [OF assms(1) Cons.prems(1) assms(2) can]) auto
  moreover have d: "dispatch env s args = cmd_exec (ops env) (config env) (clock env) s c"
    using reqs(2) Cons.prems(4) by (auto intro: dispatch_cmd)
  ultimately obtain s1 where s1: "dispatch env s args = (Inr (fst (keyspace_spec db c)), s1)"
    "store_rep (config env) K ?db (view s1)" "\<forall>x. outside (config env) K x \<longrightarrow> view s1 x = view s x" "can s1 (n + run_cost ?db cs)"
    by (cases "cmd_exec (ops env) (config env) (clock env) s c") (auto simp: keyspace_step_def gives_def outside_def)
  obtain s2 where s2: "run_commands env s1 reqs' = (fst (keyspace_run ?db cs), None, s2)"
    "store_rep (config env) K (snd (keyspace_run ?db cs)) (view s2)"
    "\<forall>x. outside (config env) K x \<longrightarrow> view s2 x = view s1 x" "can s2 n"
    using Cons.IH [OF s1(2,4) _ _ reqs(3)] Cons.prems(3,4) by auto
  then show ?case using s1 by (intro exI [of _ s2]) (simp add: reqs split_beta)
qed


text \<open>A session with all four types.\<close>

definition demo_cmds :: "client_cmd list" where
  "demo_cmds = [ListC ''l'' (LPush ''a''), ListC ''l'' (RPush ''b''), ListC ''l'' (LRange 0 (- 1)), SetC ''n'' ''41'', IncrC ''n'',
     GetC ''n'', HashC ''h'' (HSet [(''f'', ''1'')]), HashC ''h'' (HGet ''f''), SetsC ''s'' (SAdd [''y'', ''x'']), SetsC ''s'' SMembers,
     DelC [''l'', ''h'', ''x'']]"

definition demo_requests :: "string list list" where
  "demo_requests = [[''LPush'', ''l'', ''a''], [''RPUSH'', ''l'', ''b''], [''lrange'', ''l'', ''0'', ''-1''], [''SET'', ''n'', ''41''],
     [''incr'', ''n''], [''Get'', ''n''], [''HSET'', ''h'', ''f'', ''1''], [''HGET'', ''h'', ''f''], [''SADD'', ''s'', ''y'', ''x''],
     [''SMEMBERS'', ''s''], [''DEL'', ''l'', ''h'', ''x'']]"

definition demo_replies :: "string list" where
  "demo_replies = [int_reply 1, int_reply 2, array_reply [''a'', ''b''], ok_reply, int_reply 42, bulk_reply ''42'', int_reply 1,
     bulk_reply ''1'', int_reply 2, array_reply [''x'', ''y''], int_reply 2]"

definition demo_keys :: "string set" where
  "demo_keys = {''l'', ''n'', ''h'', ''s'', ''x''}"

lemma demo_client_keys: "client_keys default_config demo_keys"
  by (simp add: client_keys_def demo_keys_def default_config_def get_explire_key_def field_space_def get_set_key_preffix_def parallel_def)

lemmas demo_specs = list_at_def hash_at_def set_at_def number_at_def add_keyspace_def list_value_def hash_value_def set_value_def
  list_slice_def hash_puts_def AList.delete_eq

lemma demo_numbers: "to_string 42 = ''42''" "stoll ''41'' = Inr 41" "to_string 0 = ''0''"
  by code_simp+

lemma demo_run: "fst (keyspace_run (\<lambda>_. None) demo_cmds) = demo_replies"
  by (simp add: demo_cmds_def demo_replies_def demo_numbers demo_specs)

lemma demo_ok: "cmds_ok default_config (\<lambda>_. None) demo_cmds"
  by (simp add: demo_cmds_def demo_numbers demo_specs default_config_def kind_list_def kind_hash_def kind_set_def str_at_def add_ok_def
      del_ok_def rep_def list_rep_def token_def)


end
