(* ===== verification/Config_File.thy ===== *)
theory Config_File
  imports Redis_Base
begin

text \<open>
  The configuration, \<^verbatim>\<open>TomlConfig\<close> of \<^verbatim>\<open>src/config/config.cpp\<close>: the default values, loading from and saving
  to a TOML file, and the singleton of \<^verbatim>\<open>getInstance\<close>. The record extends the Redis settings of
  \<open>Redis_Base\<close>, so the getters of the class are the fields.

  The toml11 library is a parameter, \<open>toml_lib\<close>: walking into a table, checked access, the typed
  accessors (an exception is \<^const>\<open>None\<close>), building a table from assignments to dotted paths, and
  printing and parsing a document. \<open>toml_laws\<close> states what its documentation promises: a table gives
  back what was assigned to it, an access to a key that was never assigned throws, and a printed document
  parses to itself. A file system maps paths to texts; a floating point value is of an arbitrary type \<open>'d\<close>.
\<close>

record 'd TomlConfig = RedisConfig +
  config_file_path :: string
  lsm_tol_mem_size_limit :: int
  lsm_per_mem_size_limit :: int
  lsm_block_size :: int
  lsm_sst_level_ratio :: int
  lsm_block_cache_capacity :: int
  lsm_block_cache_k :: int
  bloom_filter_expected_size :: int
  bloom_filter_expected_error_rate :: 'd
  wisckey_value_threshold :: u64

text \<open>\<open>rate\<close> is the floating point literal 0.1; the path of the file is not touched.\<close>

definition setDefaultValues :: "'d \<Rightarrow> 'd TomlConfig \<Rightarrow> 'd TomlConfig" where
  "setDefaultValues rate c =
     c\<lparr>lsm_tol_mem_size_limit := 67108864, lsm_per_mem_size_limit := 4194304, lsm_block_size := 32768,
       lsm_sst_level_ratio := 4, lsm_block_cache_capacity := 1024, lsm_block_cache_k := 8,
       redis_expire_header := ''REDIS_EXPIRE_'', redis_hash_value_preffix := ''REDIS_HASH_VALUE_'',
       redis_field_prefix := ''REDIS_FIELD_'', redis_field_separator := CHR ''$'',
       redis_list_separator := CHR ''#'', redis_sorted_set_prefix := ''REDIS_SORTED_SET_'',
       redis_sorted_set_score_len := 32, redis_set_prefix := ''REDIS_SET_'',
       bloom_filter_expected_size := 65536, bloom_filter_expected_error_rate := rate,
       wisckey_value_threshold := 0\<rparr>"

definition modify_lsm_tol_mem_size_limit :: "int \<Rightarrow> 'd TomlConfig \<Rightarrow> 'd TomlConfig" where
  "modify_lsm_tol_mem_size_limit one c = c\<lparr>lsm_tol_mem_size_limit := one\<rparr>"

definition modify_lsm_block_size :: "int \<Rightarrow> 'd TomlConfig \<Rightarrow> 'd TomlConfig" where
  "modify_lsm_block_size one c = c\<lparr>lsm_block_size := one\<rparr>"

definition modify_lsm_per_mem_size_limit :: "int \<Rightarrow> 'd TomlConfig \<Rightarrow> 'd TomlConfig" where
  "modify_lsm_per_mem_size_limit one c = c\<lparr>lsm_per_mem_size_limit := one\<rparr>"

subsection \<open>The TOML library\<close>

datatype 'd toml_leaf = Toml_integer int | Toml_string string | Toml_floating 'd

record ('v, 'd, 'f) toml_lib =
  toml_index :: "'v \<Rightarrow> string \<Rightarrow> 'v option"
  toml_at :: "'v \<Rightarrow> string \<Rightarrow> 'v option"
  as_integer :: "'v \<Rightarrow> int option"
  as_string :: "'v \<Rightarrow> string option"
  as_floating :: "'v \<Rightarrow> 'd option"
  toml_table :: "(string list \<times> 'd toml_leaf) list \<Rightarrow> 'v"
  toml_format :: "'v \<Rightarrow> 'f"
  toml_parse :: "'f \<Rightarrow> 'v option"

fun toml_walk :: "('v, 'd, 'f) toml_lib \<Rightarrow> 'v \<Rightarrow> string list \<Rightarrow> 'v option" where
  "toml_walk L v [] = Some v"
| "toml_walk L v (k # ks) = do { v \<leftarrow> toml_index L v k; toml_walk L v ks }"

fun leaf_is :: "('v, 'd, 'f) toml_lib \<Rightarrow> 'v \<Rightarrow> 'd toml_leaf \<Rightarrow> bool" where
  "leaf_is L v (Toml_integer i) \<longleftrightarrow> as_integer L v = Some i"
| "leaf_is L v (Toml_string s) \<longleftrightarrow> as_string L v = Some s"
| "leaf_is L v (Toml_floating d) \<longleftrightarrow> as_floating L v = Some d"

definition int64 :: "int \<Rightarrow> bool" where
  "int64 i \<longleftrightarrow> - (2 ^ 63) \<le> i \<and> i < 2 ^ 63"

definition printable :: "string \<Rightarrow> bool" where
  "printable s \<longleftrightarrow> (\<forall>c\<in>set s. (32 :: nat) \<le> of_char c \<and> (of_char c :: nat) < 127)"

fun leaf_ok :: "'d toml_leaf \<Rightarrow> bool" where
  "leaf_ok (Toml_integer i) \<longleftrightarrow> int64 i"
| "leaf_ok (Toml_string s) \<longleftrightarrow> printable s"
| "leaf_ok (Toml_floating d) \<longleftrightarrow> True"

text \<open>Assignments that do not overwrite one another.\<close>

definition separate :: "string list list \<Rightarrow> bool" where
  "separate ps \<longleftrightarrow> distinct ps \<and> (\<forall>p\<in>set ps. \<forall>q\<in>set ps. prefix p q \<longrightarrow> p = q)"

definition toml_laws :: "('v, 'd, 'f) toml_lib \<Rightarrow> bool" where
  "toml_laws L \<longleftrightarrow>
     (\<forall>ps p k x. separate (map fst ps) \<and> (\<forall>(q, y)\<in>set ps. leaf_ok y) \<and> (p @ [k], x) \<in> set ps \<longrightarrow>
        (\<exists>t v. toml_walk L (toml_table L ps) p = Some t \<and> toml_at L t k = Some v \<and> leaf_is L v x)) \<and>
     (\<forall>ps p k. separate (map fst ps) \<and> (\<forall>q\<in>fst ` set ps. \<not> prefix (p @ [k]) q \<and> \<not> prefix q (p @ [k])) \<longrightarrow>
        do { t \<leftarrow> toml_walk L (toml_table L ps) p; toml_at L t k } = None) \<and>
     (\<forall>v. toml_parse L (toml_format L v) = Some v)"

subsection \<open>Loading\<close>

text \<open>One assignment of \<^verbatim>\<open>loadFromFile\<close>; an exception leaves the configuration as the assignments before made it.\<close>

definition int_entry ::
    "('v, 'd, 'f) toml_lib \<Rightarrow> string \<Rightarrow> (int \<Rightarrow> 'c \<Rightarrow> 'c) \<Rightarrow> 'v \<Rightarrow> 'c \<Rightarrow> 'c option" where
  "int_entry L key upd tbl c = do { v \<leftarrow> toml_at L tbl key; i \<leftarrow> as_integer L v; Some (upd i c) }"

definition string_entry ::
    "('v, 'd, 'f) toml_lib \<Rightarrow> string \<Rightarrow> (string \<Rightarrow> 'c \<Rightarrow> 'c) \<Rightarrow> 'v \<Rightarrow> 'c \<Rightarrow> 'c option" where
  "string_entry L key upd tbl c = do { v \<leftarrow> toml_at L tbl key; s \<leftarrow> as_string L v; Some (upd s c) }"

definition float_entry ::
    "('v, 'd, 'f) toml_lib \<Rightarrow> string \<Rightarrow> ('d \<Rightarrow> 'c \<Rightarrow> 'c) \<Rightarrow> 'v \<Rightarrow> 'c \<Rightarrow> 'c option" where
  "float_entry L key upd tbl c = do { v \<leftarrow> toml_at L tbl key; d \<leftarrow> as_floating L v; Some (upd d c) }"

text \<open>\<^verbatim>\<open>std::string::operator[](0)\<close>: the terminating zero on an empty string.\<close>

definition first_char :: "string \<Rightarrow> char" where
  "first_char s = (case s of [] \<Rightarrow> CHR 0x00 | c # _ \<Rightarrow> c)"

fun load_entries :: "('v \<Rightarrow> 'c \<Rightarrow> 'c option) list \<Rightarrow> 'v \<Rightarrow> 'c \<Rightarrow> bool \<times> 'c" where
  "load_entries [] tbl c = (True, c)"
| "load_entries (e # es) tbl c = (case e tbl c of None \<Rightarrow> (False, c) | Some c \<Rightarrow> load_entries es tbl c)"

fun load_sections ::
    "('v, 'd, 'f) toml_lib \<Rightarrow> 'v \<Rightarrow> (string list \<times> ('v \<Rightarrow> 'c \<Rightarrow> 'c option) list) list \<Rightarrow> 'c \<Rightarrow> bool \<times> 'c" where
  "load_sections L config [] c = (True, c)"
| "load_sections L config ((p, es) # ss) c =
     (case toml_walk L config p of
        None \<Rightarrow> (False, c)
      | Some tbl \<Rightarrow>
          (case load_entries es tbl c of
             (False, c) \<Rightarrow> (False, c)
           | (True, c) \<Rightarrow> load_sections L config ss c))"

definition config_sections ::
    "('v, 'd, 'f) toml_lib \<Rightarrow> (string list \<times> ('v \<Rightarrow> 'd TomlConfig \<Rightarrow> 'd TomlConfig option) list) list" where
  "config_sections L =
     [([''lsm'', ''core''],
       [int_entry L ''LSM_TOL_MEM_SIZE_LIMIT'' (\<lambda>i c. c\<lparr>lsm_tol_mem_size_limit := i\<rparr>),
        int_entry L ''LSM_PER_MEM_SIZE_LIMIT'' (\<lambda>i c. c\<lparr>lsm_per_mem_size_limit := i\<rparr>),
        int_entry L ''LSM_BLOCK_SIZE'' (\<lambda>i c. c\<lparr>lsm_block_size := wrap_int i\<rparr>),
        int_entry L ''LSM_SST_LEVEL_RATIO'' (\<lambda>i c. c\<lparr>lsm_sst_level_ratio := wrap_int i\<rparr>)]),
      ([''lsm'', ''cache''],
       [int_entry L ''LSM_BLOCK_CACHE_CAPACITY'' (\<lambda>i c. c\<lparr>lsm_block_cache_capacity := wrap_int i\<rparr>),
        int_entry L ''LSM_BLOCK_CACHE_K'' (\<lambda>i c. c\<lparr>lsm_block_cache_k := wrap_int i\<rparr>)]),
      ([''redis''],
       [string_entry L ''REDIS_EXPIRE_HEADER'' (\<lambda>s c. c\<lparr>redis_expire_header := s\<rparr>),
        string_entry L ''REDIS_HASH_VALUE_PREFFIX'' (\<lambda>s c. c\<lparr>redis_hash_value_preffix := s\<rparr>),
        string_entry L ''REDIS_FIELD_PREFIX'' (\<lambda>s c. c\<lparr>redis_field_prefix := s\<rparr>),
        string_entry L ''REDIS_FIELD_SEPARATOR'' (\<lambda>s c. c\<lparr>redis_field_separator := first_char s\<rparr>),
        string_entry L ''REDIS_LIST_SEPARATOR'' (\<lambda>s c. c\<lparr>redis_list_separator := first_char s\<rparr>),
        string_entry L ''REDIS_SORTED_SET_PREFIX'' (\<lambda>s c. c\<lparr>redis_sorted_set_prefix := s\<rparr>),
        int_entry L ''REDIS_SORTED_SET_SCORE_LEN'' (\<lambda>i c. c\<lparr>redis_sorted_set_score_len := wrap_int i\<rparr>),
        string_entry L ''REDIS_SET_PREFIX'' (\<lambda>s c. c\<lparr>redis_set_prefix := s\<rparr>)]),
      ([''bloom_filter''],
       [int_entry L ''BLOOM_FILTER_EXPECTED_SIZE'' (\<lambda>i c. c\<lparr>bloom_filter_expected_size := wrap_int i\<rparr>),
        float_entry L ''BLOOM_FILTER_EXPECTED_ERROR_RATE'' (\<lambda>d c. c\<lparr>bloom_filter_expected_error_rate := d\<rparr>)])]"

text \<open>The WiscKey section is optional: its exceptions are caught where it is read.\<close>

definition load_wisckey :: "('v, 'd, 'f) toml_lib \<Rightarrow> 'v \<Rightarrow> 'd TomlConfig \<Rightarrow> 'd TomlConfig" where
  "load_wisckey L config c =
     (case do { tbl \<leftarrow> toml_walk L config [''lsm'', ''wisckey''];
                int_entry L ''WISCKEY_VALUE_THRESHOLD'' (\<lambda>i c. c\<lparr>wisckey_value_threshold := of_int i\<rparr>) tbl c } of
        None \<Rightarrow> c
      | Some c \<Rightarrow> c)"

definition loadFromFile ::
    "('v, 'd, 'f) toml_lib \<Rightarrow> 'd \<Rightarrow> (string \<rightharpoonup> 'f) \<Rightarrow> string \<Rightarrow> 'd TomlConfig \<Rightarrow> bool \<times> 'd TomlConfig" where
  "loadFromFile L rate fs filePath c =
     (let c = setDefaultValues rate c
      in case do { text \<leftarrow> fs filePath; toml_parse L text } of
           None \<Rightarrow> (False, c)
         | Some config \<Rightarrow>
             (case load_sections L config (config_sections L) c of
                (False, c) \<Rightarrow> (False, c)
              | (True, c) \<Rightarrow> (True, load_wisckey L config c)))"

text \<open>The constructor; \<open>c\<close> stands for the uninitialised members.\<close>

definition TomlConfig_new ::
    "('v, 'd, 'f) toml_lib \<Rightarrow> 'd \<Rightarrow> (string \<rightharpoonup> 'f) \<Rightarrow> string \<Rightarrow> 'd TomlConfig \<Rightarrow> 'd TomlConfig" where
  "TomlConfig_new L rate fs filePath c =
     (let c = c\<lparr>config_file_path := filePath\<rparr>
      in if filePath = [] then setDefaultValues rate c else snd (loadFromFile L rate fs filePath c))"

subsection \<open>Saving\<close>

definition config_table :: "'d TomlConfig \<Rightarrow> (string list \<times> 'd toml_leaf) list" where
  "config_table c =
     [([''lsm'', ''core'', ''LSM_TOL_MEM_SIZE_LIMIT''], Toml_integer (lsm_tol_mem_size_limit c)),
      ([''lsm'', ''core'', ''LSM_PER_MEM_SIZE_LIMIT''], Toml_integer (lsm_per_mem_size_limit c)),
      ([''lsm'', ''core'', ''LSM_BLOCK_SIZE''], Toml_integer (lsm_block_size c)),
      ([''lsm'', ''core'', ''LSM_SST_LEVEL_RATIO''], Toml_integer (lsm_sst_level_ratio c)),
      ([''lsm'', ''cache'', ''LSM_BLOCK_CACHE_CAPACITY''], Toml_integer (lsm_block_cache_capacity c)),
      ([''lsm'', ''cache'', ''LSM_BLOCK_CACHE_K''], Toml_integer (lsm_block_cache_k c)),
      ([''redis'', ''REDIS_EXPIRE_HEADER''], Toml_string (redis_expire_header c)),
      ([''redis'', ''REDIS_HASH_VALUE_PREFFIX''], Toml_string (redis_hash_value_preffix c)),
      ([''redis'', ''REDIS_FIELD_PREFIX''], Toml_string (redis_field_prefix c)),
      ([''redis'', ''REDIS_FIELD_SEPARATOR''], Toml_string [redis_field_separator c]),
      ([''redis'', ''REDIS_LIST_SEPARATOR''], Toml_string [redis_list_separator c]),
      ([''redis'', ''REDIS_SORTED_SET_PREFIX''], Toml_string (redis_sorted_set_prefix c)),
      ([''redis'', ''REDIS_SORTED_SET_SCORE_LEN''], Toml_integer (redis_sorted_set_score_len c)),
      ([''redis'', ''REDIS_SET_PREFIX''], Toml_string (redis_set_prefix c)),
      ([''bloom_filter'', ''BLOOM_FILTER_EXPECTED_SIZE''], Toml_integer (bloom_filter_expected_size c)),
      ([''bloom_filter'', ''BLOOM_FILTER_EXPECTED_ERROR_RATE''], Toml_floating (bloom_filter_expected_error_rate c))]"

definition saveToFile ::
    "('v, 'd, 'f) toml_lib \<Rightarrow> (string \<Rightarrow> bool) \<Rightarrow> 'd TomlConfig \<Rightarrow> string \<Rightarrow> (string \<rightharpoonup> 'f) \<Rightarrow> bool \<times> (string \<rightharpoonup> 'f)" where
  "saveToFile L writable c filePath fs =
     (if writable filePath then (True, fs(filePath \<mapsto> toml_format L (toml_table L (config_table c)))) else (False, fs))"

definition TomlConfig_destroy ::
    "('v, 'd, 'f) toml_lib \<Rightarrow> (string \<Rightarrow> bool) \<Rightarrow> 'd TomlConfig \<Rightarrow> (string \<rightharpoonup> 'f) \<Rightarrow> (string \<rightharpoonup> 'f)" where
  "TomlConfig_destroy L writable c fs =
     (if config_file_path c \<noteq> [] \<and> fs (config_file_path c) = None
      then snd (saveToFile L writable c (config_file_path c) fs) else fs)"

text \<open>The static instance is created by the first call.\<close>

definition getInstance ::
    "('v, 'd, 'f) toml_lib \<Rightarrow> 'd \<Rightarrow> (string \<rightharpoonup> 'f) \<Rightarrow> 'd TomlConfig \<Rightarrow> string \<Rightarrow> 'd TomlConfig option \<Rightarrow> 'd TomlConfig" where
  "getInstance L rate fs c config_path inst =
     (case inst of
        Some c \<Rightarrow> c
      | None \<Rightarrow> TomlConfig_new L rate fs (if fs config_path \<noteq> None then config_path else ''config.toml'') c)"


subsection \<open>Correctness\<close>

definition int32 :: "int \<Rightarrow> bool" where
  "int32 i \<longleftrightarrow> - (2 ^ 31) \<le> i \<and> i < 2 ^ 31"

text \<open>The members are in the ranges of their types and the strings can be written in a TOML document.\<close>

definition config_ok :: "'d TomlConfig \<Rightarrow> bool" where
  "config_ok c \<longleftrightarrow>
     int64 (lsm_tol_mem_size_limit c) \<and> int64 (lsm_per_mem_size_limit c) \<and> int32 (lsm_block_size c) \<and>
     int32 (lsm_sst_level_ratio c) \<and> int32 (lsm_block_cache_capacity c) \<and> int32 (lsm_block_cache_k c) \<and>
     int32 (redis_sorted_set_score_len c) \<and> int32 (bloom_filter_expected_size c) \<and>
     printable (redis_expire_header c) \<and> printable (redis_hash_value_preffix c) \<and> printable (redis_field_prefix c) \<and>
     printable [redis_field_separator c] \<and> printable [redis_list_separator c] \<and>
     printable (redis_sorted_set_prefix c) \<and> printable (redis_set_prefix c)"

lemma int32_int64: "int32 i \<Longrightarrow> int64 i"
  by (simp add: int32_def int64_def)

lemma wrap_int32 [simp]: "int32 i \<Longrightarrow> wrap_int i = i"
  by (simp add: int32_def)

lemma config_table_separate: "separate (map fst (config_table c))"
  by (simp add: separate_def config_table_def)

lemma config_table_ok: "config_ok c \<Longrightarrow> (q, y) \<in> set (config_table c) \<Longrightarrow> leaf_ok y"
  by (auto simp: config_table_def config_ok_def int32_int64)

lemma config_leaf:
  assumes "toml_laws L" "config_ok c" "(p @ [k], x) \<in> set (config_table c)"
  shows "\<exists>t v. toml_walk L (toml_table L (config_table c)) p = Some t \<and> toml_at L t k = Some v \<and> leaf_is L v x"
proof -
  have "\<forall>(q, y)\<in>set (config_table c). leaf_ok y" using assms(2) by (auto dest: config_table_ok)
  with assms(1,3) config_table_separate [of c] show ?thesis unfolding toml_laws_def by blast
qed

lemma config_walk:
  assumes "toml_laws L" "config_ok c" "p \<in> (butlast \<circ> fst) ` set (config_table c)"
  shows "\<exists>t. toml_walk L (toml_table L (config_table c)) p = Some t"
proof -
  from assms(3) obtain q x where q: "(q, x) \<in> set (config_table c)" "p = butlast q"
    by (metis comp_apply image_iff prod.collapse)
  then have "q \<noteq> []" by (auto simp: config_table_def)
  with q have "(p @ [last q], x) \<in> set (config_table c)" by simp
  with config_leaf [OF assms(1,2)] show ?thesis by blast
qed

lemma config_at:
  assumes "toml_laws L" "config_ok c" "toml_walk L (toml_table L (config_table c)) p = Some t"
    "(p @ [k], x) \<in> set (config_table c)"
  shows "\<exists>v. toml_at L t k = Some v \<and> leaf_is L v x"
  using config_leaf [OF assms(1,2,4)] assms(3) by (metis option.inject)

lemma config_int_entry:
  assumes "toml_laws L" "config_ok c" "toml_walk L (toml_table L (config_table c)) p = Some t"
    "(p @ [k], Toml_integer i) \<in> set (config_table c)"
  shows "int_entry L k upd t c' = Some (upd i c')"
  using config_at [OF assms] by (auto simp: int_entry_def)

lemma config_string_entry:
  assumes "toml_laws L" "config_ok c" "toml_walk L (toml_table L (config_table c)) p = Some t"
    "(p @ [k], Toml_string s) \<in> set (config_table c)"
  shows "string_entry L k upd t c' = Some (upd s c')"
  using config_at [OF assms] by (auto simp: string_entry_def)

lemma config_float_entry:
  assumes "toml_laws L" "config_ok c" "toml_walk L (toml_table L (config_table c)) p = Some t"
    "(p @ [k], Toml_floating d) \<in> set (config_table c)"
  shows "float_entry L k upd t c' = Some (upd d c')"
  using config_at [OF assms] by (auto simp: float_entry_def)

lemmas config_entries = config_int_entry config_string_entry config_float_entry

text \<open>What is loaded from a saved table: all members but the path and the WiscKey threshold.\<close>

lemma load_config_table:
  assumes laws: "toml_laws L" "config_ok c"
  shows "load_sections L (toml_table L (config_table c)) (config_sections L) c' =
    (True, c\<lparr>config_file_path := config_file_path c', wisckey_value_threshold := wisckey_value_threshold c'\<rparr>)"
proof -
  have sections: "p \<in> {[''lsm'', ''core''], [''lsm'', ''cache''], [''redis''], [''bloom_filter'']} \<Longrightarrow>
      p \<in> (butlast \<circ> fst) ` set (config_table c)" for p
    by (auto simp: config_table_def)
  obtain core where core: "toml_walk L (toml_table L (config_table c)) [''lsm'', ''core''] = Some core"
    using config_walk [OF laws sections, of "[''lsm'', ''core'']"] by (auto simp del: toml_walk.simps)
  obtain cache where cache: "toml_walk L (toml_table L (config_table c)) [''lsm'', ''cache''] = Some cache"
    using config_walk [OF laws sections, of "[''lsm'', ''cache'']"] by (auto simp del: toml_walk.simps)
  obtain redis where redis: "toml_walk L (toml_table L (config_table c)) [''redis''] = Some redis"
    using config_walk [OF laws sections, of "[''redis'']"] by (auto simp del: toml_walk.simps)
  obtain bloom where bloom: "toml_walk L (toml_table L (config_table c)) [''bloom_filter''] = Some bloom"
    using config_walk [OF laws sections, of "[''bloom_filter'']"] by (auto simp del: toml_walk.simps)
  note in_table = config_table_def [THEN arg_cong [where f = set], THEN eqset_imp_iff]
  note entries = core config_entries [OF laws core] cache config_entries [OF laws cache]
    redis config_entries [OF laws redis] bloom config_entries [OF laws bloom]
  show ?thesis
    using laws(2) by (simp add: config_sections_def entries in_table config_ok_def first_char_def del: toml_walk.simps)
qed

text \<open>
  C23: a configuration that was saved is loaded again, member by member, by every TOML library that keeps
  its documented behaviour. The WiscKey threshold is not written, so it comes back as 0.
\<close>

theorem config_save_load:
  assumes "toml_laws L" "config_ok c" "saveToFile L writable c f fs = (True, fs')"
  shows "loadFromFile L rate fs' f c' =
    (True, c\<lparr>config_file_path := config_file_path c', wisckey_value_threshold := 0\<rparr>)"
proof -
  let ?t = "toml_table L (config_table c)"
  have "fs' f = Some (toml_format L ?t)" using assms(3) by (auto simp: saveToFile_def split: if_splits)
  moreover have "toml_parse L (toml_format L ?t) = Some ?t" using assms(1) by (simp add: toml_laws_def)
  moreover have "do { t \<leftarrow> toml_walk L ?t [''lsm'', ''wisckey'']; toml_at L t ''WISCKEY_VALUE_THRESHOLD'' } = None"
  proof -
    have "\<forall>q\<in>fst ` set (config_table c). \<not> prefix ([''lsm'', ''wisckey''] @ [''WISCKEY_VALUE_THRESHOLD'']) q \<and>
        \<not> prefix q ([''lsm'', ''wisckey''] @ [''WISCKEY_VALUE_THRESHOLD''])"
      by (simp add: config_table_def)
    with assms(1) config_table_separate [of c] show ?thesis unfolding toml_laws_def by blast
  qed
  then have "load_wisckey L ?t c'' = c''" for c''
    by (cases "toml_walk L ?t [''lsm'', ''wisckey'']") (simp_all add: load_wisckey_def int_entry_def del: toml_walk.simps)
  ultimately show ?thesis
    by (simp add: loadFromFile_def load_config_table [OF assms(1,2)] setDefaultValues_def)
qed

subsection \<open>A library with the laws\<close>

text \<open>A document as the list of its dotted keys: the text and the value are the same list.\<close>

type_synonym 'd dotted = "(string list \<times> 'd toml_leaf) list"

fun dotted_sub :: "string \<Rightarrow> 'd dotted \<Rightarrow> 'd dotted" where
  "dotted_sub k [] = []"
| "dotted_sub k ((p, x) # v) =
     (case p of [] \<Rightarrow> dotted_sub k v | k' # q \<Rightarrow> if k' = k then (q, x) # dotted_sub k v else dotted_sub k v)"

definition dotted_leaf :: "'d dotted \<Rightarrow> 'd toml_leaf option" where
  "dotted_leaf v = (case v of [([], x)] \<Rightarrow> Some x | _ \<Rightarrow> None)"

definition dotted_lib :: "('d dotted, 'd, 'd dotted) toml_lib" where
  "dotted_lib =
     \<lparr>toml_index = (\<lambda>v k. Some (dotted_sub k v)),
      toml_at = (\<lambda>v k. if dotted_sub k v = [] then None else Some (dotted_sub k v)),
      as_integer = (\<lambda>v. case dotted_leaf v of Some (Toml_integer i) \<Rightarrow> Some i | _ \<Rightarrow> None),
      as_string = (\<lambda>v. case dotted_leaf v of Some (Toml_string s) \<Rightarrow> Some s | _ \<Rightarrow> None),
      as_floating = (\<lambda>v. case dotted_leaf v of Some (Toml_floating d) \<Rightarrow> Some d | _ \<Rightarrow> None),
      toml_table = (\<lambda>ps. ps), toml_format = (\<lambda>v. v), toml_parse = Some\<rparr>"

lemma dotted_sub_set: "(q, x) \<in> set (dotted_sub k v) \<longleftrightarrow> (k # q, x) \<in> set v"
  by (induction k v rule: dotted_sub.induct) (auto split: list.splits)

lemma dotted_sub_distinct: "distinct (map fst v) \<Longrightarrow> distinct (map fst (dotted_sub k v))"
proof (induction k v rule: dotted_sub.induct)
  case (2 k p x v)
  then show ?case by (force simp: dotted_sub_set split: list.splits)
qed simp

lemma dotted_walk: "toml_walk dotted_lib v p = Some (fold dotted_sub p v)"
  by (induction p arbitrary: v) (simp_all add: dotted_lib_def)

lemma dotted_fold_set: "(q, x) \<in> set (fold dotted_sub p v) \<longleftrightarrow> (p @ q, x) \<in> set v"
  by (induction p arbitrary: v) (simp_all add: dotted_sub_set)

lemma dotted_fold_distinct: "distinct (map fst v) \<Longrightarrow> distinct (map fst (fold dotted_sub p v))"
  by (induction p arbitrary: v) (simp_all add: dotted_sub_distinct)

lemma dotted_fold_leaf:
  assumes "separate (map fst v)" "(p, x) \<in> set v"
  shows "fold dotted_sub p v = [([], x)]"
proof -
  let ?w = "fold dotted_sub p v"
  have d: "distinct (map fst v)" using assms(1) by (simp add: separate_def)
  have "q = [] \<and> y = x" if "(q, y) \<in> set ?w" for q y
  proof -
    from that have in_v: "(p @ q, y) \<in> set v" by (simp add: dotted_fold_set)
    moreover have "p = p @ q"
      using assms in_v unfolding separate_def by (metis fst_conv image_eqI image_set prefixI)
    ultimately show ?thesis using d assms(2) by (metis append_self_conv eq_key_imp_eq_value)
  qed
  then have "set ?w \<subseteq> {([], x)}" by auto
  moreover have "([], x) \<in> set ?w" using assms(2) by (simp add: dotted_fold_set)
  moreover have "distinct ?w" using dotted_fold_distinct [OF d, of p] by (simp add: distinct_map)
  ultimately have "set ?w = {([], x)}" "distinct ?w" by auto
  then show ?thesis by (cases ?w; cases "tl ?w") auto
qed

lemma dotted_at: "toml_at dotted_lib (fold dotted_sub p v) k =
    (if fold dotted_sub (p @ [k]) v = [] then None else Some (fold dotted_sub (p @ [k]) v))"
  by (simp add: dotted_lib_def)

lemma dotted_laws: "toml_laws dotted_lib"
proof -
  have "leaf_is dotted_lib [([], x)] x" for x :: "'a toml_leaf"
    by (cases x) (simp_all add: dotted_lib_def dotted_leaf_def)
  moreover have "fold dotted_sub (p @ [k]) v = []"
    if "\<forall>q\<in>fst ` set v. \<not> prefix (p @ [k]) q" for p k and v :: "'a dotted"
  proof -
    have "(q, x) \<notin> set (fold dotted_sub (p @ [k]) v)" for q x
      unfolding dotted_fold_set using that by (metis fst_conv image_eqI prefixI)
    then show ?thesis by (metis list.set_intros(1) neq_Nil_conv surj_pair)
  qed
  moreover have "toml_table dotted_lib v = v" "toml_parse dotted_lib (toml_format dotted_lib v) = Some v"
    for v :: "'a dotted"
    by (simp_all add: dotted_lib_def)
  ultimately show ?thesis
    unfolding toml_laws_def by (auto simp: dotted_walk dotted_at dotted_fold_leaf simp del: fold_append)
qed

text \<open>The default configuration; the error rate is counted in tenths.\<close>

definition sample_config :: "nat TomlConfig" where
  "sample_config = setDefaultValues 1
     \<lparr>redis_expire_header = [], redis_hash_value_preffix = [], redis_field_prefix = [], redis_field_separator = CHR 0x00,
      redis_list_separator = CHR 0x00, redis_sorted_set_prefix = [], redis_sorted_set_score_len = 0, redis_set_prefix = [],
      config_file_path = ''config.toml'', lsm_tol_mem_size_limit = 0, lsm_per_mem_size_limit = 0, lsm_block_size = 0,
      lsm_sst_level_ratio = 0, lsm_block_cache_capacity = 0, lsm_block_cache_k = 0, bloom_filter_expected_size = 0,
      bloom_filter_expected_error_rate = 0, wisckey_value_threshold = 0\<rparr>"

lemma sample_config_ok: "config_ok (sample_config\<lparr>wisckey_value_threshold := 512\<rparr>)"
  by (simp add: config_ok_def sample_config_def setDefaultValues_def int64_def int32_def printable_def)

theorem config_save_load_witness:
  "loadFromFile dotted_lib 1 [''c'' \<mapsto> config_table (sample_config\<lparr>wisckey_value_threshold := 512\<rparr>)] ''c'' sample_config =
    (True, sample_config)"
proof -
  have "saveToFile dotted_lib (\<lambda>f. True) (sample_config\<lparr>wisckey_value_threshold := 512\<rparr>) ''c'' Map.empty =
      (True, [''c'' \<mapsto> config_table (sample_config\<lparr>wisckey_value_threshold := 512\<rparr>)])"
    by (simp add: saveToFile_def dotted_lib_def)
  from config_save_load [OF dotted_laws sample_config_ok this, of 1 sample_config]
  show ?thesis by (simp add: sample_config_def setDefaultValues_def)
qed

text \<open>The defaults are those of \<open>default_config\<close>, and a missing or malformed file gives the defaults.\<close>

lemma setDefaultValues_redis: "RedisConfig.truncate (setDefaultValues rate c) = default_config"
  by (simp add: RedisConfig.truncate_def setDefaultValues_def default_config_def)

lemma loadFromFile_fails:
  "fs f = None \<or> toml_parse L (the (fs f)) = None \<Longrightarrow> loadFromFile L rate fs f c = (False, setDefaultValues rate c)"
  by (cases "fs f") (auto simp: loadFromFile_def)

text \<open>
  A document that lacks a key is reported as a failure, and the members before that key keep the values of
  the document, where the comment in \<^verbatim>\<open>loadFromFile\<close> says that all remain at their defaults.
\<close>

lemma loadFromFile_partial:
  "loadFromFile dotted_lib rate [''c'' \<mapsto> [([''lsm'', ''core'', ''LSM_TOL_MEM_SIZE_LIMIT''], Toml_integer 1)]] ''c'' c =
    (False, setDefaultValues rate c\<lparr>lsm_tol_mem_size_limit := 1\<rparr>)"
  by (simp add: loadFromFile_def config_sections_def int_entry_def dotted_lib_def dotted_leaf_def Let_def)

text \<open>
  A path that cannot be read makes \<^verbatim>\<open>getInstance\<close> load \<^verbatim>\<open>config.toml\<close> of the working directory; its
  message and its comment announce the default configuration.
\<close>

lemma getInstance_fallback:
  "fs f = None \<Longrightarrow> getInstance L rate fs c f None = TomlConfig_new L rate fs ''config.toml'' c"
  by (simp add: getInstance_def)

end
