(* ===== verification/Heap_Iterator.thy ===== *)
theory Heap_Iterator
  imports Lsm_Prelude "HOL-Library.Multiset"
begin

text \<open>
  The merging iterator of \<^verbatim>\<open>src/iterator/iterator.cpp\<close>. The \<^verbatim>\<open>std::priority_queue\<close> over
  \<^verbatim>\<open>std::greater<SearchItem>\<close> is a list in queue order, the top first: \<open>pq_push\<close> inserts before the
  first element that \<^verbatim>\<open>operator>\<close> places after the new one. \<^verbatim>\<open>std::priority_queue\<close> requires
  a strict weak ordering; the theorems about whole iterations state the condition under which
  \<^verbatim>\<open>operator>\<close> is one.
\<close>

record SearchItem =
  si_key :: string
  si_value :: string
  si_tranc_id :: u64
  si_idx :: int
  si_level :: int

definition item_less :: "SearchItem \<Rightarrow> SearchItem \<Rightarrow> bool" where
  "item_less a b =
     (if si_key a \<noteq> si_key b then si_key a < si_key b
      else if si_tranc_id b < si_tranc_id a then True
      else if si_level a < si_level b then True
      else si_idx a < si_idx b)"

definition item_greater :: "SearchItem \<Rightarrow> SearchItem \<Rightarrow> bool" where
  "item_greater a b =
     (if si_key a \<noteq> si_key b then si_key b < si_key a
      else if si_tranc_id a < si_tranc_id b then True
      else if si_level a < si_level b then True
      else si_idx b < si_idx a)"

definition item_eq :: "SearchItem \<Rightarrow> SearchItem \<Rightarrow> bool" where
  "item_eq a b \<longleftrightarrow> si_idx a = si_idx b \<and> si_key a = si_key b"

fun pq_push :: "SearchItem \<Rightarrow> SearchItem list \<Rightarrow> SearchItem list" where
  "pq_push x [] = [x]"
| "pq_push x (y # ys) = (if item_greater y x then x # y # ys else y # pq_push x ys)"

record HeapIterator =
  items :: "SearchItem list"
  max_tranc_id :: u64
  skip_delete :: bool
  keep_all_versions :: bool

definition top_value_legal :: "HeapIterator \<Rightarrow> bool" where
  "top_value_legal it =
     (case items it of
        [] \<Rightarrow> True
      | x # _ \<Rightarrow>
          if max_tranc_id it = 0 then (if skip_delete it then si_value x \<noteq> [] else True)
          else if si_tranc_id x \<le> max_tranc_id it then (if skip_delete it then si_value x \<noteq> [] else True)
          else False)"

definition skip_by_tranc_id :: "HeapIterator \<Rightarrow> HeapIterator" where
  "skip_by_tranc_id it =
     (if max_tranc_id it = 0 then it
      else it\<lparr>items := dropWhile (\<lambda>x. max_tranc_id it < si_tranc_id x) (items it)\<rparr>)"

text \<open>The inner loop that removes deleted elements, with the loop over the versions of the deleted key.\<close>

function skip_deleted :: "bool \<Rightarrow> SearchItem list \<Rightarrow> SearchItem list" where
  "skip_deleted keep [] = []"
| "skip_deleted keep (x # xs) =
     (if si_value x = [] then
        (if \<not> keep then skip_deleted keep (dropWhile (\<lambda>y. si_key y = si_key x) xs)
         else skip_deleted keep xs)
      else x # xs)"
  by pat_completeness auto
termination
  by (relation "measure (\<lambda>(keep, xs). length xs)") (auto simp: le_imp_less_Suc length_dropWhile_le)

lemma skip_deleted_length: "length (skip_deleted keep xs) \<le> length xs"
proof (induction keep xs rule: skip_deleted.induct)
  case (2 keep x xs)
  have "length (dropWhile (\<lambda>y. si_key y = si_key x) xs) \<le> length xs" by (rule length_dropWhile_le)
  with 2 show ?case by auto
qed simp

text \<open>\<^verbatim>\<open>while (!top_value_legal()) { ... }\<close>, shared by the constructor and \<^verbatim>\<open>operator++\<close>.\<close>

function settle :: "HeapIterator \<Rightarrow> HeapIterator" where
  "settle it =
     (if top_value_legal it then it
      else let it' = skip_by_tranc_id it
           in if \<not> skip_delete it' then settle it'
              else settle (it'\<lparr>items := skip_deleted (keep_all_versions it') (items it')\<rparr>))"
  by pat_completeness auto

lemma illegal_shrinks:
  assumes "\<not> top_value_legal it"
  defines "it' \<equiv> skip_by_tranc_id it"
  shows "\<not> skip_delete it' \<Longrightarrow> length (items it') < length (items it)"
    and "skip_delete it' \<Longrightarrow> length (skip_deleted (keep_all_versions it') (items it')) < length (items it)"
proof -
  obtain x xs where x: "items it = x # xs" using assms(1) by (cases "items it") (auto simp: top_value_legal_def)
  have d: "length (dropWhile P zs) \<le> length zs" for P and zs :: "SearchItem list" by (rule length_dropWhile_le)
  have s: "length (skip_deleted k zs) \<le> length zs" for k zs by (rule skip_deleted_length)
  show "\<not> skip_delete it' \<Longrightarrow> length (items it') < length (items it)"
    using assms(1) x d [of "\<lambda>x. max_tranc_id it < si_tranc_id x" xs]
    by (auto simp: it'_def skip_by_tranc_id_def top_value_legal_def split: if_splits)
  show "skip_delete it' \<Longrightarrow> length (skip_deleted (keep_all_versions it') (items it')) < length (items it)"
  proof (cases "max_tranc_id it \<noteq> 0 \<and> max_tranc_id it < si_tranc_id x")
    case True
    then have "length (items it') \<le> length xs"
      using x d by (simp add: it'_def skip_by_tranc_id_def)
    then show ?thesis using s [of "keep_all_versions it'" "items it'"] x by simp
  next
    case False
    then have it: "items it' = x # xs" and v: "skip_delete it' \<Longrightarrow> si_value x = []"
      using x assms(1) by (auto simp: it'_def skip_by_tranc_id_def top_value_legal_def split: if_splits)
    assume "skip_delete it'"
    then show ?thesis
      using v it x s [of "keep_all_versions it'" xs] d [of "\<lambda>y. si_key y = si_key x" xs]
        s [of False "dropWhile (\<lambda>y. si_key y = si_key x) xs"]
      by (cases "keep_all_versions it'") simp_all
  qed
qed

termination settle
  by (relation "measure (\<lambda>it. length (items it))") (auto simp: Let_def illegal_shrinks)

declare settle.simps [simp del]

definition HeapIterator_new :: "SearchItem list \<Rightarrow> u64 \<Rightarrow> bool \<Rightarrow> bool \<Rightarrow> HeapIterator" where
  "HeapIterator_new item_vec max_id skip keep =
     settle \<lparr>items = foldl (\<lambda>q x. pq_push x q) [] item_vec, max_tranc_id = max_id,
             skip_delete = skip, keep_all_versions = keep\<rparr>"

definition HeapIterator_next :: "HeapIterator \<Rightarrow> HeapIterator" where
  "HeapIterator_next it =
     (case items it of
        [] \<Rightarrow> it
      | x # xs \<Rightarrow>
          settle (it\<lparr>items := (if keep_all_versions it then xs
                               else dropWhile (\<lambda>y. si_key y = si_key x) xs)\<rparr>))"

definition HeapIterator_deref :: "HeapIterator \<Rightarrow> (string \<times> string) option" where
  "HeapIterator_deref it = (case items it of [] \<Rightarrow> None | x # _ \<Rightarrow> Some (si_key x, si_value x))"

definition HeapIterator_is_end :: "HeapIterator \<Rightarrow> bool" where
  "HeapIterator_is_end it \<longleftrightarrow> items it = []"

definition HeapIterator_is_valid :: "HeapIterator \<Rightarrow> bool" where
  "HeapIterator_is_valid it \<longleftrightarrow> items it \<noteq> []"

definition HeapIterator_eq :: "HeapIterator \<Rightarrow> HeapIterator \<Rightarrow> bool" where
  "HeapIterator_eq a b =
     (case (items a, items b) of
        ([], []) \<Rightarrow> True
      | (x # _, y # _) \<Rightarrow> si_key x = si_key y \<and> si_value x = si_value y
      | _ \<Rightarrow> False)"

definition HeapIterator_get_tranc_id :: "HeapIterator \<Rightarrow> u64" where
  "HeapIterator_get_tranc_id it =
     (case items it of
        [] \<Rightarrow> max_tranc_id it
      | x # _ \<Rightarrow> if keep_all_versions it then si_tranc_id x else max_tranc_id it)"

lemma settle_length: "length (items (settle it)) \<le> length (items it)"
proof (induction it rule: settle.induct)
  case (1 it)
  show ?case
  proof (cases "top_value_legal it")
    case False
    then show ?thesis
      using "1.IH" illegal_shrinks [OF False] by (subst settle.simps) (fastforce simp: Let_def)
  qed (simp add: settle.simps)
qed

text \<open>A whole iteration: \<^verbatim>\<open>for (; !it.is_end(); ++it) { *it }\<close>.\<close>

function collect :: "HeapIterator \<Rightarrow> (string \<times> string) list" where
  "collect it = (case items it of [] \<Rightarrow> [] | x # _ \<Rightarrow> (si_key x, si_value x) # collect (HeapIterator_next it))"
  by pat_completeness auto
termination
proof (relation "measure (\<lambda>it. length (items it))", simp_all)
  fix it :: HeapIterator and x xs assume it: "items it = x # xs"
  let ?it = "it\<lparr>items := (if keep_all_versions it then xs else dropWhile (\<lambda>y. si_key y = si_key x) xs)\<rparr>"
  have "length (items (settle ?it)) \<le> length xs"
    using settle_length [of ?it] length_dropWhile_le [of "\<lambda>y. si_key y = si_key x" xs] by auto
  then show "length (items (HeapIterator_next it)) < Suc (length xs)"
    using it by (simp add: HeapIterator_next_def)
qed

declare collect.simps [simp del]

subsection \<open>Specification of the merge\<close>

definition visible :: "u64 \<Rightarrow> SearchItem \<Rightarrow> bool" where
  "visible m x \<longleftrightarrow> m = 0 \<or> si_tranc_id x \<le> m"

text \<open>Per key the newest visible version, unless it is a deletion mark.\<close>

function merged :: "u64 \<Rightarrow> SearchItem list \<Rightarrow> (string \<times> string) list" where
  "merged m [] = []"
| "merged m (x # xs) =
     (if \<not> visible m x then merged m xs
      else (if si_value x = [] then [] else [(si_key x, si_value x)]) @
           merged m (dropWhile (\<lambda>y. si_key y = si_key x) xs))"
  by pat_completeness auto
termination
  by (relation "measure (\<lambda>(m, xs). length xs)") (auto simp: le_imp_less_Suc length_dropWhile_le)

lemma merged_skip_invisible:
  "m \<noteq> 0 \<Longrightarrow> merged m (dropWhile (\<lambda>x. m < si_tranc_id x) xs) = merged m xs"
  by (induction xs) (auto simp: visible_def)

lemma merged_skip_deleted:
  assumes "\<forall>x\<in>set xs. si_value x = [] \<longrightarrow> visible m x"
  shows "merged m (skip_deleted False xs) = merged m xs"
  using assms
proof (induction False xs rule: skip_deleted.induct)
  case (2 x xs)
  have "\<forall>y\<in>set (dropWhile (\<lambda>y. si_key y = si_key x) xs). si_value y = [] \<longrightarrow> visible m y"
    using 2(3) by (auto dest: set_dropWhileD)
  with 2 show ?case by auto
qed simp

lemma set_skip_deleted: "set (skip_deleted keep xs) \<subseteq> set xs"
  by (induction keep xs rule: skip_deleted.induct) (auto dest: set_dropWhileD)

lemma settle_merged:
  assumes "skip_delete it" "\<not> keep_all_versions it" "\<forall>x\<in>set (items it). si_value x = [] \<longrightarrow> visible (max_tranc_id it) x"
  shows "merged (max_tranc_id it) (items (settle it)) = merged (max_tranc_id it) (items it) \<and>
    top_value_legal (settle it) \<and> skip_delete (settle it) \<and> \<not> keep_all_versions (settle it) \<and>
    max_tranc_id (settle it) = max_tranc_id it \<and> set (items (settle it)) \<subseteq> set (items it)"
  using assms
proof (induction it rule: settle.induct)
  case (1 it)
  show ?case
  proof (cases "top_value_legal it")
    case False
    let ?m = "max_tranc_id it"
    define xs where "xs = items (skip_by_tranc_id it)"
    have flags: "max_tranc_id (skip_by_tranc_id it) = ?m" "skip_delete (skip_by_tranc_id it)"
      "\<not> keep_all_versions (skip_by_tranc_id it)"
      using "1.prems" by (auto simp: skip_by_tranc_id_def)
    have xs: "set xs \<subseteq> set (items it)" "merged ?m xs = merged ?m (items it)"
      using merged_skip_invisible [of ?m "items it"]
      by (auto simp: xs_def skip_by_tranc_id_def dest: set_dropWhileD)
    have "\<forall>x\<in>set xs. si_value x = [] \<longrightarrow> visible ?m x" using "1.prems"(3) xs(1) by blast
    then have del: "merged ?m (skip_deleted False xs) = merged ?m xs" "set (skip_deleted False xs) \<subseteq> set xs"
      using merged_skip_deleted set_skip_deleted by blast+
    let ?it' = "(skip_by_tranc_id it)\<lparr>items := skip_deleted False xs\<rparr>"
    have step: "settle it = settle ?it'" using False flags by (subst settle.simps) (simp add: Let_def xs_def)
    have "\<forall>x\<in>set (items ?it'). si_value x = [] \<longrightarrow> visible (max_tranc_id ?it') x"
      using "1.prems"(3) xs(1) del(2) flags by auto
    then have "merged (max_tranc_id ?it') (items (settle ?it')) = merged (max_tranc_id ?it') (items ?it') \<and>
      top_value_legal (settle ?it') \<and> skip_delete (settle ?it') \<and> \<not> keep_all_versions (settle ?it') \<and>
      max_tranc_id (settle ?it') = max_tranc_id ?it' \<and> set (items (settle ?it')) \<subseteq> set (items ?it')"
      using "1.IH"(2) [OF False refl] flags by (simp add: xs_def)
    then show ?thesis unfolding step using flags(1) del xs by auto
  qed (use "1.prems" in \<open>simp add: settle.simps\<close>)
qed

lemma collect_merged:
  assumes "skip_delete it" "\<not> keep_all_versions it" "\<forall>x\<in>set (items it). si_value x = [] \<longrightarrow> visible (max_tranc_id it) x"
    and "top_value_legal it"
  shows "collect it = merged (max_tranc_id it) (items it)"
  using assms
proof (induction it rule: collect.induct)
  case (1 it)
  show ?case
  proof (cases "items it")
    case Nil
    then show ?thesis by (simp add: collect.simps)
  next
    case (Cons x xs)
    let ?m = "max_tranc_id it" and ?rest = "dropWhile (\<lambda>y. si_key y = si_key x) xs"
    let ?it = "it\<lparr>items := ?rest\<rparr>"
    have top: "visible ?m x" "si_value x \<noteq> []"
      using "1.prems" Cons by (auto simp: top_value_legal_def visible_def split: if_splits)
    have inv: "\<forall>y\<in>set (items ?it). si_value y = [] \<longrightarrow> visible (max_tranc_id ?it) y"
      using "1.prems"(3) Cons by (auto dest: set_dropWhileD)
    have s: "merged ?m (items (settle ?it)) = merged ?m ?rest" "top_value_legal (settle ?it)"
      "skip_delete (settle ?it)" "\<not> keep_all_versions (settle ?it)" "max_tranc_id (settle ?it) = ?m"
      "set (items (settle ?it)) \<subseteq> set ?rest"
      using settle_merged [OF _ _ inv] "1.prems"(1,2) by simp_all
    have nxt: "HeapIterator_next it = settle ?it" using Cons "1.prems"(2) by (simp add: HeapIterator_next_def)
    have "\<forall>y\<in>set (items (settle ?it)). si_value y = [] \<longrightarrow> visible ?m y" using s(6) inv by auto
    then have "collect (HeapIterator_next it) = merged ?m ?rest"
      using "1.IH" [OF Cons] s by (simp add: nxt)
    then show ?thesis using Cons top by (simp add: collect.simps [of it])
  qed
qed

subsection \<open>Queue order\<close>

definition before_item :: "SearchItem \<Rightarrow> SearchItem \<Rightarrow> bool" where
  "before_item a b \<longleftrightarrow> si_key a < si_key b \<or> si_key a = si_key b \<and> si_tranc_id b < si_tranc_id a"

text \<open>
  The condition under which \<^verbatim>\<open>operator>\<close> orders the versions of a key by transaction: they have
  different transaction ids, and a newer one comes neither from a smaller level nor from a
  larger index.
\<close>

definition consistent_items :: "SearchItem list \<Rightarrow> bool" where
  "consistent_items xs \<longleftrightarrow> distinct xs \<and>
     (\<forall>a\<in>set xs. \<forall>b\<in>set xs. si_key a = si_key b \<longrightarrow> a \<noteq> b \<longrightarrow> si_tranc_id a \<noteq> si_tranc_id b) \<and>
     (\<forall>a\<in>set xs. \<forall>b\<in>set xs. si_key a = si_key b \<longrightarrow> si_tranc_id b < si_tranc_id a \<longrightarrow>
        si_level b \<le> si_level a \<and> si_idx a \<le> si_idx b)"

lemma consistent_greater:
  assumes "consistent_items zs" "a \<in> set zs" "b \<in> set zs" "a \<noteq> b"
  shows "item_greater a b \<longleftrightarrow> before_item b a"
proof (cases "si_key a = si_key b")
  case True
  then have "si_tranc_id a \<noteq> si_tranc_id b" using assms by (auto simp: consistent_items_def)
  moreover have "si_tranc_id b < si_tranc_id a \<Longrightarrow> si_level b \<le> si_level a \<and> si_idx a \<le> si_idx b"
    using assms True by (auto simp: consistent_items_def)
  ultimately show ?thesis using True
    by (cases "si_tranc_id a < si_tranc_id b") (auto simp: item_greater_def before_item_def neq_iff)
qed (auto simp: item_greater_def before_item_def)

lemma set_pq_push [simp]: "set (pq_push x q) = insert x (set q)"
  by (induction q) auto

lemma before_trans: "before_item a b \<Longrightarrow> before_item b c \<Longrightarrow> before_item a c"
  by (auto simp: before_item_def)

lemma before_total: "consistent_items zs \<Longrightarrow> a \<in> set zs \<Longrightarrow> b \<in> set zs \<Longrightarrow> a \<noteq> b \<Longrightarrow> before_item a b \<or> before_item b a"
  by (fastforce simp: before_item_def consistent_items_def)

lemma pq_push_sorted:
  assumes "consistent_items zs" "insert x (set q) \<subseteq> set zs" "x \<notin> set q" "sorted_wrt before_item q"
  shows "sorted_wrt before_item (pq_push x q)"
  using assms(2-)
proof (induction q)
  case (Cons y ys)
  then have xy: "x \<noteq> y" "x \<in> set zs" "y \<in> set zs" by auto
  show ?case
  proof (cases "item_greater y x")
    case True
    then have "before_item x y" using consistent_greater [OF assms(1) xy(3,2)] xy(1) by simp
    then show ?thesis using True Cons.prems by (auto intro: before_trans)
  next
    case False
    then have "before_item y x"
      using consistent_greater [OF assms(1) xy(3,2)] before_total [OF assms(1) xy(2,3)] xy(1) by blast
    then show ?thesis using False Cons by auto
  qed
qed simp

lemma queue_of_items:
  assumes "consistent_items zs" "set xs \<subseteq> set zs" "distinct xs"
  shows "set (foldl (\<lambda>q x. pq_push x q) [] xs) = set xs \<and> sorted_wrt before_item (foldl (\<lambda>q x. pq_push x q) [] xs)"
  using assms(2,3)
proof (induction xs rule: rev_induct)
  case (snoc x xs)
  then show ?case using pq_push_sorted [OF assms(1), of x "foldl (\<lambda>q x. pq_push x q) [] xs"] by auto
qed simp

lemma merged_keys: "(k, v) \<in> set (merged m xs) \<Longrightarrow> \<exists>x\<in>set xs. si_key x = k"
  by (induction m xs rule: merged.induct) (auto split: if_splits dest: set_dropWhileD)

lemma sorted_dropWhile_key:
  assumes "sorted_wrt before_item (x # xs)"
  shows "y \<in> set (dropWhile (\<lambda>y. si_key y = si_key x) xs) \<longleftrightarrow> y \<in> set xs \<and> si_key x < si_key y"
  using assms
proof (induction xs)
  case (Cons z zs)
  show ?case
  proof (cases "si_key z = si_key x")
    case True
    then show ?thesis using Cons by auto
  next
    case False
    then have "si_key x < si_key z" using Cons.prems by (auto simp: before_item_def)
    then show ?thesis using Cons.prems False by (fastforce simp: before_item_def)
  qed
qed simp

lemma sorted_wrt_dropWhile: "sorted_wrt P xs \<Longrightarrow> sorted_wrt P (dropWhile Q xs)"
  by (induction xs) auto

lemma merged_sorted:
  assumes "sorted_wrt before_item xs"
  shows "sorted_wrt (<) (map fst (merged m xs))"
  using assms
proof (induction m xs rule: merged.induct)
  case (2 m x xs)
  let ?r = "dropWhile (\<lambda>y. si_key y = si_key x) xs"
  have r: "sorted_wrt before_item ?r" using 2(3) sorted_wrt_dropWhile [of before_item xs] by simp
  have "si_key x < k" if "(k, v) \<in> set (merged m ?r)" for k v
    using merged_keys [OF that] sorted_dropWhile_key [OF 2(3)] by auto
  then show ?case using 2 r by auto
qed simp

lemma merged_iff:
  assumes "sorted_wrt before_item xs"
  shows "(k, v) \<in> set (merged m xs) \<longleftrightarrow>
    (\<exists>x\<in>set xs. si_key x = k \<and> si_value x = v \<and> v \<noteq> [] \<and> visible m x \<and>
       (\<forall>y\<in>set xs. si_key y = k \<longrightarrow> visible m y \<longrightarrow> si_tranc_id y \<le> si_tranc_id x))"
  using assms
proof (induction m xs rule: merged.induct)
  case (2 m x xs)
  let ?r = "dropWhile (\<lambda>y. si_key y = si_key x) xs"
  have r: "sorted_wrt before_item ?r" using 2(3) sorted_wrt_dropWhile [of before_item xs] by simp
  have rin: "y \<in> set ?r \<longleftrightarrow> y \<in> set xs \<and> si_key x < si_key y" for y by (rule sorted_dropWhile_key [OF 2(3)])
  have later: "before_item x y" if "y \<in> set xs" for y using 2(3) that by simp
  show ?case
  proof (cases "visible m x")
    case False
    then show ?thesis using 2 by auto
  next
    case True
    have IH: "(k, v) \<in> set (merged m ?r) \<longleftrightarrow> (\<exists>x\<in>set ?r. si_key x = k \<and> si_value x = v \<and> v \<noteq> [] \<and> visible m x \<and>
       (\<forall>y\<in>set ?r. si_key y = k \<longrightarrow> visible m y \<longrightarrow> si_tranc_id y \<le> si_tranc_id x))"
      using 2(2) True r by simp
    show ?thesis
    proof (cases "k = si_key x")
      case k: True
      have "(k, v) \<notin> set (merged m ?r)"
      proof
        assume "(k, v) \<in> set (merged m ?r)"
        then obtain y where "y \<in> set ?r" "si_key y = k" using merged_keys [of k v m ?r] by blast
        then show False using rin [of y] k by simp
      qed
      then have lhs: "(k, v) \<in> set (merged m (x # xs)) \<longleftrightarrow> si_value x = v \<and> v \<noteq> []" using True k by auto
      have newer: "si_tranc_id y < si_tranc_id x" if "y \<in> set xs" "si_key y = k" for y
        using later [OF that(1)] that(2) k by (auto simp: before_item_def)
      show ?thesis
      proof
        assume "(k, v) \<in> set (merged m (x # xs))"
        then show "\<exists>z\<in>set (x # xs). si_key z = k \<and> si_value z = v \<and> v \<noteq> [] \<and> visible m z \<and>
            (\<forall>y\<in>set (x # xs). si_key y = k \<longrightarrow> visible m y \<longrightarrow> si_tranc_id y \<le> si_tranc_id z)"
          using lhs True k newer by (intro bexI [of _ x]) (auto intro: less_imp_le)
      next
        assume "\<exists>z\<in>set (x # xs). si_key z = k \<and> si_value z = v \<and> v \<noteq> [] \<and> visible m z \<and>
            (\<forall>y\<in>set (x # xs). si_key y = k \<longrightarrow> visible m y \<longrightarrow> si_tranc_id y \<le> si_tranc_id z)"
        then obtain z where z: "z \<in> set (x # xs)" "si_key z = k" "si_value z = v" "v \<noteq> []"
          "si_tranc_id x \<le> si_tranc_id z" using True k by auto
        then have "z = x" using newer [of z] by auto
        with z lhs show "(k, v) \<in> set (merged m (x # xs))" by simp
      qed
    next
      case k: False
      have "y \<in> set ?r \<longleftrightarrow> y \<in> set xs" if "si_key y = k" for y
        using rin [of y] later [of y] k that by (auto simp: before_item_def)
      then show ?thesis using True k IH by auto
    qed
  qed
qed simp

subsection \<open>Properties\<close>



text \<open>
  The restriction to visible deletion marks is needed. With a deletion mark that the transaction
  may not see, the loop over deleted elements drops the older version the transaction should
  see, and the key is missing from the iteration.
\<close>

theorem heap_iterator_drops_visible_version:
  "collect (HeapIterator_new
     [\<lparr>si_key = ''a'', si_value = [], si_tranc_id = 3, si_idx = 0, si_level = 0\<rparr>,
      \<lparr>si_key = ''b'', si_value = [], si_tranc_id = 9, si_idx = 0, si_level = 0\<rparr>,
      \<lparr>si_key = ''b'', si_value = ''old'', si_tranc_id = 1, si_idx = 1, si_level = 0\<rparr>] 5 True False) = [] \<and>
   merged 5
     [\<lparr>si_key = ''a'', si_value = [], si_tranc_id = 3, si_idx = 0, si_level = 0\<rparr>,
      \<lparr>si_key = ''b'', si_value = [], si_tranc_id = 9, si_idx = 0, si_level = 0\<rparr>,
      \<lparr>si_key = ''b'', si_value = ''old'', si_tranc_id = 1, si_idx = 1, si_level = 0\<rparr>] = [(''b'', ''old'')]"
  by code_simp

text \<open>
  \<^verbatim>\<open>operator>\<close> is not a strict ordering: a newer version from a smaller level and an older one from
  a larger level are each greater than the other, so the order of the queue is undefined
  when levels are merged.
\<close>

theorem search_item_order_not_asymmetric:
  assumes "si_key a = si_key b" "si_tranc_id b < si_tranc_id a" "si_level a < si_level b"
  shows "item_greater a b \<and> item_greater b a"
  using assms by (auto simp: item_greater_def)

lemma search_item_order_not_asymmetric_witness:
  "item_greater \<lparr>si_key = ''k'', si_value = ''new'', si_tranc_id = 2, si_idx = 0, si_level = 0\<rparr>
                \<lparr>si_key = ''k'', si_value = ''old'', si_tranc_id = 1, si_idx = 0, si_level = 1\<rparr>"
  using search_item_order_not_asymmetric [of
      "\<lparr>si_key = ''k'', si_value = ''new'', si_tranc_id = 2, si_idx = 0, si_level = 0\<rparr>"
      "\<lparr>si_key = ''k'', si_value = ''old'', si_tranc_id = 1, si_idx = 0, si_level = 1\<rparr>"] by simp

end
