(* ===== verification/Base_Iterator.thy ===== *)
theory Base_Iterator
  imports Heap_Iterator
begin

text \<open>
  The iterator interface \<^verbatim>\<open>BaseIterator\<close> of \<^verbatim>\<open>src/include/iterator/iterator.h\<close>: the virtual functions an
  iterator over key-value pairs overrides, as a record of operations on its state. The contract
  \<open>base_iterator\<close> says that an iterator stands for the entries it still has to deliver; loops
  over an iterator are proved once against the contract. The merging iterator of
  \<open>Heap_Iterator\<close> interprets it.
\<close>

text \<open>
  \<open>it_deref\<close> and \<open>it_next\<close> are \<^const>\<open>None\<close> where the C++ operator is undefined or throws.
\<close>

record 'i BaseIterator =
  it_is_end :: "'i \<Rightarrow> bool"
  it_is_valid :: "'i \<Rightarrow> bool"
  it_deref :: "'i \<Rightarrow> (string \<times> string) option"
  it_next :: "'i \<Rightarrow> 'i option"
  it_tranc_id :: "'i \<Rightarrow> u64"

type_synonym iter_entry = "(string \<times> string) \<times> u64"

abbreviation ientry_key :: "iter_entry \<Rightarrow> string" where
  "ientry_key e \<equiv> fst (fst e)"

abbreviation drop_key :: "string \<Rightarrow> iter_entry list \<Rightarrow> iter_entry list" where
  "drop_key k \<equiv> dropWhile (\<lambda>e. ientry_key e = k)"

text \<open>\<^verbatim>\<open>for (; !it.is_end(); ++it)\<close>, with the pair and the transaction id seen in each round.\<close>

partial_function (option) iterate :: "('i, 'z) BaseIterator_scheme \<Rightarrow> 'i \<Rightarrow> iter_entry list option" where
  "iterate I i =
     (if it_is_end I i then Some []
      else do { kv \<leftarrow> it_deref I i;
                j \<leftarrow> it_next I i;
                es \<leftarrow> iterate I j;
                Some ((kv, it_tranc_id I i) # es) })"

text \<open>
  The contract. \<open>rest i\<close> is what the iterator \<open>i\<close> still delivers. \<open>limit\<close> is the largest
  transaction id its reader may see, 0 for no limit: no entry above it is ever presented.
\<close>

locale base_iterator =
  fixes I :: "'i BaseIterator"
    and good :: "'i \<Rightarrow> bool"
    and rest :: "'i \<Rightarrow> iter_entry list"
    and limit :: u64
  assumes is_end [simp]: "good i \<Longrightarrow> it_is_end I i \<longleftrightarrow> rest i = []"
    and is_valid [simp]: "good i \<Longrightarrow> it_is_valid I i \<longleftrightarrow> rest i \<noteq> []"
    and deref: "good i \<Longrightarrow> rest i = e # es \<Longrightarrow> it_deref I i = Some (fst e)"
    and tranc: "good i \<Longrightarrow> rest i = e # es \<Longrightarrow> it_tranc_id I i = snd e"
    and advance: "good i \<Longrightarrow> rest i = e # es \<Longrightarrow> \<exists>j. it_next I i = Some j \<and> good j \<and> rest j = es"
    and visible: "good i \<Longrightarrow> limit \<noteq> 0 \<Longrightarrow> it_tranc_id I i \<le> limit"
begin

lemma iterate_rest: "good i \<Longrightarrow> iterate I i = Some (rest i)"
proof (induction "rest i" arbitrary: i)
  case Nil
  then show ?case by (subst iterate.simps) simp
next
  case (Cons e es)
  then obtain j where "it_next I i = Some j" "good j" "rest j = es" using advance [of i e es] by auto
  with Cons deref [of i e es] tranc [of i e es] show ?case
    by (subst iterate.simps) (simp add: Cons.hyps(2) [symmetric])
qed

end

subsection \<open>The heap iterator\<close>

definition heap_ops :: "HeapIterator BaseIterator" where
  "heap_ops = \<lparr>it_is_end = HeapIterator_is_end, it_is_valid = HeapIterator_is_valid,
     it_deref = HeapIterator_deref, it_next = (\<lambda>it. Some (HeapIterator_next it)),
     it_tranc_id = HeapIterator_get_tranc_id\<rparr>"

text \<open>
  A heap iterator as the queries build it: one version per key, deletion marks skipped, and every
  deletion mark visible (see the property of \<open>Heap_Iterator\<close> for why this is needed).
\<close>

definition heap_good :: "u64 \<Rightarrow> HeapIterator \<Rightarrow> bool" where
  "heap_good m it \<longleftrightarrow> max_tranc_id it = m \<and> skip_delete it \<and> \<not> keep_all_versions it \<and> top_value_legal it \<and>
     (\<forall>x\<in>set (items it). si_value x = [] \<longrightarrow> visible m x)"

definition heap_rest :: "HeapIterator \<Rightarrow> iter_entry list" where
  "heap_rest it = map (\<lambda>kv. (kv, max_tranc_id it)) (merged (max_tranc_id it) (items it))"

lemma heap_rest_cases:
  assumes "heap_good m it"
  shows "items it = [] \<and> heap_rest it = [] \<or>
    (\<exists>x xs. items it = x # xs \<and> heap_good m (HeapIterator_next it) \<and>
      heap_rest it = ((si_key x, si_value x), m) # heap_rest (HeapIterator_next it))"
proof (cases "items it")
  case (Cons x xs)
  let ?r = "dropWhile (\<lambda>y. si_key y = si_key x) xs"
  let ?it = "it\<lparr>items := ?r\<rparr>"
  have top: "visible m x" "si_value x \<noteq> []"
    using assms Cons by (auto simp: heap_good_def top_value_legal_def visible_def split: if_splits)
  have inv: "\<forall>y\<in>set (items ?it). si_value y = [] \<longrightarrow> visible (max_tranc_id ?it) y"
    using assms Cons by (auto simp: heap_good_def dest: set_dropWhileD)
  have nxt: "HeapIterator_next it = settle ?it" using Cons assms by (simp add: HeapIterator_next_def heap_good_def)
  have s: "merged m (items (settle ?it)) = merged m ?r" "top_value_legal (settle ?it)" "skip_delete (settle ?it)"
    "\<not> keep_all_versions (settle ?it)" "max_tranc_id (settle ?it) = m" "set (items (settle ?it)) \<subseteq> set ?r"
    using settle_merged [OF _ _ inv] assms by (simp_all add: heap_good_def)
  have "heap_good m (settle ?it)" using s inv assms by (auto simp: heap_good_def)
  then show ?thesis using Cons top s assms nxt by (auto simp: heap_rest_def heap_good_def)
qed (simp add: heap_rest_def)

interpretation heap: base_iterator heap_ops "heap_good m" heap_rest m for m
proof unfold_locales
  fix i assume g: "heap_good m i"
  note c = heap_rest_cases [OF g]
  show "it_is_end heap_ops i \<longleftrightarrow> heap_rest i = []" "it_is_valid heap_ops i \<longleftrightarrow> heap_rest i \<noteq> []"
    using c by (auto simp: heap_ops_def HeapIterator_is_end_def HeapIterator_is_valid_def)
  show "it_tranc_id heap_ops i \<le> m" using g
    by (auto simp: heap_ops_def HeapIterator_get_tranc_id_def heap_good_def split: list.splits)
  fix e es assume r: "heap_rest i = e # es"
  show "it_deref heap_ops i = Some (fst e)" using c r by (auto simp: heap_ops_def HeapIterator_deref_def)
  show "it_tranc_id heap_ops i = snd e" using c r g
    by (auto simp: heap_ops_def HeapIterator_get_tranc_id_def heap_good_def)
  show "\<exists>j. it_next heap_ops i = Some j \<and> heap_good m j \<and> heap_rest j = es"
    using c r by (auto simp: heap_ops_def)
qed

lemma heap_new_good:
  assumes "\<forall>x\<in>set xs. si_value x = [] \<longrightarrow> visible m x"
  shows "heap_good m (HeapIterator_new xs m True False)"
    and "heap_rest (HeapIterator_new xs m True False) = map (\<lambda>kv. (kv, m)) (collect (HeapIterator_new xs m True False))"
proof -
  let ?q = "foldl (\<lambda>q x. pq_push x q) [] xs"
  let ?it = "\<lparr>items = ?q, max_tranc_id = m, skip_delete = True, keep_all_versions = False\<rparr>"
  have "set (foldl (\<lambda>q x. pq_push x q) q xs) = set q \<union> set xs" for q by (induction xs arbitrary: q) auto
  then have "set ?q = set xs" by simp
  then have s: "top_value_legal (settle ?it)" "skip_delete (settle ?it)"
    "\<not> keep_all_versions (settle ?it)" "max_tranc_id (settle ?it) = m" "set (items (settle ?it)) \<subseteq> set xs"
    using settle_merged [of ?it] assms by auto
  have v: "\<forall>x\<in>set (items (settle ?it)). si_value x = [] \<longrightarrow> visible m x" using s(5) assms by blast
  show "heap_good m (HeapIterator_new xs m True False)" using s v by (simp add: heap_good_def HeapIterator_new_def)
  show "heap_rest (HeapIterator_new xs m True False) =
      map (\<lambda>kv. (kv, m)) (collect (HeapIterator_new xs m True False))"
    using collect_merged [of "settle ?it"] s v by (simp add: heap_rest_def HeapIterator_new_def)
qed

end
