(* ===== verification/Two_Merge.thy ===== *)
theory Two_Merge
  imports Base_Iterator "HOL-Library.Multiset"
begin

text \<open>
  The two-way merging iterator of \<^verbatim>\<open>src/lsm/two_merge_iterator.cpp\<close> over two iterators of any kind, of
  which the first has priority. The two \<^verbatim>\<open>std::shared_ptr\<close> members are options, \<^const>\<open>None\<close> for a
  null pointer; an operation that dereferences a null pointer is \<^const>\<open>None\<close>, as is one whose loop
  does not return. \<^verbatim>\<open>operator->\<close> and \<^verbatim>\<open>operator==\<close> are in \<open>Iter_Compare\<close>.
\<close>

record ('a, 'b) TwoMergeIterator =
  it_a :: "'a option"
  it_b :: "'b option"
  choose_a :: bool
  tm_max_tranc_id :: u64
  tm_keep_all_versions :: bool

definition TwoMergeIterator_end :: "('a, 'b) TwoMergeIterator" where
  "TwoMergeIterator_end =
     \<lparr>it_a = None, it_b = None, choose_a = False, tm_max_tranc_id = 0, tm_keep_all_versions = False\<rparr>"

definition choose_it_a ::
    "'a BaseIterator \<Rightarrow> 'b BaseIterator \<Rightarrow> ('a, 'b) TwoMergeIterator \<Rightarrow> bool option" where
  "choose_it_a A B m =
     do { a \<leftarrow> it_a m;
          if it_is_end A a then Some False
          else do {
            b \<leftarrow> it_b m;
            if it_is_end B b then Some True
            else do {
              (key_a, _) \<leftarrow> it_deref A a;
              (key_b, _) \<leftarrow> it_deref B b;
              if key_a \<noteq> key_b then Some (key_a < key_b)
              else if tm_keep_all_versions m then Some (it_tranc_id B b < it_tranc_id A a)
              else Some True } } }"

definition skip_it_b ::
    "'a BaseIterator \<Rightarrow> 'b BaseIterator \<Rightarrow> ('a, 'b) TwoMergeIterator \<Rightarrow> ('a, 'b) TwoMergeIterator option" where
  "skip_it_b A B m =
     (if tm_keep_all_versions m then Some m
      else do {
        a \<leftarrow> it_a m;
        if it_is_end A a then Some m
        else do {
          b \<leftarrow> it_b m;
          if it_is_end B b then Some m
          else do {
            (key_a, _) \<leftarrow> it_deref A a;
            (key_b, _) \<leftarrow> it_deref B b;
            if key_a = key_b then do { b \<leftarrow> it_next B b; Some (m\<lparr>it_b := Some b\<rparr>) }
            else Some m } } })"

text \<open>\<^verbatim>\<open>while (it->get_tranc_id() > max_tranc_id_) ++(*it);\<close>\<close>

partial_function (option) skip_invisible :: "'i BaseIterator \<Rightarrow> u64 \<Rightarrow> 'i \<Rightarrow> 'i option" where
  "skip_invisible I m i =
     (if m < it_tranc_id I i then do { j \<leftarrow> it_next I i; skip_invisible I m j } else Some i)"

definition tm_skip_by_tranc_id ::
    "'a BaseIterator \<Rightarrow> 'b BaseIterator \<Rightarrow> ('a, 'b) TwoMergeIterator \<Rightarrow> ('a, 'b) TwoMergeIterator option" where
  "tm_skip_by_tranc_id A B m =
     (if tm_max_tranc_id m = 0 then Some m
      else do { a \<leftarrow> it_a m;
                a \<leftarrow> skip_invisible A (tm_max_tranc_id m) a;
                b \<leftarrow> it_b m;
                b \<leftarrow> skip_invisible B (tm_max_tranc_id m) b;
                Some (m\<lparr>it_a := Some a, it_b := Some b\<rparr>) })"

text \<open>The common end of the constructor and of \<^verbatim>\<open>operator++\<close>.\<close>

definition tm_settle ::
    "'a BaseIterator \<Rightarrow> 'b BaseIterator \<Rightarrow> ('a, 'b) TwoMergeIterator \<Rightarrow> ('a, 'b) TwoMergeIterator option" where
  "tm_settle A B m =
     do { m \<leftarrow> tm_skip_by_tranc_id A B m;
          m \<leftarrow> skip_it_b A B m;
          c \<leftarrow> choose_it_a A B m;
          Some (m\<lparr>choose_a := c\<rparr>) }"

definition TwoMergeIterator_new ::
    "'a BaseIterator \<Rightarrow> 'b BaseIterator \<Rightarrow> 'a \<Rightarrow> 'b \<Rightarrow> u64 \<Rightarrow> bool \<Rightarrow> ('a, 'b) TwoMergeIterator option" where
  "TwoMergeIterator_new A B a b max_id keep =
     tm_settle A B \<lparr>it_a = Some a, it_b = Some b, choose_a = False, tm_max_tranc_id = max_id,
                    tm_keep_all_versions = keep\<rparr>"

definition TwoMergeIterator_next ::
    "'a BaseIterator \<Rightarrow> 'b BaseIterator \<Rightarrow> ('a, 'b) TwoMergeIterator \<Rightarrow> ('a, 'b) TwoMergeIterator option" where
  "TwoMergeIterator_next A B m =
     do { m \<leftarrow> (if choose_a m then do { a \<leftarrow> it_a m; a \<leftarrow> it_next A a; Some (m\<lparr>it_a := Some a\<rparr>) }
                else do { b \<leftarrow> it_b m; b \<leftarrow> it_next B b; Some (m\<lparr>it_b := Some b\<rparr>) });
          tm_settle A B m }"

definition TwoMergeIterator_deref ::
    "'a BaseIterator \<Rightarrow> 'b BaseIterator \<Rightarrow> ('a, 'b) TwoMergeIterator \<Rightarrow> (string \<times> string) option" where
  "TwoMergeIterator_deref A B m =
     (if choose_a m then do { a \<leftarrow> it_a m; it_deref A a } else do { b \<leftarrow> it_b m; it_deref B b })"

definition TwoMergeIterator_get_tranc_id ::
    "'a BaseIterator \<Rightarrow> 'b BaseIterator \<Rightarrow> ('a, 'b) TwoMergeIterator \<Rightarrow> u64" where
  "TwoMergeIterator_get_tranc_id A B m =
     (if tm_keep_all_versions m then
        (case (choose_a m, it_a m, it_b m) of
           (True, Some a, _) \<Rightarrow> if \<not> it_is_end A a then it_tranc_id A a else tm_max_tranc_id m
         | (False, _, Some b) \<Rightarrow> if \<not> it_is_end B b then it_tranc_id B b else tm_max_tranc_id m
         | _ \<Rightarrow> tm_max_tranc_id m)
      else tm_max_tranc_id m)"

definition TwoMergeIterator_is_end ::
    "'a BaseIterator \<Rightarrow> 'b BaseIterator \<Rightarrow> ('a, 'b) TwoMergeIterator \<Rightarrow> bool" where
  "TwoMergeIterator_is_end A B m =
     (case (it_a m, it_b m) of
        (None, None) \<Rightarrow> True
      | (None, Some b) \<Rightarrow> it_is_end B b
      | (Some a, None) \<Rightarrow> it_is_end A a
      | (Some a, Some b) \<Rightarrow> it_is_end A a \<and> it_is_end B b)"

definition TwoMergeIterator_is_valid ::
    "'a BaseIterator \<Rightarrow> 'b BaseIterator \<Rightarrow> ('a, 'b) TwoMergeIterator \<Rightarrow> bool" where
  "TwoMergeIterator_is_valid A B m =
     (case (it_a m, it_b m) of
        (None, None) \<Rightarrow> False
      | (None, Some b) \<Rightarrow> it_is_valid B b
      | (Some a, None) \<Rightarrow> it_is_valid A a
      | (Some a, Some b) \<Rightarrow> it_is_valid A a \<or> it_is_valid B b)"

text \<open>The overrides of \<^verbatim>\<open>TwoMergeIterator\<close>.\<close>

definition two_merge_ops :: "'a BaseIterator \<Rightarrow> 'b BaseIterator \<Rightarrow> ('a, 'b) TwoMergeIterator BaseIterator" where
  "two_merge_ops A B =
     \<lparr>it_is_end = TwoMergeIterator_is_end A B, it_is_valid = TwoMergeIterator_is_valid A B,
      it_deref = TwoMergeIterator_deref A B, it_next = TwoMergeIterator_next A B,
      it_tranc_id = TwoMergeIterator_get_tranc_id A B\<rparr>"

subsection \<open>Specification of the merge\<close>

text \<open>
  The entries delivered from two sources. With all versions kept, versions of a key come in
  descending order of their transaction ids; otherwise an entry of the second source is dropped
  when the first has its key.
\<close>

fun merge2 :: "bool \<Rightarrow> iter_entry list \<Rightarrow> iter_entry list \<Rightarrow> iter_entry list" where
  "merge2 keep [] bs = bs"
| "merge2 keep as [] = as"
| "merge2 keep (a # as) (b # bs) =
     (if ientry_key a < ientry_key b then a # merge2 keep as (b # bs)
      else if ientry_key b < ientry_key a then b # merge2 keep (a # as) bs
      else if \<not> keep then merge2 keep (a # as) bs
      else if snd b < snd a then a # merge2 keep as (b # bs)
      else b # merge2 keep (a # as) bs)"

lemma merge2_Nil2 [simp]: "merge2 keep as [] = as"
  by (cases as) auto

abbreviation keys_sorted :: "iter_entry list \<Rightarrow> bool" where
  "keys_sorted es \<equiv> sorted_wrt (<) (map ientry_key es)"

definition version_before :: "iter_entry \<Rightarrow> iter_entry \<Rightarrow> bool" where
  "version_before a b \<longleftrightarrow> ientry_key a < ientry_key b \<or> ientry_key a = ientry_key b \<and> snd b \<le> snd a"

lemma set_merge2: "set (merge2 keep as bs) \<subseteq> set as \<union> set bs"
proof (induction as arbitrary: bs)
  case outer: (Cons a as)
  show ?case
  proof (induction bs)
    case (Cons b bs)
    then show ?case using outer.IH [of "b # bs"] by (cases keep) (simp_all, blast+)
  qed simp
qed simp

lemma merge2_mset: "mset (merge2 True as bs) = mset as + mset bs"
  by (induction True as bs rule: merge2.induct) (auto simp: ac_simps)

lemma merge2_sorted_wrt:
  assumes "transp R"
    and "\<And>a b. ientry_key a < ientry_key b \<Longrightarrow> R a b"
    and "\<And>a b. keep \<Longrightarrow> ientry_key a = ientry_key b \<Longrightarrow> snd b < snd a \<Longrightarrow> R a b"
    and "\<And>a b. keep \<Longrightarrow> ientry_key a = ientry_key b \<Longrightarrow> \<not> snd b < snd a \<Longrightarrow> R b a"
    and "sorted_wrt R as" "sorted_wrt R bs"
  shows "sorted_wrt R (merge2 keep as bs)"
  using assms(5,6)
proof (induction as arbitrary: bs)
  case outer: (Cons a as)
  show ?case using outer.prems(2)
  proof (induction bs)
    case (Cons b bs)
    have bs: "sorted_wrt R bs" using Cons.prems by simp
    have ta: "\<forall>x\<in>set (b # bs). R a x" if "R a b"
      using Cons.prems that transpD [OF assms(1) that] by auto
    have tb: "\<forall>x\<in>set (a # as). R b x" if "R b a"
      using outer.prems(1) that transpD [OF assms(1) that] by auto
    have head: "sorted_wrt R (a # merge2 keep as (b # bs))" if "R a b"
    proof -
      have "\<forall>x\<in>set (merge2 keep as (b # bs)). R a x"
        using set_merge2 [of keep as "b # bs"] outer.prems(1) ta [OF that] by auto
      then show ?thesis using outer.IH [OF _ Cons.prems] outer.prems(1) by simp
    qed
    have head': "sorted_wrt R (b # merge2 keep (a # as) bs)" if "R b a"
    proof -
      have "\<forall>x\<in>set (merge2 keep (a # as) bs). R b x"
        using set_merge2 [of keep "a # as" bs] Cons.prems tb [OF that] by auto
      then show ?thesis using Cons.IH Cons.prems by simp
    qed
    consider "ientry_key a < ientry_key b" | "ientry_key b < ientry_key a" | "ientry_key a = ientry_key b" by fastforce
    then show ?case
    proof cases
      case 3
      then show ?thesis
        using head head' assms(3,4) [of a b] Cons.IH [OF bs] by (cases keep) (simp_all del: sorted_wrt.simps(2))
    qed (use head head' assms(2) in \<open>simp_all del: sorted_wrt.simps(2)\<close>)
  qed (use outer.prems in simp)
qed simp

lemma merge2_keys_sorted: "keys_sorted as \<Longrightarrow> keys_sorted bs \<Longrightarrow> keys_sorted (merge2 False as bs)"
  unfolding sorted_wrt_map by (rule merge2_sorted_wrt) (auto simp: transp_def)

lemma merge2_versions_sorted:
  "sorted_wrt version_before as \<Longrightarrow> sorted_wrt version_before bs \<Longrightarrow> sorted_wrt version_before (merge2 True as bs)"
  by (rule merge2_sorted_wrt) (auto simp: transp_def version_before_def)

lemma merge2_lookup:
  assumes "keys_sorted as" "keys_sorted bs"
  shows "map_of (map fst (merge2 False as bs)) = map_of (map fst bs) ++ map_of (map fst as)"
  using assms
proof (induction as arbitrary: bs)
  case outer: (Cons a as)
  obtain ka va where a: "fst a = (ka, va)" by fastforce
  show ?case using outer.prems(2)
  proof (induction bs)
    case (Cons b bs)
    obtain kb vb where b: "fst b = (kb, vb)" by fastforce
    have bs: "keys_sorted bs" and as: "keys_sorted as" using Cons.prems outer.prems by simp_all
    consider "ka < kb" | "kb < ka" | "ka = kb" by fastforce
    then show ?case
    proof cases
      case 1
      then show ?thesis using outer.IH [OF as Cons.prems] a b by (auto simp: fun_eq_iff map_add_def)
    next
      case 2
      then have "map_of (map fst as) kb = None" "\<not> ka < kb" "kb \<noteq> ka"
        using outer.prems(1) a by (force simp: map_of_eq_None_iff)+
      then show ?thesis using Cons.IH [OF bs] 2 a b by (simp add: fun_eq_iff map_add_def)
    next
      case 3
      then show ?thesis using Cons.IH [OF bs] a b by (simp add: fun_eq_iff map_add_def)
    qed
  qed simp
qed simp

subsection \<open>Merging two iterators\<close>

text \<open>
  The order each source needs: by key, with one version per key, or with all versions kept the
  newer ones first. Without all versions the merged iterator reports its own limit as transaction id.
\<close>

definition ordered :: "bool \<Rightarrow> iter_entry list \<Rightarrow> bool" where
  "ordered keep es \<longleftrightarrow> (if keep then sorted_wrt version_before es else keys_sorted es)"

definition reported :: "bool \<Rightarrow> u64 \<Rightarrow> iter_entry \<Rightarrow> iter_entry" where
  "reported keep lim e = (if keep then e else (fst e, lim))"

lemma ordered_Cons: "ordered keep (e # es) \<Longrightarrow> ordered keep es"
  by (auto simp: ordered_def split: if_splits)

definition heads_differ :: "iter_entry list \<Rightarrow> iter_entry list \<Rightarrow> bool" where
  "heads_differ as bs \<longleftrightarrow> (case (as, bs) of (a # _, b # _) \<Rightarrow> ientry_key a \<noteq> ientry_key b | _ \<Rightarrow> True)"

definition takes_first :: "bool \<Rightarrow> iter_entry list \<Rightarrow> iter_entry list \<Rightarrow> bool" where
  "takes_first keep as bs \<longleftrightarrow>
     (case (as, bs) of
        ([], _) \<Rightarrow> False
      | (_, []) \<Rightarrow> True
      | (a # _, b # _) \<Rightarrow> ientry_key a < ientry_key b \<or> ientry_key a = ientry_key b \<and> keep \<and> snd b < snd a)"

lemma merge2_step:
  assumes "\<not> keep \<longrightarrow> heads_differ as bs"
  shows "merge2 keep as bs =
    (if takes_first keep as bs then hd as # merge2 keep (tl as) bs
     else case bs of [] \<Rightarrow> [] | b # bs \<Rightarrow> b # merge2 keep as bs)"
  using assms by (cases as; cases bs) (auto simp: takes_first_def heads_differ_def)

text \<open>The states of a merging iterator over well-behaved sources between two operations, and what it still delivers.\<close>

definition tm_good ::
    "('a \<Rightarrow> bool) \<Rightarrow> ('a \<Rightarrow> iter_entry list) \<Rightarrow> ('b \<Rightarrow> bool) \<Rightarrow> ('b \<Rightarrow> iter_entry list) \<Rightarrow> u64 \<Rightarrow> bool \<Rightarrow>
     ('a, 'b) TwoMergeIterator \<Rightarrow> bool" where
  "tm_good good_a rest_a good_b rest_b lim keep m \<longleftrightarrow>
     (\<exists>a b. it_a m = Some a \<and> it_b m = Some b \<and> good_a a \<and> good_b b \<and> tm_max_tranc_id m = lim \<and>
        tm_keep_all_versions m = keep \<and> ordered keep (rest_a a) \<and> ordered keep (rest_b b) \<and>
        (\<not> keep \<longrightarrow> heads_differ (rest_a a) (rest_b b)) \<and> choose_a m = takes_first keep (rest_a a) (rest_b b))"

definition tm_rest ::
    "('a \<Rightarrow> iter_entry list) \<Rightarrow> ('b \<Rightarrow> iter_entry list) \<Rightarrow> ('a, 'b) TwoMergeIterator \<Rightarrow> iter_entry list" where
  "tm_rest rest_a rest_b m =
     (case (it_a m, it_b m) of
        (Some a, Some b) \<Rightarrow>
          map (reported (tm_keep_all_versions m) (tm_max_tranc_id m))
            (merge2 (tm_keep_all_versions m) (rest_a a) (rest_b b))
      | _ \<Rightarrow> [])"

context base_iterator
begin

lemma skip_none: "good i \<Longrightarrow> limit \<noteq> 0 \<Longrightarrow> skip_invisible I limit i = Some i"
  using visible [of i] by (subst skip_invisible.simps) (simp add: leD)

end

locale two_merge =
  a: base_iterator A good_a rest_a limit + b: base_iterator B good_b rest_b limit
  for A :: "'a BaseIterator" and good_a rest_a
    and B :: "'b BaseIterator" and good_b rest_b and limit +
  fixes keep :: bool
begin

lemma choose_takes_first:
  assumes "it_a m = Some a" "it_b m = Some b" "good_a a" "good_b b"
    and "tm_keep_all_versions m \<or> heads_differ (rest_a a) (rest_b b)"
  shows "choose_it_a A B m = Some (takes_first (tm_keep_all_versions m) (rest_a a) (rest_b b))"
proof (cases "rest_a a"; cases "rest_b b")
  fix x xs y ys assume c: "rest_a a = x # xs" "rest_b b = y # ys"
  obtain kx vx where "fst x = (kx, vx)" by fastforce
  moreover obtain ky vy where "fst y = (ky, vy)" by fastforce
  ultimately show ?thesis
    using assms c a.deref [OF assms(3) c(1)] b.deref [OF assms(4) c(2)] a.tranc [OF assms(3) c(1)]
      b.tranc [OF assms(4) c(2)]
    by (auto simp: choose_it_a_def takes_first_def heads_differ_def)
qed (use assms in \<open>auto simp: choose_it_a_def takes_first_def\<close>)

lemma skip_b:
  assumes "it_a m = Some a" "it_b m = Some b" "good_a a" "good_b b" "ordered keep (rest_b b)"
    and "tm_keep_all_versions m = keep"
  shows "\<exists>b'. skip_it_b A B m = Some (m\<lparr>it_b := Some b'\<rparr>) \<and> good_b b' \<and> ordered keep (rest_b b') \<and>
    (\<not> keep \<longrightarrow> heads_differ (rest_a a) (rest_b b')) \<and>
    merge2 keep (rest_a a) (rest_b b') = merge2 keep (rest_a a) (rest_b b)"
proof (cases "keep \<or> heads_differ (rest_a a) (rest_b b)")
  case True
  have "skip_it_b A B m = Some (m\<lparr>it_b := Some b\<rparr>)"
  proof (cases "rest_a a"; cases "rest_b b")
    fix x xs y ys assume c: "rest_a a = x # xs" "rest_b b = y # ys"
    obtain kx vx where "fst x = (kx, vx)" by fastforce
    moreover obtain ky vy where "fst y = (ky, vy)" by fastforce
    ultimately show ?thesis
      using assms c True a.deref [OF assms(3) c(1)] b.deref [OF assms(4) c(2)]
      by (cases m) (auto simp: skip_it_b_def heads_differ_def)
  qed (use assms in \<open>cases m; auto simp: skip_it_b_def\<close>)+
  then show ?thesis using True assms by auto
next
  case False
  then obtain x xs y ys where c: "rest_a a = x # xs" "rest_b b = y # ys" "ientry_key x = ientry_key y" "\<not> keep"
    by (auto simp: heads_differ_def split: list.splits)
  obtain b' where b': "it_next B b = Some b'" "good_b b'" "rest_b b' = ys" using b.advance [OF assms(4) c(2)] by blast
  have "skip_it_b A B m = Some (m\<lparr>it_b := Some b'\<rparr>)"
    using assms c b' a.deref [OF assms(3) c(1)] b.deref [OF assms(4) c(2)]
    by (auto simp: skip_it_b_def split: prod.splits)
  moreover have "heads_differ (rest_a a) ys"
    using assms(5) c by (auto simp: heads_differ_def ordered_def split: list.splits)
  ultimately show ?thesis using b' c assms(5) ordered_Cons [of keep y ys] by (intro exI [of _ b']) simp
qed

lemma settle_correct:
  assumes "it_a m = Some a" "it_b m = Some b" "good_a a" "good_b b" "ordered keep (rest_a a)" "ordered keep (rest_b b)"
    and "tm_max_tranc_id m = limit" "tm_keep_all_versions m = keep"
  shows "\<exists>m'. tm_settle A B m = Some m' \<and> tm_good good_a rest_a good_b rest_b limit keep m' \<and>
    tm_rest rest_a rest_b m' = map (reported keep limit) (merge2 keep (rest_a a) (rest_b b))"
proof -
  have skip: "tm_skip_by_tranc_id A B m = Some m"
    using assms a.skip_none [of a] b.skip_none [of b] by (cases m) (auto simp: tm_skip_by_tranc_id_def)
  obtain b' where b': "skip_it_b A B m = Some (m\<lparr>it_b := Some b'\<rparr>)" "good_b b'" "ordered keep (rest_b b')"
    "\<not> keep \<longrightarrow> heads_differ (rest_a a) (rest_b b')"
    "merge2 keep (rest_a a) (rest_b b') = merge2 keep (rest_a a) (rest_b b)"
    using skip_b [OF assms(1-4,6,8)] by blast
  have "choose_it_a A B (m\<lparr>it_b := Some b'\<rparr>) = Some (takes_first keep (rest_a a) (rest_b b'))"
    using choose_takes_first [of "m\<lparr>it_b := Some b'\<rparr>" a b'] assms b' by auto
  then show ?thesis using skip b' assms by (auto simp: tm_settle_def tm_good_def tm_rest_def)
qed

lemma new_correct:
  assumes "good_a a" "good_b b" "ordered keep (rest_a a)" "ordered keep (rest_b b)"
  shows "\<exists>m. TwoMergeIterator_new A B a b limit keep = Some m \<and> tm_good good_a rest_a good_b rest_b limit keep m \<and>
    tm_rest rest_a rest_b m = map (reported keep limit) (merge2 keep (rest_a a) (rest_b b))"
  unfolding TwoMergeIterator_new_def by (rule settle_correct) (use assms in simp_all)

lemma next_correct:
  assumes "tm_good good_a rest_a good_b rest_b limit keep m" "tm_rest rest_a rest_b m = e # es"
  shows "\<exists>m'. TwoMergeIterator_next A B m = Some m' \<and> tm_good good_a rest_a good_b rest_b limit keep m' \<and>
    tm_rest rest_a rest_b m' = es \<and> TwoMergeIterator_deref A B m = Some (fst e) \<and>
    TwoMergeIterator_get_tranc_id A B m = snd e"
proof -
  obtain a b where ab: "it_a m = Some a" "it_b m = Some b" "good_a a" "good_b b" "tm_max_tranc_id m = limit"
      "tm_keep_all_versions m = keep" "ordered keep (rest_a a)" "ordered keep (rest_b b)"
      "\<not> keep \<longrightarrow> heads_differ (rest_a a) (rest_b b)" "choose_a m = takes_first keep (rest_a a) (rest_b b)"
    using assms(1) by (auto simp: tm_good_def)
  have out: "map (reported keep limit) (merge2 keep (rest_a a) (rest_b b)) = e # es"
    using assms(2) ab by (simp add: tm_rest_def)
  note step = merge2_step [OF ab(9)]
  show ?thesis
  proof (cases "choose_a m")
    case True
    then obtain x xs where x: "rest_a a = x # xs" using ab(10) by (auto simp: takes_first_def split: list.splits)
    obtain a' where a': "it_next A a = Some a'" "good_a a'" "rest_a a' = xs" using a.advance [OF ab(3) x] by blast
    have e: "e = reported keep limit x" "es = map (reported keep limit) (merge2 keep xs (rest_b b))"
      using out step True ab(10) x by auto
    have oa: "ordered keep (rest_a a')" using ab(7) x a' ordered_Cons by simp
    then show ?thesis
      using settle_correct [of "m\<lparr>it_a := Some a'\<rparr>" a' b] ab a' True e x a.deref [OF ab(3) x] a.tranc [OF ab(3) x]
      by (auto simp: TwoMergeIterator_next_def TwoMergeIterator_deref_def TwoMergeIterator_get_tranc_id_def reported_def)
  next
    case False
    then obtain y ys where y: "rest_b b = y # ys" using ab(10) out step by (auto split: list.splits)
    obtain b' where b': "it_next B b = Some b'" "good_b b'" "rest_b b' = ys" using b.advance [OF ab(4) y] by blast
    have e: "e = reported keep limit y" "es = map (reported keep limit) (merge2 keep (rest_a a) ys)"
      using out step False ab(10) y by auto
    have ob: "ordered keep (rest_b b')" using ab(8) y b' ordered_Cons by simp
    then show ?thesis
      using settle_correct [of "m\<lparr>it_b := Some b'\<rparr>" a b'] ab b' False e y b.deref [OF ab(4) y] b.tranc [OF ab(4) y]
      by (auto simp: TwoMergeIterator_next_def TwoMergeIterator_deref_def TwoMergeIterator_get_tranc_id_def reported_def)
  qed
qed

lemma rest_empty:
  assumes "tm_good good_a rest_a good_b rest_b limit keep m"
  shows "TwoMergeIterator_is_end A B m \<longleftrightarrow> tm_rest rest_a rest_b m = []"
    and "TwoMergeIterator_is_valid A B m \<longleftrightarrow> tm_rest rest_a rest_b m \<noteq> []"
    and "limit \<noteq> 0 \<Longrightarrow> TwoMergeIterator_get_tranc_id A B m \<le> limit"
proof -
  obtain a b where ab: "it_a m = Some a" "it_b m = Some b" "good_a a" "good_b b" "tm_max_tranc_id m = limit"
      "tm_keep_all_versions m = keep" "\<not> keep \<longrightarrow> heads_differ (rest_a a) (rest_b b)"
    using assms by (auto simp: tm_good_def)
  have "merge2 keep (rest_a a) (rest_b b) = [] \<longleftrightarrow> rest_a a = [] \<and> rest_b b = []"
    using ab(7) by (cases "rest_a a"; cases "rest_b b") (auto simp: heads_differ_def)
  then show "TwoMergeIterator_is_end A B m \<longleftrightarrow> tm_rest rest_a rest_b m = []"
    "TwoMergeIterator_is_valid A B m \<longleftrightarrow> tm_rest rest_a rest_b m \<noteq> []"
    using ab by (simp_all add: TwoMergeIterator_is_end_def TwoMergeIterator_is_valid_def tm_rest_def)
  show "limit \<noteq> 0 \<Longrightarrow> TwoMergeIterator_get_tranc_id A B m \<le> limit"
    using a.visible [OF ab(3)] b.visible [OF ab(4)] ab by (simp add: TwoMergeIterator_get_tranc_id_def split: bool.splits)
qed

end

text \<open>A merging iterator is an iterator again, so merges can be nested.\<close>

sublocale two_merge \<subseteq> tm: base_iterator "two_merge_ops A B" "tm_good good_a rest_a good_b rest_b limit keep"
    "tm_rest rest_a rest_b" limit
proof unfold_locales
  fix m assume g: "tm_good good_a rest_a good_b rest_b limit keep m"
  show "it_is_end (two_merge_ops A B) m \<longleftrightarrow> tm_rest rest_a rest_b m = []"
    "it_is_valid (two_merge_ops A B) m \<longleftrightarrow> tm_rest rest_a rest_b m \<noteq> []"
    using rest_empty [OF g] by (simp_all add: two_merge_ops_def)
  show "limit \<noteq> 0 \<Longrightarrow> it_tranc_id (two_merge_ops A B) m \<le> limit"
    using rest_empty(3) [OF g] by (simp add: two_merge_ops_def)
  fix e es assume r: "tm_rest rest_a rest_b m = e # es"
  show "it_deref (two_merge_ops A B) m = Some (fst e)" "it_tranc_id (two_merge_ops A B) m = snd e"
    "\<exists>j. it_next (two_merge_ops A B) m = Some j \<and> tm_good good_a rest_a good_b rest_b limit keep j \<and>
       tm_rest rest_a rest_b j = es"
    using next_correct [OF g r] by (auto simp: two_merge_ops_def)
qed

interpretation heap2: two_merge heap_ops "heap_good m" heap_rest heap_ops "heap_good m" heap_rest m keep for m keep
  by unfold_locales

subsection \<open>Properties\<close>

lemma heap_new_keys_sorted:
  assumes "consistent_items xs" "\<forall>x\<in>set xs. si_value x = [] \<longrightarrow> visible m x"
  shows "keys_sorted (heap_rest (HeapIterator_new xs m True False))"
proof -
  let ?q = "foldl (\<lambda>q x. pq_push x q) [] xs"
  let ?it = "\<lparr>items = ?q, max_tranc_id = m, skip_delete = True, keep_all_versions = False\<rparr>"
  have q: "set ?q = set xs" "sorted_wrt before_item ?q"
    using queue_of_items [OF assms(1)] assms(1) by (auto simp: consistent_items_def)
  have "merged m (items (settle ?it)) = merged m ?q" "max_tranc_id (settle ?it) = m"
    using settle_merged [of ?it] assms(2) q(1) by auto
  then show ?thesis using merged_sorted [OF q(2), of m] by (simp add: heap_rest_def HeapIterator_new_def comp_def)
qed

text \<open>
  C11: merging the heap iterator of the memory table with that of the sorted tables ends and
  delivers every key once in increasing order, with the value of the first iterator where both
  have the key, and with the value of the only iterator that has it otherwise.
\<close>

theorem two_merge_iterates:
  assumes "consistent_items xs" "\<forall>x\<in>set xs. si_value x = [] \<longrightarrow> visible m x"
    and "consistent_items ys" "\<forall>y\<in>set ys. si_value y = [] \<longrightarrow> visible m y"
  defines "a \<equiv> HeapIterator_new xs m True False" and "b \<equiv> HeapIterator_new ys m True False"
  shows "\<exists>it es. TwoMergeIterator_new heap_ops heap_ops a b m False = Some it \<and>
    iterate (two_merge_ops heap_ops heap_ops) it = Some es \<and>
    sorted_wrt (<) (map (\<lambda>e. fst (fst e)) es) \<and>
    map_of (map fst es) = map_of (collect b) ++ map_of (collect a)"
proof -
  have g: "heap_good m a" "heap_good m b" unfolding a_def b_def by (rule heap_new_good; fact)+
  have r: "map fst (heap_rest a) = collect a" "map fst (heap_rest b) = collect b"
    unfolding a_def b_def using heap_new_good(2) [OF assms(2)] heap_new_good(2) [OF assms(4)] by (simp_all add: comp_def)
  have o: "keys_sorted (heap_rest a)" "keys_sorted (heap_rest b)"
    unfolding a_def b_def by (rule heap_new_keys_sorted; fact)+
  let ?es = "merge2 False (heap_rest a) (heap_rest b)"
  obtain it where it: "TwoMergeIterator_new heap_ops heap_ops a b m False = Some it"
    "iterate (two_merge_ops heap_ops heap_ops) it = Some (map (reported False m) ?es)"
    using heap2.new_correct [OF g, of False] o heap2.tm.iterate_rest by (fastforce simp: ordered_def)
  show ?thesis
    using it merge2_keys_sorted [OF o] merge2_lookup [OF o] r
    by (intro exI [of _ it] exI [of _ "map (reported False m) ?es"]) (simp add: reported_def comp_def)
qed

lemma two_merge_iterates_witness:
  "\<exists>it es. TwoMergeIterator_new heap_ops heap_ops
      (HeapIterator_new [\<lparr>si_key = ''k'', si_value = ''new'', si_tranc_id = 3, si_idx = 0, si_level = 0\<rparr>] 5 True False)
      (HeapIterator_new [\<lparr>si_key = ''k'', si_value = ''old'', si_tranc_id = 1, si_idx = 0, si_level = 0\<rparr>] 5 True False)
      5 False = Some it \<and> iterate (two_merge_ops heap_ops heap_ops) it = Some es \<and> map_of (map fst es) ''k'' = Some ''new''"
proof -
  let ?x = "[\<lparr>si_key = ''k'', si_value = ''new'', si_tranc_id = 3, si_idx = 0, si_level = 0\<rparr>] :: SearchItem list"
  let ?y = "[\<lparr>si_key = ''k'', si_value = ''old'', si_tranc_id = 1, si_idx = 0, si_level = 0\<rparr>] :: SearchItem list"
  have c: "collect (HeapIterator_new ?x 5 True False) = [(''k'', ''new'')]" by code_simp
  show ?thesis using two_merge_iterates [of ?x 5 ?y] by (auto simp: consistent_items_def visible_def c)
qed

text \<open>
  The loop that skips invisible entries does not look for the end of the iterator, and an
  exhausted iterator stays where it is and keeps reporting its own limit.
\<close>

lemma skip_invisible_returns:
  "skip_invisible I m i = Some j \<Longrightarrow> \<not> (m < it_tranc_id I i \<and> it_next I i = Some i)"
proof (rule skip_invisible.raw_induct [where P = "\<lambda>I m i j. \<not> (m < it_tranc_id I i \<and> it_next I i = Some i)"])
  fix f :: "'a BaseIterator \<Rightarrow> u64 \<Rightarrow> 'a \<Rightarrow> 'a option" and I m i j
  assume "\<And>I m i j. f I m i = Some j \<Longrightarrow> \<not> (m < it_tranc_id I i \<and> it_next I i = Some i)"
    and "(if m < it_tranc_id I i then it_next I i \<bind> f I m else Some i) = Some j"
  then show "\<not> (m < it_tranc_id I i \<and> it_next I i = Some i)" by (auto split: if_splits simp: bind_Some_conv)
qed

text \<open>
  Two iterators opened with a larger limit than the merging iterator make its constructor
  loop for ever as soon as the first of them has nothing to deliver.
\<close>

theorem two_merge_skip_hangs:
  assumes "0 < lim" "lim < m"
  shows "TwoMergeIterator_new heap_ops B (HeapIterator_new [] m True False) b lim keep = None"
proof -
  let ?a = "HeapIterator_new [] m True False"
  have a: "items ?a = []" "max_tranc_id ?a = m" by (simp_all add: HeapIterator_new_def settle.simps top_value_legal_def)
  then have "lim < it_tranc_id heap_ops ?a" "it_next heap_ops ?a = Some ?a"
    using assms by (simp_all add: heap_ops_def HeapIterator_get_tranc_id_def HeapIterator_next_def)
  then have "skip_invisible heap_ops lim ?a = None"
    using skip_invisible_returns [of heap_ops lim ?a] by (cases "skip_invisible heap_ops lim ?a") auto
  then show ?thesis using assms by (auto simp: TwoMergeIterator_new_def tm_settle_def tm_skip_by_tranc_id_def)
qed

lemma two_merge_skip_hangs_witness:
  "TwoMergeIterator_new heap_ops heap_ops (HeapIterator_new [] 9 True False) (HeapIterator_new [] 9 True False) 5 False = None"
  using two_merge_skip_hangs [of 5 9 heap_ops "HeapIterator_new [] 9 True False" False] by simp

end
