(* ===== verification/Block_Iter.thy ===== *)
theory Block_Iter
  imports Two_Merge Byte_Buffer
begin

text \<open>
  A data block and its iterator (\<^verbatim>\<open>src/block/block.cpp\<close>, \<^verbatim>\<open>src/block/block_iterator.cpp\<close>). The functions
  that read an entry of the data section, the binary search and the encoding are not written yet in
  the repository (their bodies return fixed values): the readers the iterator calls are the
  parameter \<open>block_reader\<close>, and \<open>stub_reader\<close> is what the bodies do today. Everything proved here
  holds for every reader.

  A block is addressed through a pointer, \<^const>\<open>None\<close> for a null pointer. The result of an
  operation is \<^const>\<open>None\<close> where it throws, dereferences a null pointer or reads out of range;
  \<open>get_offset_at\<close> tells the exception from the out-of-range read. The comparison of two iterators
  (by address) is left out.
\<close>

subsection \<open>Blocks\<close>

record Block =
  blk_data :: bytes
  offsets :: "u16 list"
  blk_capacity :: nat

definition Block_new :: "nat \<Rightarrow> Block" where
  "Block_new capacity = \<lparr>blk_data = [], offsets = [], blk_capacity = capacity\<rparr>"

record block_reader =
  get_key_at :: "Block \<Rightarrow> nat \<Rightarrow> string"
  get_value_at :: "Block \<Rightarrow> nat \<Rightarrow> string"
  get_tranc_id_at :: "Block \<Rightarrow> nat \<Rightarrow> u64"
  get_idx_binary :: "Block \<Rightarrow> string \<Rightarrow> u64 \<Rightarrow> nat option"

definition stub_reader :: block_reader where
  "stub_reader = \<lparr>get_key_at = (\<lambda>b offset. []), get_value_at = (\<lambda>b offset. []),
     get_tranc_id_at = (\<lambda>b offset. 0), get_idx_binary = (\<lambda>b key tranc_id. None)\<rparr>"

datatype block_error = IdxOutOfOffsetsRange

definition Block_size :: "Block \<Rightarrow> nat" where
  "Block_size b = length (offsets b)"

definition Block_cur_size :: "Block \<Rightarrow> nat" where
  "Block_cur_size b = length (blk_data b) + length (offsets b) * 2 + 2"

definition Block_is_empty :: "Block \<Rightarrow> bool" where
  "Block_is_empty b \<longleftrightarrow> offsets b = []"

definition Block_get_first_key :: "Block \<Rightarrow> string option" where
  "Block_get_first_key b =
     (if blk_data b = [] \<or> offsets b = [] then Some []
      else do { lb \<leftarrow> read_at (blk_data b) 0 2;
                kb \<leftarrow> read_at (blk_data b) 2 (unat (dec16 lb));
                Some (bytes_string kb) })"

definition get_offset_at :: "Block \<Rightarrow> nat \<Rightarrow> (block_error + nat) option" where
  "get_offset_at b idx =
     (if length (offsets b) < idx then Some (Inl IdxOutOfOffsetsRange)
      else do { off \<leftarrow> nth_opt (offsets b) idx; Some (Inr (unat off)) })"

definition offset_or_fail :: "Block \<Rightarrow> nat \<Rightarrow> nat option" where
  "offset_or_fail b idx = (case get_offset_at b idx of Some (Inr off) \<Rightarrow> Some off | _ \<Rightarrow> None)"

definition get_entry_at :: "block_reader \<Rightarrow> Block \<Rightarrow> nat \<Rightarrow> iter_entry" where
  "get_entry_at R b off = ((get_key_at R b off, get_value_at R b off), get_tranc_id_at R b off)"

text \<open>\<^verbatim>\<open>std::string::compare\<close>: the sign of the comparison.\<close>

definition compare_key_at :: "block_reader \<Rightarrow> Block \<Rightarrow> nat \<Rightarrow> string \<Rightarrow> int" where
  "compare_key_at R b off target =
     (if get_key_at R b off < target then - 1 else if target < get_key_at R b off then 1 else 0)"

definition is_same_key :: "block_reader \<Rightarrow> Block \<Rightarrow> nat \<Rightarrow> string \<Rightarrow> bool" where
  "is_same_key R b idx target_key \<longleftrightarrow>
     (if length (offsets b) \<le> idx then False else get_key_at R b (unat (offsets b ! idx)) = target_key)"

definition get_value_binary :: "block_reader \<Rightarrow> Block \<Rightarrow> string \<Rightarrow> u64 \<Rightarrow> string option option" where
  "get_value_binary R b key tranc_id =
     (case get_idx_binary R b key tranc_id of
        None \<Rightarrow> Some None
      | Some idx \<Rightarrow> do { off \<leftarrow> nth_opt (offsets b) idx; Some (Some (get_value_at R b (unat off))) })"

text \<open>The entries of a block as its readers present them.\<close>

definition block_entries :: "block_reader \<Rightarrow> Block \<Rightarrow> iter_entry list" where
  "block_entries R b = map (\<lambda>off. get_entry_at R b (unat off)) (offsets b)"

lemma length_block_entries [simp]: "length (block_entries R b) = length (offsets b)"
  by (simp add: block_entries_def)

lemma offset_in_range [simp]: "i < length (offsets b) \<Longrightarrow> offset_or_fail b i = Some (unat (offsets b ! i))"
  by (simp add: offset_or_fail_def get_offset_at_def)

lemma nth_block_entries:
  "i < length (offsets b) \<Longrightarrow> block_entries R b ! i = get_entry_at R b (unat (offsets b ! i))"
  by (simp add: block_entries_def)

subsection \<open>The iterator\<close>

record BlockIterator =
  bi_block :: "Block option"
  current_index :: nat
  bi_tranc_id :: u64
  bi_cached_value :: "(string \<times> string) option"
  bi_keep_all_versions :: bool

text \<open>The loop over invisible versions, from index \<open>i\<close>.\<close>

function skip_index :: "block_reader \<Rightarrow> Block \<Rightarrow> u64 \<Rightarrow> nat \<Rightarrow> nat option" where
  "skip_index R b tranc_id i =
     (if i < length (offsets b)
      then do { off \<leftarrow> offset_or_fail b i;
                if get_tranc_id_at R b off \<le> tranc_id then Some i else skip_index R b tranc_id (Suc i) }
      else Some i)"
  by pat_completeness auto
termination
  by (relation "measure (\<lambda>(R, b, t, i). length (offsets b) - i)") auto

declare skip_index.simps [simp del]

definition bi_skip_by_tranc_id :: "block_reader \<Rightarrow> BlockIterator \<Rightarrow> BlockIterator option" where
  "bi_skip_by_tranc_id R it =
     (if bi_tranc_id it = 0 then Some (it\<lparr>bi_cached_value := None\<rparr>)
      else do { b \<leftarrow> bi_block it;
                i \<leftarrow> skip_index R b (bi_tranc_id it) (current_index it);
                Some (it\<lparr>current_index := i, bi_cached_value := None\<rparr>) })"

definition BlockIterator_new :: "block_reader \<Rightarrow> Block option \<Rightarrow> nat \<Rightarrow> u64 \<Rightarrow> bool \<Rightarrow> BlockIterator option" where
  "BlockIterator_new R b index tranc_id keep =
     bi_skip_by_tranc_id R \<lparr>bi_block = b, current_index = index, bi_tranc_id = tranc_id,
       bi_cached_value = None, bi_keep_all_versions = keep\<rparr>"

definition BlockIterator_seek ::
    "block_reader \<Rightarrow> Block option \<Rightarrow> string \<Rightarrow> u64 \<Rightarrow> bool \<Rightarrow> BlockIterator option" where
  "BlockIterator_seek R b key tranc_id keep =
     do { blk \<leftarrow> b;
          let i = (case get_idx_binary R blk key tranc_id of Some i \<Rightarrow> i | None \<Rightarrow> length (offsets blk));
          Some \<lparr>bi_block = b, current_index = i, bi_tranc_id = tranc_id, bi_cached_value = None,
                bi_keep_all_versions = keep\<rparr> }"

text \<open>The loop over the other versions of the key that was left.\<close>

function same_key_index :: "block_reader \<Rightarrow> Block \<Rightarrow> string \<Rightarrow> nat \<Rightarrow> nat option" where
  "same_key_index R b key i =
     (if i < Block_size b
      then do { off \<leftarrow> offset_or_fail b i;
                if ientry_key (get_entry_at R b off) \<noteq> key then Some i else same_key_index R b key (Suc i) }
      else Some i)"
  by pat_completeness auto
termination
  by (relation "measure (\<lambda>(R, b, k, i). Block_size b - i)") auto

declare same_key_index.simps [simp del]

definition BlockIterator_next :: "block_reader \<Rightarrow> BlockIterator \<Rightarrow> BlockIterator option" where
  "BlockIterator_next R it =
     (case bi_block it of
        None \<Rightarrow> Some it
      | Some b \<Rightarrow>
          if current_index it < Block_size b
          then do { off \<leftarrow> offset_or_fail b (current_index it);
                    let prev_entry = get_entry_at R b off;
                    i \<leftarrow> (if bi_keep_all_versions it then Some (Suc (current_index it))
                           else same_key_index R b (ientry_key prev_entry) (Suc (current_index it)));
                    bi_skip_by_tranc_id R (it\<lparr>current_index := i\<rparr>) }
          else Some it)"

text \<open>\<^verbatim>\<open>operator*\<close> with the cache it fills.\<close>

definition BlockIterator_deref :: "block_reader \<Rightarrow> BlockIterator \<Rightarrow> ((string \<times> string) \<times> BlockIterator) option" where
  "BlockIterator_deref R it =
     do { b \<leftarrow> bi_block it;
          if Block_size b \<le> current_index it then None
          else (case bi_cached_value it of
                  Some kv \<Rightarrow> Some (kv, it)
                | None \<Rightarrow>
                    do { off \<leftarrow> offset_or_fail b (current_index it);
                         let kv = (get_key_at R b off, get_value_at R b off);
                         Some (kv, it\<lparr>bi_cached_value := Some kv\<rparr>) }) }"

definition bi_update_current :: "block_reader \<Rightarrow> BlockIterator \<Rightarrow> BlockIterator option" where
  "bi_update_current R it =
     (case bi_cached_value it of
        Some kv \<Rightarrow> Some it
      | None \<Rightarrow>
          do { b \<leftarrow> bi_block it;
               if current_index it < length (offsets b)
               then do { off \<leftarrow> offset_or_fail b (current_index it);
                         Some (it\<lparr>bi_cached_value := Some (get_key_at R b off, get_value_at R b off)\<rparr>) }
               else Some it })"

definition BlockIterator_arrow :: "block_reader \<Rightarrow> BlockIterator \<Rightarrow> ((string \<times> string) \<times> BlockIterator) option" where
  "BlockIterator_arrow R it = do { it \<leftarrow> bi_update_current R it; kv \<leftarrow> bi_cached_value it; Some (kv, it) }"

definition BlockIterator_is_end :: "BlockIterator \<Rightarrow> bool option" where
  "BlockIterator_is_end it = do { b \<leftarrow> bi_block it; Some (current_index it = length (offsets b)) }"

definition BlockIterator_get_cur_tranc_id :: "block_reader \<Rightarrow> BlockIterator \<Rightarrow> u64" where
  "BlockIterator_get_cur_tranc_id R it =
     (case bi_block it of
        None \<Rightarrow> 0
      | Some b \<Rightarrow>
          if length (offsets b) \<le> current_index it then 0
          else get_tranc_id_at R b (unat (offsets b ! current_index it)))"

text \<open>The operations in the shape of the iterator interface (the block iterator is not derived from it).\<close>

definition block_ops :: "block_reader \<Rightarrow> BlockIterator BaseIterator" where
  "block_ops R =
     \<lparr>it_is_end = (\<lambda>it. BlockIterator_is_end it = Some True), it_is_valid = (\<lambda>it. BlockIterator_is_end it = Some False),
      it_deref = (\<lambda>it. map_option fst (BlockIterator_deref R it)), it_next = BlockIterator_next R,
      it_tranc_id = BlockIterator_get_cur_tranc_id R\<rparr>"

subsection \<open>What the iterator delivers\<close>

definition may_see :: "u64 \<Rightarrow> iter_entry \<Rightarrow> bool" where
  "may_see lim e \<longleftrightarrow> lim = 0 \<or> snd e \<le> lim"

text \<open>The visible entries, of each run of versions of a key only the first unless all versions are kept.\<close>

function deliver :: "bool \<Rightarrow> u64 \<Rightarrow> iter_entry list \<Rightarrow> iter_entry list" where
  "deliver keep lim [] = []"
| "deliver keep lim (e # es) =
     (if \<not> may_see lim e then deliver keep lim es
      else e # deliver keep lim (if keep then es else drop_key (ientry_key e) es))"
  by pat_completeness auto
termination
  by (relation "measure (\<lambda>(keep, lim, es). length es)") (auto simp: le_imp_less_Suc length_dropWhile_le)

lemma deliver_subset: "set (deliver keep lim es) \<subseteq> {e \<in> set es. may_see lim e}"
proof (induction keep lim es rule: deliver.induct)
  case (2 keep lim e es)
  have "set (drop_key (ientry_key e) es) \<subseteq> set es" by (auto dest: set_dropWhileD)
  then have sub: "set (if keep then es else drop_key (ientry_key e) es) \<subseteq> set es" (is "set ?r \<subseteq> _") by simp
  show ?case
  proof (cases "may_see lim e")
    case True
    then have "set (deliver keep lim ?r) \<subseteq> {x \<in> set ?r. may_see lim x}" using "2.IH"(2) by simp
    moreover have "set (deliver keep lim (e # es)) = insert e (set (deliver keep lim ?r))" using True by simp
    ultimately show ?thesis using sub True by auto
  qed (use "2.IH"(1) in auto)
qed simp

lemma deliver_keep: "deliver True lim es = filter (may_see lim) es"
  by (induction es) auto

text \<open>
  For a block whose entries are in the order the table builder gives them, key by key and the newer
  version first: the newest visible version of each key.
\<close>

definition strictly_before :: "iter_entry \<Rightarrow> iter_entry \<Rightarrow> bool" where
  "strictly_before a b \<longleftrightarrow> ientry_key a < ientry_key b \<or> ientry_key a = ientry_key b \<and> snd b < snd a"

lemma drop_key_run:
  assumes "sorted_wrt strictly_before (e # es)"
  shows "x \<in> set (drop_key (ientry_key e) es) \<longleftrightarrow> x \<in> set es \<and> ientry_key e < ientry_key x"
  using assms
proof (induction es)
  case (Cons y ys)
  show ?case
  proof (cases "ientry_key y = ientry_key e")
    case True
    then show ?thesis using Cons by auto
  next
    case False
    then have "ientry_key e < ientry_key y" using Cons.prems by (auto simp: strictly_before_def)
    then show ?thesis using Cons.prems False by (fastforce simp: strictly_before_def)
  qed
qed simp

lemma sorted_wrt_drop_key: "sorted_wrt P es \<Longrightarrow> sorted_wrt P (drop_key k es)"
  by (induction es) auto

lemma deliver_keys_sorted:
  "sorted_wrt strictly_before es \<Longrightarrow> keys_sorted (deliver False lim es)"
proof (induction False lim es rule: deliver.induct)
  case (2 lim e es)
  have "ientry_key e < ientry_key x" if "x \<in> set (deliver False lim (drop_key (ientry_key e) es))" for x
    using deliver_subset [of False lim "drop_key (ientry_key e) es"] that drop_key_run [OF "2.prems"] by auto
  then show ?case using 2 sorted_wrt_drop_key [of strictly_before es] by auto
qed simp

lemma deliver_newest:
  assumes "sorted_wrt strictly_before es"
  shows "e \<in> set (deliver False lim es) \<longleftrightarrow>
    e \<in> set es \<and> may_see lim e \<and> (\<forall>x\<in>set es. ientry_key x = ientry_key e \<longrightarrow> may_see lim x \<longrightarrow> snd x \<le> snd e)"
  using assms
proof (induction False lim es rule: deliver.induct)
  case (2 lim f es)
  let ?r = "drop_key (ientry_key f) es"
  have later: "strictly_before f x" if "x \<in> set es" for x using "2.prems" that by simp
  show ?case
  proof (cases "may_see lim f")
    case False
    then show ?thesis using 2 by auto
  next
    case True
    have r: "sorted_wrt strictly_before ?r" using "2.prems" sorted_wrt_drop_key [of strictly_before es] by simp
    note rin = drop_key_run [OF "2.prems"]
    have IH: "e \<in> set (deliver False lim ?r) \<longleftrightarrow>
      e \<in> set ?r \<and> may_see lim e \<and> (\<forall>x\<in>set ?r. ientry_key x = ientry_key e \<longrightarrow> may_see lim x \<longrightarrow> snd x \<le> snd e)"
      using "2.hyps"(2) True r by simp
    have all: "e \<in> set (deliver False lim (f # es)) \<longleftrightarrow> e = f \<or> e \<in> set (deliver False lim ?r)" using True by simp
    show ?thesis
    proof (cases "ientry_key e = ientry_key f")
      case k: True
      then have none: "e \<notin> set (deliver False lim ?r)" using IH rin by auto
      have older: "snd x < snd f" if "x \<in> set es" "ientry_key x = ientry_key e" for x
        using later [OF that(1)] that(2) k by (auto simp: strictly_before_def)
      then have unique: "\<not> snd f \<le> snd x" if "x \<in> set es" "ientry_key x = ientry_key e" for x using that by (meson leD)
      show ?thesis
      proof
        assume "e \<in> set (deliver False lim (f # es))"
        then have "e = f" using none all by blast
        then show "e \<in> set (f # es) \<and> may_see lim e \<and>
            (\<forall>x\<in>set (f # es). ientry_key x = ientry_key e \<longrightarrow> may_see lim x \<longrightarrow> snd x \<le> snd e)"
          using True older by (auto intro: less_imp_le)
      next
        assume "e \<in> set (f # es) \<and> may_see lim e \<and>
            (\<forall>x\<in>set (f # es). ientry_key x = ientry_key e \<longrightarrow> may_see lim x \<longrightarrow> snd x \<le> snd e)"
        then have "e \<in> set (f # es)" "snd f \<le> snd e" using True k by simp_all
        then have "e = f" using unique [of e] by auto
        then show "e \<in> set (deliver False lim (f # es))" using all by blast
      qed
    next
      case k: False
      have "x \<in> set ?r \<longleftrightarrow> x \<in> set es" if "ientry_key x = ientry_key e" for x
        using rin [of x] later [of x] k that by (auto simp: strictly_before_def)
      then show ?thesis unfolding all IH using k by auto
    qed
  qed
qed simp

subsection \<open>The iterator meets the contract\<close>

definition bi_good :: "block_reader \<Rightarrow> u64 \<Rightarrow> BlockIterator \<Rightarrow> bool" where
  "bi_good R lim it \<longleftrightarrow>
     (\<exists>b. bi_block it = Some b \<and> bi_tranc_id it = lim \<and> current_index it \<le> length (offsets b) \<and>
        (current_index it < length (offsets b) \<longrightarrow>
           may_see lim (block_entries R b ! current_index it) \<and>
           (bi_cached_value it = None \<or> bi_cached_value it = Some (fst (block_entries R b ! current_index it)))))"

definition bi_rest :: "block_reader \<Rightarrow> BlockIterator \<Rightarrow> iter_entry list" where
  "bi_rest R it =
     (case bi_block it of
        None \<Rightarrow> []
      | Some b \<Rightarrow> deliver (bi_keep_all_versions it) (bi_tranc_id it) (drop (current_index it) (block_entries R b)))"

lemma drop_entry:
  "i < length (offsets b) \<Longrightarrow> drop i (block_entries R b) = block_entries R b ! i # drop (Suc i) (block_entries R b)"
  by (simp add: Cons_nth_drop_Suc)

lemma skip_index_correct:
  assumes "i \<le> length (offsets b)" "lim \<noteq> 0"
  shows "\<exists>j. skip_index R b lim i = Some j \<and> i \<le> j \<and> j \<le> length (offsets b) \<and>
    (j < length (offsets b) \<longrightarrow> may_see lim (block_entries R b ! j)) \<and>
    deliver keep lim (drop j (block_entries R b)) = deliver keep lim (drop i (block_entries R b))"
  using assms(1)
proof (induction "length (offsets b) - i" arbitrary: i)
  case 0
  then show ?case by (intro exI [of _ i]) (simp add: skip_index.simps)
next
  case (Suc n)
  then have i: "i < length (offsets b)" and n: "n = length (offsets b) - Suc i" by simp_all
  have see: "may_see lim (block_entries R b ! i) \<longleftrightarrow> get_tranc_id_at R b (unat (offsets b ! i)) \<le> lim"
    using assms(2) i by (simp add: may_see_def nth_block_entries get_entry_at_def)
  show ?case
  proof (cases "may_see lim (block_entries R b ! i)")
    case True
    then show ?thesis using i see by (intro exI [of _ i]) (simp add: skip_index.simps)
  next
    case False
    obtain j where "skip_index R b lim (Suc i) = Some j" "Suc i \<le> j" "j \<le> length (offsets b)"
      "j < length (offsets b) \<longrightarrow> may_see lim (block_entries R b ! j)"
      "deliver keep lim (drop j (block_entries R b)) = deliver keep lim (drop (Suc i) (block_entries R b))"
      using Suc.hyps(1) [OF n] i by auto
    then show ?thesis using i see False by (intro exI [of _ j]) (simp add: skip_index.simps [of R b lim i] drop_entry)
  qed
qed

lemma skip_correct:
  assumes "bi_block it = Some b" "current_index it \<le> length (offsets b)" "bi_tranc_id it = lim"
  shows "\<exists>it'. bi_skip_by_tranc_id R it = Some it' \<and> bi_good R lim it' \<and> bi_keep_all_versions it' = bi_keep_all_versions it \<and>
    bi_block it' = Some b \<and> bi_rest R it' = deliver (bi_keep_all_versions it) lim (drop (current_index it) (block_entries R b))"
proof (cases "lim = 0")
  case True
  then show ?thesis using assms by (auto simp: bi_skip_by_tranc_id_def bi_good_def bi_rest_def may_see_def)
next
  case False
  then show ?thesis
    using skip_index_correct [OF assms(2) False, of R "bi_keep_all_versions it"] assms
    by (auto simp: bi_skip_by_tranc_id_def bi_good_def bi_rest_def)
qed

lemma same_key_index_correct:
  "i \<le> length (offsets b) \<Longrightarrow>
   \<exists>j. same_key_index R b k i = Some j \<and> j \<le> length (offsets b) \<and>
     drop j (block_entries R b) = drop_key k (drop i (block_entries R b))"
proof (induction "length (offsets b) - i" arbitrary: i)
  case 0
  then show ?case by (intro exI [of _ i]) (simp add: same_key_index.simps Block_size_def)
next
  case (Suc n)
  then have i: "i < length (offsets b)" and n: "n = length (offsets b) - Suc i" by simp_all
  have key: "ientry_key (get_entry_at R b (unat (offsets b ! i))) = ientry_key (block_entries R b ! i)"
    using i by (simp add: nth_block_entries)
  show ?case
  proof (cases "ientry_key (block_entries R b ! i) = k")
    case True
    then show ?thesis using Suc.hyps(1) [OF n] i key
      by (simp add: same_key_index.simps [of R b k i] Block_size_def drop_entry)
  next
    case False
    then show ?thesis using i key by (intro exI [of _ i]) (simp add: same_key_index.simps Block_size_def drop_entry)
  qed
qed

lemma block_next_correct:
  assumes "bi_good R lim it" "bi_rest R it = e # es"
  shows "\<exists>j. BlockIterator_next R it = Some j \<and> bi_good R lim j \<and> bi_rest R j = es \<and> bi_block j = bi_block it \<and>
    bi_keep_all_versions j = bi_keep_all_versions it"
    and "BlockIterator_get_cur_tranc_id R it = snd e"
    and "\<exists>it'. BlockIterator_deref R it = Some (fst e, it') \<and> bi_good R lim it' \<and> bi_rest R it' = bi_rest R it"
proof -
  obtain b where b: "bi_block it = Some b" "bi_tranc_id it = lim" "current_index it \<le> length (offsets b)"
    using assms(1) by (auto simp: bi_good_def)
  let ?i = "current_index it" and ?es = "block_entries R b" and ?keep = "bi_keep_all_versions it"
  have i: "?i < length (offsets b)"
  proof (rule ccontr)
    assume "\<not> ?i < length (offsets b)"
    then show False using assms(2) b by (simp add: bi_rest_def)
  qed
  then have see: "may_see lim (?es ! ?i)" and cache: "bi_cached_value it = None \<or> bi_cached_value it = Some (fst (?es ! ?i))"
    using assms(1) b by (auto simp: bi_good_def)
  have e: "e = ?es ! ?i" "es = deliver ?keep lim (if ?keep then drop (Suc ?i) ?es else drop_key (ientry_key e) (drop (Suc ?i) ?es))"
    using assms(2) b see i by (auto simp: bi_rest_def drop_entry)
  have entry: "e = get_entry_at R b (unat (offsets b ! ?i))" using e(1) i by (simp add: nth_block_entries)
  show "BlockIterator_get_cur_tranc_id R it = snd e"
    using i b entry by (simp add: BlockIterator_get_cur_tranc_id_def get_entry_at_def)
  show "\<exists>it'. BlockIterator_deref R it = Some (fst e, it') \<and> bi_good R lim it' \<and> bi_rest R it' = bi_rest R it"
    using cache i b entry e(1) see
    by (auto simp: BlockIterator_deref_def Block_size_def bi_good_def bi_rest_def nth_block_entries get_entry_at_def Let_def)
  obtain j where j: "(if ?keep then Some (Suc ?i) else same_key_index R b (ientry_key e) (Suc ?i)) = Some j"
    "j \<le> length (offsets b)" "drop j ?es = (if ?keep then drop (Suc ?i) ?es else drop_key (ientry_key e) (drop (Suc ?i) ?es))"
    using same_key_index_correct [of "Suc ?i" b R "ientry_key e"] i by (cases ?keep) auto
  have "BlockIterator_next R it = bi_skip_by_tranc_id R (it\<lparr>current_index := j\<rparr>)"
    unfolding BlockIterator_next_def using b(1) i entry [symmetric] j(1) by (cases ?keep) (simp_all add: Block_size_def Let_def)
  moreover obtain it' where "bi_skip_by_tranc_id R (it\<lparr>current_index := j\<rparr>) = Some it'" "bi_good R lim it'"
    "bi_keep_all_versions it' = ?keep" "bi_block it' = Some b" "bi_rest R it' = deliver ?keep lim (drop j ?es)"
    using skip_correct [of "it\<lparr>current_index := j\<rparr>" b lim R] b j(2) by auto
  ultimately show "\<exists>j. BlockIterator_next R it = Some j \<and> bi_good R lim j \<and> bi_rest R j = es \<and> bi_block j = bi_block it \<and>
      bi_keep_all_versions j = bi_keep_all_versions it"
    using b(1) e(2) j(3) by simp
qed

lemma block_rest_empty:
  assumes "bi_good R lim it"
  shows "BlockIterator_is_end it = Some (bi_rest R it = [])"
proof -
  obtain b where b: "bi_block it = Some b" "bi_tranc_id it = lim" "current_index it \<le> length (offsets b)"
    "current_index it < length (offsets b) \<longrightarrow> may_see lim (block_entries R b ! current_index it)"
    using assms by (auto simp: bi_good_def)
  then show ?thesis
    by (cases "current_index it < length (offsets b)") (auto simp: BlockIterator_is_end_def bi_rest_def drop_entry)
qed

interpretation block: base_iterator "block_ops R" "bi_good R lim" "bi_rest R" lim for R lim
proof unfold_locales
  fix it assume g: "bi_good R lim it"
  show "it_is_end (block_ops R) it \<longleftrightarrow> bi_rest R it = []" "it_is_valid (block_ops R) it \<longleftrightarrow> bi_rest R it \<noteq> []"
    using block_rest_empty [OF g] by (simp_all add: block_ops_def)
  show "it_tranc_id (block_ops R) it \<le> lim" if "lim \<noteq> 0"
    using g that by (auto simp: block_ops_def bi_good_def BlockIterator_get_cur_tranc_id_def may_see_def
        nth_block_entries get_entry_at_def)
  fix e es assume r: "bi_rest R it = e # es"
  obtain it' where "BlockIterator_deref R it = Some (fst e, it')" using block_next_correct(3) [OF g r] by blast
  then show "it_deref (block_ops R) it = Some (fst e)" by (simp add: block_ops_def)
  show "it_tranc_id (block_ops R) it = snd e"
    "\<exists>j. it_next (block_ops R) it = Some j \<and> bi_good R lim j \<and> bi_rest R j = es"
    using block_next_correct(1,2) [OF g r] by (auto simp: block_ops_def)
qed

lemma block_new_correct:
  "\<exists>it. BlockIterator_new R (Some b) 0 lim keep = Some it \<and> bi_good R lim it \<and> bi_block it = Some b \<and>
    bi_keep_all_versions it = keep \<and> bi_rest R it = deliver keep lim (block_entries R b)"
  using skip_correct [of "\<lparr>bi_block = Some b, current_index = 0, bi_tranc_id = lim, bi_cached_value = None,
      bi_keep_all_versions = keep\<rparr>" b lim R]
  by (auto simp: BlockIterator_new_def)

subsection \<open>Properties\<close>

text \<open>
  C29: an iteration over a block in builder order ends and delivers, in strictly increasing key order,
  exactly the newest version of each key that the transaction may see; with all versions kept it
  delivers all visible entries. Every read is in range, and the cached value is always the current one.
\<close>

theorem block_iterates:
  assumes "sorted_wrt strictly_before (block_entries R b)"
  shows "(\<exists>it es. BlockIterator_new R (Some b) 0 lim False = Some it \<and> iterate (block_ops R) it = Some es \<and>
      sorted_wrt (<) (map (\<lambda>e. fst (fst e)) es) \<and>
      (\<forall>e. e \<in> set es \<longleftrightarrow> e \<in> set (block_entries R b) \<and> may_see lim e \<and>
        (\<forall>x\<in>set (block_entries R b). fst (fst x) = fst (fst e) \<and> may_see lim x \<longrightarrow> snd x \<le> snd e))) \<and>
    (\<exists>it. BlockIterator_new R (Some b) 0 lim True = Some it \<and>
      iterate (block_ops R) it = Some (filter (may_see lim) (block_entries R b)))"
proof
  obtain it where it: "BlockIterator_new R (Some b) 0 lim False = Some it" "bi_good R lim it"
    "bi_rest R it = deliver False lim (block_entries R b)" using block_new_correct by blast
  have "iterate (block_ops R) it = Some (deliver False lim (block_entries R b))"
    using block.iterate_rest [OF it(2)] it(3) by simp
  then show "\<exists>it es. BlockIterator_new R (Some b) 0 lim False = Some it \<and> iterate (block_ops R) it = Some es \<and>
      sorted_wrt (<) (map (\<lambda>e. fst (fst e)) es) \<and>
      (\<forall>e. e \<in> set es \<longleftrightarrow> e \<in> set (block_entries R b) \<and> may_see lim e \<and>
        (\<forall>x\<in>set (block_entries R b). fst (fst x) = fst (fst e) \<and> may_see lim x \<longrightarrow> snd x \<le> snd e))"
    using it(1) deliver_keys_sorted [OF assms, of lim] deliver_newest [OF assms, of _ lim] by auto
next
  obtain it where it: "BlockIterator_new R (Some b) 0 lim True = Some it" "bi_good R lim it"
    "bi_rest R it = deliver True lim (block_entries R b)" using block_new_correct by blast
  then show "\<exists>it. BlockIterator_new R (Some b) 0 lim True = Some it \<and>
      iterate (block_ops R) it = Some (filter (may_see lim) (block_entries R b))"
    using block.iterate_rest [OF it(2)] deliver_keep by simp
qed

text \<open>A reader over a block whose data section holds at each offset the index of an entry, for examples.\<close>

definition sample_reader :: "iter_entry list \<Rightarrow> block_reader" where
  "sample_reader es = \<lparr>get_key_at = (\<lambda>b i. ientry_key (es ! i)), get_value_at = (\<lambda>b i. snd (fst (es ! i))),
     get_tranc_id_at = (\<lambda>b i. snd (es ! i)), get_idx_binary = (\<lambda>b k t. None)\<rparr>"

lemma block_iterates_witness:
  "\<exists>it es. BlockIterator_new (sample_reader [((''a'', ''2''), 7), ((''a'', ''1''), 3)])
      (Some \<lparr>blk_data = [], offsets = [0, 1], blk_capacity = 9\<rparr>) 0 5 False = Some it \<and>
    iterate (block_ops (sample_reader [((''a'', ''2''), 7), ((''a'', ''1''), 3)])) it = Some es \<and> ((''a'', ''1''), 3) \<in> set es"
proof -
  let ?R = "sample_reader [((''a'', ''2''), 7), ((''a'', ''1''), 3)]"
  let ?b = "\<lparr>blk_data = [], offsets = [0, 1], blk_capacity = 9\<rparr>"
  have e: "block_entries ?R ?b = [((''a'', ''2''), 7), ((''a'', ''1''), 3)]"
    by (simp add: block_entries_def sample_reader_def get_entry_at_def)
  show ?thesis using block_iterates [of ?R ?b 5] unfolding e
    by (auto simp: strictly_before_def may_see_def)
qed

text \<open>\<open>get_offset_at\<close> lets the index one past the last offset through its range check.\<close>

lemma get_offset_at_past_end: "get_offset_at b (length (offsets b)) = None"
  by (simp add: get_offset_at_def)

end
