(* ===== verification/Level_Iter.thy ===== *)
theory Level_Iter
  imports Two_Merge
begin

text \<open>
  The iterator over the whole database of \<^verbatim>\<open>src/lsm/level_iterator.cpp\<close>: a vector of iterators, the
  memory table first, then level 0, then one per deeper level, of which an earlier one has priority.
  The elements of the vector are any iterators with the operations of \<^verbatim>\<open>BaseIterator\<close>. A thrown
  exception ("Level_Iterator is invalid") is \<^const>\<open>None\<close> here, as is an undefined operation. The read lock the
  iterator holds is left out; \<^verbatim>\<open>operator->\<close> and the comparison with another iterator are in \<open>Iter_Compare\<close>.
\<close>

record 'i Level_Iterator =
  iter_vec :: "'i list"
  li_cur_idx :: nat
  li_max_tranc_id :: u64
  li_cached_value :: "(string \<times> string) option"

fun min_loop ::
    "'i BaseIterator \<Rightarrow> u64 \<Rightarrow> 'i list \<Rightarrow> nat \<Rightarrow> 'i list \<Rightarrow> nat \<Rightarrow> string \<Rightarrow> (nat \<times> string) option" where
  "min_loop I max_id vec i [] min_idx min_key = Some (min_idx, min_key)"
| "min_loop I max_id vec i (it # its) min_idx min_key =
     (if \<not> it_is_valid I it then min_loop I max_id vec (Suc i) its min_idx min_key
      else do {
        (key, _) \<leftarrow> it_deref I it;
        if min_key = [] then min_loop I max_id vec (Suc i) its i key
        else do {
          m \<leftarrow> nth_opt vec min_idx;
          (key', _) \<leftarrow> it_deref I m;
          if key < key' then min_loop I max_id vec (Suc i) its i key
          else if key = min_key \<and> max_id \<noteq> 0 \<and> it_tranc_id I m < it_tranc_id I it
          then min_loop I max_id vec (Suc i) its i min_key
          else min_loop I max_id vec (Suc i) its min_idx min_key } })"

definition get_min_key_idx :: "'i BaseIterator \<Rightarrow> 'i Level_Iterator \<Rightarrow> (nat \<times> string) option" where
  "get_min_key_idx I l = min_loop I (li_max_tranc_id l) (iter_vec l) 0 (iter_vec l) 0 []"

partial_function (option) skip_key_one :: "'i BaseIterator \<Rightarrow> string \<Rightarrow> 'i \<Rightarrow> 'i option" where
  "skip_key_one I key i =
     (if it_is_valid I i
      then do { (k, _) \<leftarrow> it_deref I i;
                if k = key then do { j \<leftarrow> it_next I i; skip_key_one I key j } else Some i }
      else Some i)"

fun skip_key_all :: "'i BaseIterator \<Rightarrow> string \<Rightarrow> 'i list \<Rightarrow> 'i list option" where
  "skip_key_all I key [] = Some []"
| "skip_key_all I key (i # is) =
     do { i \<leftarrow> skip_key_one I key i; is \<leftarrow> skip_key_all I key is; Some (i # is) }"

definition skip_key :: "'i BaseIterator \<Rightarrow> string \<Rightarrow> 'i Level_Iterator \<Rightarrow> 'i Level_Iterator option" where
  "skip_key I key l = do { v \<leftarrow> skip_key_all I key (iter_vec l); Some (l\<lparr>iter_vec := v\<rparr>) }"

definition li_update_current :: "'i BaseIterator \<Rightarrow> 'i Level_Iterator \<Rightarrow> 'i Level_Iterator option" where
  "li_update_current I l =
     do { i \<leftarrow> nth_opt (iter_vec l) (li_cur_idx l);
          if \<not> it_is_valid I i then None
          else do { kv \<leftarrow> it_deref I i; Some (l\<lparr>li_cached_value := Some kv\<rparr>) } }"

definition Level_Iterator_is_end :: "'i BaseIterator \<Rightarrow> 'i Level_Iterator \<Rightarrow> bool" where
  "Level_Iterator_is_end I l \<longleftrightarrow> (\<forall>i\<in>set (iter_vec l). \<not> it_is_valid I i)"

definition Level_Iterator_is_valid :: "'i BaseIterator \<Rightarrow> 'i Level_Iterator \<Rightarrow> bool" where
  "Level_Iterator_is_valid I l \<longleftrightarrow> \<not> Level_Iterator_is_end I l"

text \<open>The loop of the constructor and of \<^verbatim>\<open>operator++\<close> that looks for the next key that is not deleted.\<close>

partial_function (option) li_settle :: "'i BaseIterator \<Rightarrow> 'i Level_Iterator \<Rightarrow> 'i Level_Iterator option" where
  "li_settle I l =
     (if Level_Iterator_is_end I l then Some l
      else do {
        (min_idx, _) \<leftarrow> get_min_key_idx I l;
        l \<leftarrow> li_update_current I (l\<lparr>li_cur_idx := min_idx\<rparr>);
        (key, value) \<leftarrow> li_cached_value l;
        if value = [] then do { l \<leftarrow> skip_key I key l; li_settle I l } else Some l })"

text \<open>The end of the constructor, once the vector of iterators is filled.\<close>

definition Level_Iterator_new :: "'i BaseIterator \<Rightarrow> 'i list \<Rightarrow> u64 \<Rightarrow> 'i Level_Iterator option" where
  "Level_Iterator_new I vec max_id =
     li_settle I \<lparr>iter_vec = vec, li_cur_idx = 0, li_max_tranc_id = max_id, li_cached_value = None\<rparr>"

definition Level_Iterator_next :: "'i BaseIterator \<Rightarrow> 'i Level_Iterator \<Rightarrow> 'i Level_Iterator option" where
  "Level_Iterator_next I l =
     do { (key, _) \<leftarrow> li_cached_value l; l \<leftarrow> skip_key I key l; li_settle I l }"

definition Level_Iterator_deref :: "'i Level_Iterator \<Rightarrow> (string \<times> string) option" where
  "Level_Iterator_deref l = li_cached_value l"

definition Level_Iterator_get_tranc_id :: "'i Level_Iterator \<Rightarrow> u64" where
  "Level_Iterator_get_tranc_id l = li_max_tranc_id l"

definition level_ops :: "'i BaseIterator \<Rightarrow> 'i Level_Iterator BaseIterator" where
  "level_ops I =
     \<lparr>it_is_end = Level_Iterator_is_end I, it_is_valid = Level_Iterator_is_valid I,
      it_deref = Level_Iterator_deref, it_next = Level_Iterator_next I,
      it_tranc_id = Level_Iterator_get_tranc_id\<rparr>"

subsection \<open>Specification\<close>

text \<open>What a key maps to in a vector of sources: the value of the first source that has it.\<close>

definition levels_view :: "iter_entry list list \<Rightarrow> string \<rightharpoonup> string" where
  "levels_view Rs = foldr (\<lambda>R m. m ++ map_of (map fst R)) Rs Map.empty"

definition level_keys :: "iter_entry list list \<Rightarrow> string set" where
  "level_keys Rs = (\<Union>R\<in>set Rs. ientry_key ` set R)"

text \<open>The entries the database delivers: all keys in order, except those whose value is a deletion mark.\<close>

definition level_entries :: "u64 \<Rightarrow> iter_entry list list \<Rightarrow> iter_entry list" where
  "level_entries lim Rs =
     map (\<lambda>k. ((k, the (levels_view Rs k)), lim))
       (filter (\<lambda>k. levels_view Rs k \<noteq> Some []) (sorted_list_of_set (level_keys Rs)))"

lemma finite_level_keys [simp]: "finite (level_keys Rs)"
  by (simp add: level_keys_def)

lemma levels_view_simps [simp]:
  "levels_view [] = Map.empty" "levels_view (R # Rs) = levels_view Rs ++ map_of (map fst R)"
  by (simp_all add: levels_view_def)

lemma level_keys_simps [simp]:
  "level_keys [] = {}" "level_keys (R # Rs) = ientry_key ` set R \<union> level_keys Rs"
  by (auto simp: level_keys_def)

lemma dom_levels_view: "dom (levels_view Rs) = level_keys Rs"
  by (induction Rs) (auto simp: dom_map_of_conv_image_fst image_image)

lemma level_entries_sorted: "keys_sorted (level_entries lim Rs)"
proof -
  have "sorted_wrt (<) (sorted_list_of_set (level_keys Rs))" by (rule strict_sorted_list_of_set)
  then show ?thesis by (simp add: level_entries_def comp_def sorted_wrt_filter)
qed

lemma level_entries_lookup:
  "map_of (map fst (level_entries lim Rs)) k = (if levels_view Rs k = Some [] then None else levels_view Rs k)"
proof -
  let ?ks = "filter (\<lambda>k. levels_view Rs k \<noteq> Some []) (sorted_list_of_set (level_keys Rs))"
  have in_view: "k \<in> level_keys Rs \<longleftrightarrow> levels_view Rs k \<noteq> None" using dom_levels_view [of Rs] by (auto simp: domIff)
  have "map_of (map fst (level_entries lim Rs)) k = map_of (map (\<lambda>k. (k, the (levels_view Rs k))) ?ks) k"
    by (simp add: level_entries_def comp_def)
  also have "\<dots> = (if k \<in> set ?ks then Some (the (levels_view Rs k)) else None)"
    by (simp add: map_of_map_restrict restrict_map_def)
  also have "\<dots> = (if levels_view Rs k = Some [] then None else levels_view Rs k)"
    using in_view by (cases "levels_view Rs k") simp_all
  finally show ?thesis .
qed

text \<open>Removing the smallest key from all sources.\<close>

lemma drop_key_sorted:
  assumes "keys_sorted R" "\<forall>e\<in>set R. k \<le> ientry_key e"
  shows "drop_key k R = filter (\<lambda>e. ientry_key e \<noteq> k) R"
  using assms
proof (induction R)
  case (Cons e R)
  show ?case
  proof (cases "ientry_key e = k")
    case True
    with Cons show ?thesis by simp
  next
    case False
    with Cons.prems have "\<forall>x\<in>set R. ientry_key x \<noteq> k" by force
    then have "filter (\<lambda>e. ientry_key e \<noteq> k) R = R" by (simp add: filter_id_conv)
    with False show ?thesis by simp
  qed
qed simp

lemma map_of_filter_key: "map_of (map fst (filter (\<lambda>e. ientry_key e \<noteq> k) R)) = (map_of (map fst R))(k := None)"
  by (induction R) (auto simp: fun_eq_iff)

lemma drop_key_levels:
  assumes "\<forall>R\<in>set Rs. keys_sorted R" "\<forall>k'\<in>level_keys Rs. k \<le> k'"
  shows "levels_view (map (drop_key k) Rs) = (levels_view Rs)(k := None)"
    and "level_keys (map (drop_key k) Rs) = level_keys Rs - {k}"
proof -
  have "levels_view (map (drop_key k) Rs) = (levels_view Rs)(k := None) \<and>
    level_keys (map (drop_key k) Rs) = level_keys Rs - {k}"
    using assms
  proof (induction Rs)
    case (Cons R Rs)
    then have d: "drop_key k R = filter (\<lambda>e. ientry_key e \<noteq> k) R" by (intro drop_key_sorted) auto
    from Cons have "levels_view (map (drop_key k) Rs) = (levels_view Rs)(k := None)"
      "level_keys (map (drop_key k) Rs) = level_keys Rs - {k}" by auto
    with d show ?case by (auto simp: map_of_filter_key fun_eq_iff map_add_def split: option.splits)
  qed simp
  then show "levels_view (map (drop_key k) Rs) = (levels_view Rs)(k := None)"
    "level_keys (map (drop_key k) Rs) = level_keys Rs - {k}" by simp_all
qed

lemma level_entries_step:
  assumes "\<forall>R\<in>set Rs. keys_sorted R" "k \<in> level_keys Rs" "\<forall>k'\<in>level_keys Rs. k \<le> k'"
  shows "level_entries lim Rs =
    (if levels_view Rs k = Some [] then [] else [((k, the (levels_view Rs k)), lim)]) @
    level_entries lim (map (drop_key k) Rs)"
proof -
  let ?S = "level_keys Rs - {k}"
  have S: "level_keys Rs = insert k ?S" using assms(2) by auto
  have less: "\<forall>x\<in>?S. k < x" using assms(3) by (auto simp: less_le)
  have ks: "sorted_list_of_set (level_keys Rs) = k # sorted_list_of_set ?S"
    by (subst S) (use less in \<open>simp add: insort_is_Cons less_imp_le\<close>)
  show ?thesis unfolding level_entries_def drop_key_levels [OF assms(1,3)]
    by (subst ks) (auto intro!: map_cong filter_cong)
qed

subsection \<open>The iterator delivers the entries\<close>

definition source_ok :: "u64 \<Rightarrow> iter_entry list \<Rightarrow> bool" where
  "source_ok lim R \<longleftrightarrow> keys_sorted R \<and> (\<forall>e\<in>set R. ientry_key e \<noteq> [] \<and> snd e = lim)"

lemma source_ok_drop: "source_ok lim R \<Longrightarrow> source_ok lim (drop_key k R)"
proof -
  assume ok: "source_ok lim R"
  have "sorted_wrt (<) (dropWhile P xs)" if "sorted_wrt (<) xs" for P and xs :: "string list"
    using that by (induction xs) auto
  then have "sorted_wrt (<) (dropWhile (\<lambda>x. x = k) (map ientry_key R))" using ok by (simp add: source_ok_def)
  then show ?thesis using ok by (auto simp: source_ok_def dropWhile_map comp_def dest: set_dropWhileD)
qed

text \<open>The index the search of the smallest key returns: its first occurrence as the first entry of a source.\<close>

definition least_head :: "iter_entry list list \<Rightarrow> nat \<Rightarrow> nat \<Rightarrow> string \<Rightarrow> bool" where
  "least_head Rs n j k \<longleftrightarrow>
     (if k = [] then \<forall>i<n. Rs ! i = []
      else j < n \<and> Rs ! j \<noteq> [] \<and> ientry_key (hd (Rs ! j)) = k \<and>
        (\<forall>i<n. Rs ! i \<noteq> [] \<longrightarrow> k \<le> ientry_key (hd (Rs ! i))) \<and>
        (\<forall>i<j. Rs ! i \<noteq> [] \<longrightarrow> k < ientry_key (hd (Rs ! i))))"

lemma least_head_Suc:
  assumes "least_head Rs n j k" "n < length Rs"
  shows "Rs ! n = [] \<Longrightarrow> least_head Rs (Suc n) j k"
    and "Rs ! n \<noteq> [] \<Longrightarrow> k = [] \<Longrightarrow> ientry_key (hd (Rs ! n)) \<noteq> [] \<Longrightarrow>
      least_head Rs (Suc n) n (ientry_key (hd (Rs ! n)))"
    and "Rs ! n \<noteq> [] \<Longrightarrow> k \<noteq> [] \<Longrightarrow> ientry_key (hd (Rs ! n)) < k \<Longrightarrow> ientry_key (hd (Rs ! n)) \<noteq> [] \<Longrightarrow>
      least_head Rs (Suc n) n (ientry_key (hd (Rs ! n)))"
    and "Rs ! n \<noteq> [] \<Longrightarrow> k \<noteq> [] \<Longrightarrow> \<not> ientry_key (hd (Rs ! n)) < k \<Longrightarrow> least_head Rs (Suc n) j k"
  using assms by (fastforce simp: least_head_def less_Suc_eq split: if_splits)+

text \<open>A source that is found first: its first entry decides the key.\<close>

lemma least_head_view:
  assumes "least_head Rs (length Rs) j k" "k \<noteq> []" "\<forall>R\<in>set Rs. keys_sorted R"
  shows "\<forall>k'\<in>level_keys Rs. k \<le> k'" and "levels_view Rs k = Some (snd (fst (hd (Rs ! j))))" and "k \<in> level_keys Rs"
proof -
  from assms have j: "j < length Rs" "Rs ! j \<noteq> []" "ientry_key (hd (Rs ! j)) = k"
    and le: "\<And>i. i < length Rs \<Longrightarrow> Rs ! i \<noteq> [] \<Longrightarrow> k \<le> ientry_key (hd (Rs ! i))"
    and less: "\<And>i. i < j \<Longrightarrow> Rs ! i \<noteq> [] \<Longrightarrow> k < ientry_key (hd (Rs ! i))"
    by (auto simp: least_head_def)
  have hd_le: "keys_sorted R \<Longrightarrow> e \<in> set R \<Longrightarrow> ientry_key (hd R) \<le> ientry_key e" for R :: "iter_entry list" and e
    by (cases R) auto
  show "\<forall>k'\<in>level_keys Rs. k \<le> k'"
  proof
    fix k' assume "k' \<in> level_keys Rs"
    then obtain i e where "i < length Rs" "e \<in> set (Rs ! i)" "k' = ientry_key e"
      by (auto simp: level_keys_def in_set_conv_nth) (metis in_set_conv_nth fst_conv)
    moreover have "Rs ! i \<noteq> []" using calculation by auto
    ultimately show "k \<le> k'" using le [of i] hd_le [of "Rs ! i" e] assms(3) by fastforce
  qed
  have view: "levels_view Rs k = Some (snd (fst (hd (Rs ! j))))"
    if "j < length Rs" "Rs ! j \<noteq> []" "ientry_key (hd (Rs ! j)) = k" "\<And>i. i < j \<Longrightarrow> k \<notin> ientry_key ` set (Rs ! i)"
    for Rs j using that
  proof (induction Rs arbitrary: j)
    case (Cons R Rs)
    show ?case
    proof (cases j)
      case 0
      then obtain e R' where "R = e # R'" "ientry_key e = k" using Cons.prems by (cases R) auto
      then show ?thesis using 0 by (cases e) auto
    next
      case (Suc i)
      have "map_of (map fst R) k = None" using Cons.prems(4) [of 0] Suc by (force simp: map_of_eq_None_iff)
      then show ?thesis
        using Cons.IH [of i] Cons.prems(1-3) Cons.prems(4) [of "Suc _"] Suc by (simp add: map_add_def)
    qed
  qed simp
  show *: "levels_view Rs k = Some (snd (fst (hd (Rs ! j))))"
  proof (rule view [OF j])
    fix i assume i: "i < j"
    show "k \<notin> ientry_key ` set (Rs ! i)"
    proof
      assume "k \<in> ientry_key ` set (Rs ! i)"
      then obtain e where e: "e \<in> set (Rs ! i)" "ientry_key e = k" by auto
      then have "Rs ! i \<noteq> []" by auto
      then show False using less [OF i] hd_le [of "Rs ! i" e] assms(3) e i j(1) by fastforce
    qed
  qed
  then show "k \<in> level_keys Rs" using dom_levels_view [of Rs] by auto
qed

definition vec_ok :: "('i \<Rightarrow> bool) \<Rightarrow> ('i \<Rightarrow> iter_entry list) \<Rightarrow> u64 \<Rightarrow> 'i list \<Rightarrow> bool" where
  "vec_ok good rest lim vec \<longleftrightarrow> (\<forall>i\<in>set vec. good i \<and> source_ok lim (rest i))"

text \<open>The states between two operations: exhausted, or with the smallest key and its value cached.\<close>

definition li_good :: "('i \<Rightarrow> bool) \<Rightarrow> ('i \<Rightarrow> iter_entry list) \<Rightarrow> u64 \<Rightarrow> 'i Level_Iterator \<Rightarrow> bool" where
  "li_good good rest lim l \<longleftrightarrow>
     vec_ok good rest lim (iter_vec l) \<and> li_max_tranc_id l = lim \<and>
     (let Rs = map rest (iter_vec l)
      in level_keys Rs = {} \<or>
         (\<exists>k v. li_cached_value l = Some (k, v) \<and> v \<noteq> [] \<and> k \<in> level_keys Rs \<and>
            (\<forall>k'\<in>level_keys Rs. k \<le> k') \<and> levels_view Rs k = Some v))"

definition li_rest :: "('i \<Rightarrow> iter_entry list) \<Rightarrow> 'i Level_Iterator \<Rightarrow> iter_entry list" where
  "li_rest rest l = level_entries (li_max_tranc_id l) (map rest (iter_vec l))"

locale level_iterator = base_iterator I good rest limit
  for I :: "'i BaseIterator" and good rest limit
begin

lemma min_loop_correct:
  assumes "vec_ok good rest limit vec" "vec = pre @ its" "least_head (map rest vec) (length pre) j k"
  shows "\<exists>j' k'. min_loop I m vec (length pre) its j k = Some (j', k') \<and> least_head (map rest vec) (length vec) j' k'"
  using assms(2,3)
proof (induction its arbitrary: pre j k)
  case (Cons it its)
  let ?n = "length pre"
  have n: "?n < length (map rest vec)" "map rest vec ! ?n = rest it" using Cons.prems(1) by (simp_all add: nth_append)
  have it: "good it" "source_ok limit (rest it)" using assms(1) Cons.prems(1) by (auto simp: vec_ok_def)
  note step = least_head_Suc [OF Cons.prems(2) n(1), unfolded n(2)]
  have IH: "\<exists>j' k'. min_loop I m vec (Suc ?n) its j1 k1 = Some (j', k') \<and> least_head (map rest vec) (length vec) j' k'"
    if "least_head (map rest vec) (Suc ?n) j1 k1" for j1 k1
    using Cons.IH [of "pre @ [it]" j1 k1] Cons.prems(1) that by simp
  show ?case
  proof (cases "rest it")
    case Nil
    then show ?thesis using IH [OF step(1) [OF Nil]] it by simp
  next
    case e: (Cons e es)
    have d: "it_deref I it = Some (fst e)" "it_tranc_id I it = limit" "ientry_key e \<noteq> []"
      using deref [OF it(1) e] tranc [OF it(1) e] it(2) e by (auto simp: source_ok_def)
    show ?thesis
    proof (cases "k = []")
      case True
      then show ?thesis using IH [OF step(2)] it e d by (simp add: case_prod_unfold)
    next
      case False
      then have j: "j < ?n" "rest (vec ! j) \<noteq> []" "ientry_key (hd (rest (vec ! j))) = k"
        using Cons.prems(2) n(1) by (auto simp: least_head_def)
      then have vj: "good (vec ! j)" "source_ok limit (rest (vec ! j))" "j < length vec"
        using assms(1) n(1) by (auto simp: vec_ok_def)
      obtain e' es' where e': "rest (vec ! j) = e' # es'" using j(2) by (cases "rest (vec ! j)") auto
      have d': "it_deref I (vec ! j) = Some (fst e')" "it_tranc_id I (vec ! j) = limit" "ientry_key e' = k"
        using deref [OF vj(1) e'] tranc [OF vj(1) e'] vj(2) e' j(3) by (auto simp: source_ok_def)
      show ?thesis
      proof (cases "ientry_key e < k")
        case True
        then show ?thesis using IH [OF step(3)] it e d d' vj(3) False by (simp add: case_prod_unfold)
      next
        case ge: False
        then show ?thesis using IH [OF step(4)] it e d d' vj(3) False by (simp add: case_prod_unfold)
      qed
    qed
  qed
qed auto

lemma skip_key_one_correct:
  "good i \<Longrightarrow> \<exists>j. skip_key_one I k i = Some j \<and> good j \<and> rest j = drop_key k (rest i)"
proof (induction "rest i" arbitrary: i)
  case Nil
  then show ?case by (subst skip_key_one.simps) simp
next
  case (Cons e es)
  obtain j where j: "it_next I i = Some j" "good j" "rest j = es" using advance [of i e es] Cons by auto
  have d: "it_deref I i = Some (fst e)" using deref [of i e es] Cons by simp
  show ?case using Cons.hyps(1) [of j] Cons.prems Cons.hyps(2) [symmetric] j d
    by (subst skip_key_one.simps) (simp add: case_prod_unfold)
qed

lemma skip_key_all_correct:
  "vec_ok good rest limit vec \<Longrightarrow> \<exists>vec'. skip_key_all I k vec = Some vec' \<and> vec_ok good rest limit vec' \<and>
    map rest vec' = map (drop_key k) (map rest vec)"
proof (induction vec)
  case (Cons i vec)
  obtain j where j: "skip_key_one I k i = Some j" "good j" "rest j = drop_key k (rest i)"
    using skip_key_one_correct [of i k] Cons.prems by (auto simp: vec_ok_def)
  with Cons show ?case using source_ok_drop [of limit "rest i" k] by (fastforce simp: vec_ok_def)
qed (simp add: vec_ok_def)

lemma is_end_keys:
  "vec_ok good rest limit (iter_vec l) \<Longrightarrow> Level_Iterator_is_end I l \<longleftrightarrow> level_keys (map rest (iter_vec l)) = {}"
  by (auto simp: Level_Iterator_is_end_def vec_ok_def level_keys_def)

lemma find_min:
  assumes "vec_ok good rest limit (iter_vec l)" "li_max_tranc_id l = limit" "\<not> Level_Iterator_is_end I l"
  defines "Rs \<equiv> map rest (iter_vec l)"
  shows "\<exists>j k v. get_min_key_idx I l = Some (j, k) \<and>
    li_update_current I (l\<lparr>li_cur_idx := j\<rparr>) = Some (l\<lparr>li_cur_idx := j, li_cached_value := Some (k, v)\<rparr>) \<and>
    k \<in> level_keys Rs \<and> (\<forall>k'\<in>level_keys Rs. k \<le> k') \<and> levels_view Rs k = Some v"
proof -
  obtain j k where jk: "get_min_key_idx I l = Some (j, k)" "least_head Rs (length Rs) j k"
    using min_loop_correct [OF assms(1), of "[]" "iter_vec l" 0 "[]" "li_max_tranc_id l"]
    by (auto simp: get_min_key_idx_def least_head_def Rs_def)
  have k: "k \<noteq> []"
  proof
    assume "k = []"
    then have "\<forall>R\<in>set Rs. R = []" using jk(2) by (auto simp: least_head_def in_set_conv_nth)
    then show False using assms(3) is_end_keys [OF assms(1)] by (auto simp: level_keys_def Rs_def)
  qed
  have sorted: "\<forall>R\<in>set Rs. keys_sorted R" using assms(1) by (auto simp: vec_ok_def source_ok_def Rs_def)
  note lh = least_head_view [OF jk(2) k sorted]
  have j: "j < length (iter_vec l)" "rest (iter_vec l ! j) \<noteq> []" "ientry_key (hd (rest (iter_vec l ! j))) = k"
    using jk(2) k by (auto simp: least_head_def Rs_def)
  then have good: "good (iter_vec l ! j)" using assms(1) by (auto simp: vec_ok_def)
  obtain e es where e: "rest (iter_vec l ! j) = e # es" using j(2) by (cases "rest (iter_vec l ! j)") auto
  have "it_deref I (iter_vec l ! j) = Some (k, snd (fst e))" using deref [OF good e] j(3) e by (cases "fst e") simp
  then have "li_update_current I (l\<lparr>li_cur_idx := j\<rparr>) = Some (l\<lparr>li_cur_idx := j, li_cached_value := Some (k, snd (fst e))\<rparr>)"
    using j(1) good e by (simp add: li_update_current_def)
  moreover have "levels_view Rs k = Some (snd (fst e))" using lh(2) j(1) e by (simp add: Rs_def)
  ultimately show ?thesis using jk(1) lh(1,3) by blast
qed

lemma settle_correct:
  assumes "vec_ok good rest limit (iter_vec l)" "li_max_tranc_id l = limit"
  shows "\<exists>l'. li_settle I l = Some l' \<and> li_good good rest limit l' \<and>
    li_rest rest l' = level_entries limit (map rest (iter_vec l))"
  using assms
proof (induction "card (level_keys (map rest (iter_vec l)))" arbitrary: l rule: less_induct)
  case less
  let ?Rs = "map rest (iter_vec l)"
  show ?case
  proof (cases "Level_Iterator_is_end I l")
    case True
    then have "level_keys ?Rs = {}" using is_end_keys [OF less.prems(1)] by simp
    then show ?thesis using True less.prems
      by (subst li_settle.simps) (simp add: li_good_def li_rest_def)
  next
    case False
    obtain j k v where f: "get_min_key_idx I l = Some (j, k)"
      "li_update_current I (l\<lparr>li_cur_idx := j\<rparr>) = Some (l\<lparr>li_cur_idx := j, li_cached_value := Some (k, v)\<rparr>)"
      "k \<in> level_keys ?Rs" "\<forall>k'\<in>level_keys ?Rs. k \<le> k'" "levels_view ?Rs k = Some v"
      using find_min [OF less.prems False] by blast
    let ?l = "l\<lparr>li_cur_idx := j, li_cached_value := Some (k, v)\<rparr>"
    show ?thesis
    proof (cases "v = []")
      case True
      obtain vec' where vec': "skip_key_all I k (iter_vec l) = Some vec'" "vec_ok good rest limit vec'"
        "map rest vec' = map (drop_key k) ?Rs" using skip_key_all_correct [OF less.prems(1)] by blast
      let ?l' = "?l\<lparr>iter_vec := vec'\<rparr>"
      have sorted: "\<forall>R\<in>set ?Rs. keys_sorted R" using less.prems(1) by (auto simp: vec_ok_def source_ok_def)
      have keys: "level_keys (map rest vec') = level_keys ?Rs - {k}"
        unfolding vec'(3) by (rule drop_key_levels) (use sorted f(4) in auto)
      then have "card (level_keys (map rest vec')) < card (level_keys ?Rs)"
        unfolding keys using f(3) by (intro card_Diff1_less) simp_all
      then obtain l' where "li_settle I ?l' = Some l'" "li_good good rest limit l'"
        "li_rest rest l' = level_entries limit (map rest vec')"
        using less.hyps [of ?l'] less.prems(2) vec'(2) by auto
      moreover have "level_entries limit ?Rs = level_entries limit (map rest vec')"
        using level_entries_step [OF sorted f(3,4)] f(5) True vec'(3) by simp
      moreover have "li_settle I l = li_settle I ?l'"
        using False f True vec'(1) by (subst li_settle.simps) (simp add: skip_key_def)
      ultimately show ?thesis by auto
    next
      case v: False
      have "li_settle I l = Some ?l" using False f v by (subst li_settle.simps) simp
      then show ?thesis using less.prems f v by (auto simp: li_good_def li_rest_def)
    qed
  qed
qed

lemma step_correct:
  assumes "li_good good rest limit l" "li_rest rest l = e # es"
  shows "Level_Iterator_deref l = Some (fst e) \<and> snd e = limit \<and>
    (\<exists>l'. Level_Iterator_next I l = Some l' \<and> li_good good rest limit l' \<and> li_rest rest l' = es)"
proof -
  let ?Rs = "map rest (iter_vec l)"
  have ok: "vec_ok good rest limit (iter_vec l)" "li_max_tranc_id l = limit" using assms(1) by (auto simp: li_good_def)
  have "level_keys ?Rs \<noteq> {}" using assms(2) by (auto simp: li_rest_def level_entries_def)
  then obtain k v where kv: "li_cached_value l = Some (k, v)" "v \<noteq> []" "k \<in> level_keys ?Rs"
    "\<forall>k'\<in>level_keys ?Rs. k \<le> k'" "levels_view ?Rs k = Some v"
    using assms(1) by (auto simp: li_good_def Let_def)
  have sorted: "\<forall>R\<in>set ?Rs. keys_sorted R" using ok(1) by (auto simp: vec_ok_def source_ok_def)
  obtain vec' where vec': "skip_key_all I k (iter_vec l) = Some vec'" "vec_ok good rest limit vec'"
    "map rest vec' = map (drop_key k) ?Rs" using skip_key_all_correct [OF ok(1)] by blast
  have es: "e = ((k, v), limit)" "es = level_entries limit (map rest vec')"
    using level_entries_step [OF sorted kv(3,4), of limit] kv(2,5) assms(2) ok(2) vec'(3) by (auto simp: li_rest_def)
  show ?thesis
    using settle_correct [of "l\<lparr>iter_vec := vec'\<rparr>"] vec' ok(2) kv(1) es
    by (auto simp: Level_Iterator_next_def Level_Iterator_deref_def skip_key_def)
qed

end

sublocale level_iterator \<subseteq> li: base_iterator "level_ops I" "li_good good rest limit" "li_rest rest" limit
proof unfold_locales
  fix l assume g: "li_good good rest limit l"
  then have ok: "vec_ok good rest limit (iter_vec l)" "li_max_tranc_id l = limit" by (auto simp: li_good_def)
  have "li_rest rest l = [] \<longleftrightarrow> level_keys (map rest (iter_vec l)) = {}"
    using g by (auto simp: li_rest_def level_entries_def li_good_def Let_def filter_empty_conv)
  then show "it_is_end (level_ops I) l \<longleftrightarrow> li_rest rest l = []" "it_is_valid (level_ops I) l \<longleftrightarrow> li_rest rest l \<noteq> []"
    using is_end_keys [OF ok(1)] by (simp_all add: level_ops_def Level_Iterator_is_valid_def)
  show "it_tranc_id (level_ops I) l \<le> limit" using ok(2) by (simp add: level_ops_def Level_Iterator_get_tranc_id_def)
  fix e es assume r: "li_rest rest l = e # es"
  show "it_deref (level_ops I) l = Some (fst e)" "it_tranc_id (level_ops I) l = snd e"
    "\<exists>j. it_next (level_ops I) l = Some j \<and> li_good good rest limit j \<and> li_rest rest j = es"
    using step_correct [OF g r] ok(2) by (auto simp: level_ops_def Level_Iterator_get_tranc_id_def)
qed

end
