(* ===== verification/Sst_Iter.thy ===== *)
theory Sst_Iter
  imports Block_Iter Level_Iter Block_Meta
begin

text \<open>
  Iterators over sorted tables (\<^verbatim>\<open>src/sst/sst_iterator.cpp\<close>, \<^verbatim>\<open>src/sst/concact_iterator.cpp\<close> and the
  finished parts of \<^verbatim>\<open>src/sst/sst.cpp\<close>). Reading a block from the file, the search for the block of a
  key and \<^verbatim>\<open>SST::begin\<close> are not written yet in the repository; they are the parameter \<open>sst_reader\<close>,
  and \<open>stub_sst_reader\<close> is what their bodies do today. The value log a table points to is the
  function that reads a value at an offset.

  \<^const>\<open>None\<close> stands for a thrown exception, a null dereference or an out-of-range read. Two copies
  of an iterator share their block iterator in the C++ program; the model has one owner.
\<close>

subsection \<open>Tables\<close>

record SST =
  sst_id :: nat
  sst_meta_entries :: "BlockMeta list"
  sst_first_key :: string
  sst_last_key :: string
  sst_min_tranc_id :: u64
  sst_max_tranc_id :: u64
  storage_mode :: u8
  sst_vlog :: "(u64 \<Rightarrow> u32 \<Rightarrow> string) option"

datatype sst_error = VlogIsNull

definition num_blocks :: "SST \<Rightarrow> nat" where
  "num_blocks s = length (sst_meta_entries s)"

definition get_tranc_id_range :: "SST \<Rightarrow> u64 \<times> u64" where
  "get_tranc_id_range s = (sst_min_tranc_id s, sst_max_tranc_id s)"

definition is_wisckey :: "SST \<Rightarrow> bool" where
  "is_wisckey s \<longleftrightarrow> storage_mode s = 1"

definition resolve_value :: "SST \<Rightarrow> string \<Rightarrow> sst_error + string" where
  "resolve_value s raw_value =
     (if storage_mode s = 0 \<or> raw_value = [] then Inr raw_value
      else if length raw_value < 12 then Inr raw_value
      else let off = dec64 (string_bytes (take 8 raw_value));
               sz = dec32 (string_bytes (take 4 (drop 8 raw_value)))
           in case sst_vlog s of None \<Rightarrow> Inl VlogIsNull | Some read_value \<Rightarrow> Inr (read_value off sz))"

definition resolved :: "SST \<Rightarrow> string \<Rightarrow> string option" where
  "resolved s raw_value = (case resolve_value s raw_value of Inl _ \<Rightarrow> None | Inr v \<Rightarrow> Some v)"

subsection \<open>The table iterator\<close>

record SstIterator =
  m_sst :: "SST option"
  m_block_idx :: nat
  si_max_tranc_id :: u64
  m_block_it :: "BlockIterator option"
  si_cached_value :: "(string \<times> string) option"
  si_keep_all_versions :: bool

record sst_reader =
  blk_reader :: block_reader
  read_block :: "SST \<Rightarrow> nat \<Rightarrow> Block option"
  find_block_idx :: "SST \<Rightarrow> string \<Rightarrow> int"
  sst_begin :: "SST \<Rightarrow> u64 \<Rightarrow> bool \<Rightarrow> SstIterator option"

definition stub_sst_reader :: sst_reader where
  "stub_sst_reader = \<lparr>blk_reader = stub_reader, read_block = (\<lambda>s block_idx. None), find_block_idx = (\<lambda>s key. 0),
     sst_begin = (\<lambda>s tranc_id keep. None)\<rparr>"

definition seek_first :: "sst_reader \<Rightarrow> SstIterator \<Rightarrow> SstIterator option" where
  "seek_first R it =
     (case m_sst it of
        None \<Rightarrow> Some (it\<lparr>m_block_it := None\<rparr>)
      | Some s \<Rightarrow>
          if num_blocks s = 0 then Some (it\<lparr>m_block_it := None\<rparr>)
          else do { bi \<leftarrow> BlockIterator_new (blk_reader R) (read_block R s 0) 0 (si_max_tranc_id it) (si_keep_all_versions it);
                    Some (it\<lparr>m_block_idx := 0, m_block_it := Some bi\<rparr>) })"

definition seek :: "sst_reader \<Rightarrow> SstIterator \<Rightarrow> string \<Rightarrow> SstIterator option" where
  "seek R it key =
     (case m_sst it of
        None \<Rightarrow> Some (it\<lparr>m_block_it := None\<rparr>)
      | Some s \<Rightarrow>
          let idx = find_block_idx R s key
          in if idx < 0 \<or> int (num_blocks s) \<le> idx
             then Some (it\<lparr>m_block_it := None, m_block_idx := num_blocks s\<rparr>)
             else (case read_block R s (nat idx) of
                     None \<Rightarrow> Some (it\<lparr>m_block_idx := nat idx, m_block_it := None\<rparr>)
                   | Some b \<Rightarrow>
                       do { bi \<leftarrow> BlockIterator_seek (blk_reader R) (Some b) key (si_max_tranc_id it) (si_keep_all_versions it);
                            e \<leftarrow> BlockIterator_is_end bi;
                            Some (if e then it\<lparr>m_block_idx := num_blocks s, m_block_it := None\<rparr>
                                  else it\<lparr>m_block_idx := nat idx, m_block_it := Some bi\<rparr>) }))"

definition si_init :: "SST option \<Rightarrow> u64 \<Rightarrow> bool \<Rightarrow> SstIterator" where
  "si_init s tranc_id keep = \<lparr>m_sst = s, m_block_idx = 0, si_max_tranc_id = tranc_id, m_block_it = None,
     si_cached_value = None, si_keep_all_versions = keep\<rparr>"

definition SstIterator_new :: "sst_reader \<Rightarrow> SST option \<Rightarrow> u64 \<Rightarrow> bool \<Rightarrow> SstIterator option" where
  "SstIterator_new R s tranc_id keep =
     (case s of None \<Rightarrow> Some (si_init s tranc_id keep) | Some _ \<Rightarrow> seek_first R (si_init s tranc_id keep))"

definition SstIterator_new_at :: "sst_reader \<Rightarrow> SST option \<Rightarrow> string \<Rightarrow> u64 \<Rightarrow> bool \<Rightarrow> SstIterator option" where
  "SstIterator_new_at R s key tranc_id keep =
     (case s of None \<Rightarrow> Some (si_init s tranc_id keep) | Some _ \<Rightarrow> seek R (si_init s tranc_id keep) key)"

definition SstIterator_next :: "sst_reader \<Rightarrow> SstIterator \<Rightarrow> SstIterator option" where
  "SstIterator_next R it =
     (case m_block_it it of
        None \<Rightarrow> Some it
      | Some bi \<Rightarrow>
          do { bi \<leftarrow> BlockIterator_next (blk_reader R) bi;
               e \<leftarrow> BlockIterator_is_end bi;
               if \<not> e then Some (it\<lparr>m_block_it := Some bi\<rparr>)
               else do {
                 s \<leftarrow> m_sst it;
                 let idx = Suc (m_block_idx it);
                 if idx < num_blocks s
                 then do { bi \<leftarrow> BlockIterator_new (blk_reader R) (read_block R s idx) 0 (si_max_tranc_id it)
                                   (si_keep_all_versions it);
                           Some (it\<lparr>m_block_idx := idx, m_block_it := Some bi\<rparr>) }
                 else Some (it\<lparr>m_block_idx := idx, m_block_it := None\<rparr>) } })"

definition SstIterator_is_end :: "SstIterator \<Rightarrow> bool" where
  "SstIterator_is_end it \<longleftrightarrow> m_block_it it = None"

definition SstIterator_is_valid :: "SstIterator \<Rightarrow> bool" where
  "SstIterator_is_valid it \<longleftrightarrow>
     (case (m_block_it it, m_sst it) of
        (Some bi, Some s) \<Rightarrow> BlockIterator_is_end bi = Some False \<and> m_block_idx it < num_blocks s
      | _ \<Rightarrow> False)"

definition SstIterator_deref :: "sst_reader \<Rightarrow> SstIterator \<Rightarrow> (string \<times> string) option" where
  "SstIterator_deref R it =
     do { bi \<leftarrow> m_block_it it;
          ((key, raw), _) \<leftarrow> BlockIterator_deref (blk_reader R) bi;
          s \<leftarrow> m_sst it;
          v \<leftarrow> resolved s raw;
          Some (key, v) }"

definition SstIterator_key :: "sst_reader \<Rightarrow> SstIterator \<Rightarrow> string option" where
  "SstIterator_key R it =
     do { bi \<leftarrow> m_block_it it; (kv, _) \<leftarrow> BlockIterator_arrow (blk_reader R) bi; Some (fst kv) }"

definition SstIterator_value :: "sst_reader \<Rightarrow> SstIterator \<Rightarrow> string option" where
  "SstIterator_value R it =
     do { bi \<leftarrow> m_block_it it; (kv, _) \<leftarrow> BlockIterator_arrow (blk_reader R) bi; s \<leftarrow> m_sst it; resolved s (snd kv) }"

definition SstIterator_get_tranc_id :: "sst_reader \<Rightarrow> SstIterator \<Rightarrow> u64" where
  "SstIterator_get_tranc_id R it =
     (case m_block_it it of
        Some bi \<Rightarrow> if si_keep_all_versions it then BlockIterator_get_cur_tranc_id (blk_reader R) bi else si_max_tranc_id it
      | None \<Rightarrow> si_max_tranc_id it)"

definition SstIterator_get_cur_tranc_id :: "sst_reader \<Rightarrow> SstIterator \<Rightarrow> u64" where
  "SstIterator_get_cur_tranc_id R it =
     (case m_block_it it of None \<Rightarrow> 0 | Some bi \<Rightarrow> BlockIterator_get_cur_tranc_id (blk_reader R) bi)"

text \<open>\<^verbatim>\<open>operator->\<close>: the cached pair, filled once. No operation of the iterator clears it.\<close>

definition si_update_current :: "sst_reader \<Rightarrow> SstIterator \<Rightarrow> SstIterator option" where
  "si_update_current R it =
     (case (si_cached_value it, m_block_it it) of
        (None, Some bi) \<Rightarrow>
          do { e \<leftarrow> BlockIterator_is_end bi;
               if e then Some it
               else do { kv \<leftarrow> SstIterator_deref R it; Some (it\<lparr>si_cached_value := Some kv\<rparr>) } }
      | _ \<Rightarrow> Some it)"

definition SstIterator_arrow :: "sst_reader \<Rightarrow> SstIterator \<Rightarrow> ((string \<times> string) \<times> SstIterator) option" where
  "SstIterator_arrow R it = do { it \<leftarrow> si_update_current R it; kv \<leftarrow> si_cached_value it; Some (kv, it) }"

definition sst_ops :: "sst_reader \<Rightarrow> SstIterator BaseIterator" where
  "sst_ops R =
     \<lparr>it_is_end = SstIterator_is_end, it_is_valid = SstIterator_is_valid, it_deref = SstIterator_deref R,
      it_next = SstIterator_next R, it_tranc_id = SstIterator_get_tranc_id R\<rparr>"

text \<open>
  \<^verbatim>\<open>SstIterator::merge_sst_iterator\<close>: all entries of the iterators pushed into one heap iterator that
  keeps deletion marks. The index is the negated id converted to \<^verbatim>\<open>int\<close>.
\<close>

definition neg_id :: "nat \<Rightarrow> int" where
  "neg_id i = sint (- (of_nat i) :: 32 word)"

partial_function (option) merge_push :: "sst_reader \<Rightarrow> SstIterator \<Rightarrow> SearchItem list \<Rightarrow> SearchItem list option" where
  "merge_push R it q =
     (if SstIterator_is_valid it \<and> \<not> SstIterator_is_end it
      then do { k \<leftarrow> SstIterator_key R it;
                (_, v) \<leftarrow> SstIterator_deref R it;
                s \<leftarrow> m_sst it;
                let item = \<lparr>si_key = k, si_value = v, si_tranc_id = SstIterator_get_cur_tranc_id R it,
                            si_idx = neg_id (sst_id s), si_level = 0\<rparr>;
                it \<leftarrow> SstIterator_next R it;
                merge_push R it (pq_push item q) }
      else Some q)"

fun merge_push_all :: "sst_reader \<Rightarrow> SstIterator list \<Rightarrow> SearchItem list \<Rightarrow> SearchItem list option" where
  "merge_push_all R [] q = Some q"
| "merge_push_all R (it # its) q = do { q \<leftarrow> merge_push R it q; merge_push_all R its q }"

definition merge_sst_iterator :: "sst_reader \<Rightarrow> SstIterator list \<Rightarrow> u64 \<Rightarrow> bool \<Rightarrow> HeapIterator option" where
  "merge_sst_iterator R its tranc_id keep =
     (if its = [] then Some \<lparr>items = [], max_tranc_id = 0, skip_delete = True, keep_all_versions = False\<rparr>
      else do { q \<leftarrow> merge_push_all R its [];
                Some \<lparr>items = q, max_tranc_id = 0, skip_delete = False, keep_all_versions = keep\<rparr> })"

subsection \<open>The concatenating iterator\<close>

record ConcactIterator =
  con_cur_iter :: SstIterator
  con_cur_idx :: nat
  con_ssts :: "SST list"
  con_max_tranc_id :: u64
  con_keep_all_versions :: bool

definition ConcactIterator_new :: "sst_reader \<Rightarrow> SST list \<Rightarrow> u64 \<Rightarrow> bool \<Rightarrow> ConcactIterator option" where
  "ConcactIterator_new R ssts tranc_id keep =
     do { cur \<leftarrow> (case ssts of [] \<Rightarrow> Some (si_init None tranc_id False) | s # _ \<Rightarrow> sst_begin R s tranc_id keep);
          Some \<lparr>con_cur_iter = cur, con_cur_idx = 0, con_ssts = ssts, con_max_tranc_id = tranc_id,
                con_keep_all_versions = keep\<rparr> }"

definition ConcactIterator_next :: "sst_reader \<Rightarrow> ConcactIterator \<Rightarrow> ConcactIterator option" where
  "ConcactIterator_next R c =
     do { cur \<leftarrow> SstIterator_next R (con_cur_iter c);
          if SstIterator_is_end cur \<or> \<not> SstIterator_is_valid cur
          then let idx = Suc (con_cur_idx c)
               in if idx < length (con_ssts c)
                  then do { cur \<leftarrow> sst_begin R (con_ssts c ! idx) (con_max_tranc_id c) (con_keep_all_versions c);
                            Some (c\<lparr>con_cur_iter := cur, con_cur_idx := idx\<rparr>) }
                  else Some (c\<lparr>con_cur_iter := si_init None (con_max_tranc_id c) False, con_cur_idx := idx\<rparr>)
          else Some (c\<lparr>con_cur_iter := cur\<rparr>) }"

definition ConcactIterator_deref :: "sst_reader \<Rightarrow> ConcactIterator \<Rightarrow> (string \<times> string) option" where
  "ConcactIterator_deref R c = SstIterator_deref R (con_cur_iter c)"

definition ConcactIterator_get_tranc_id :: "sst_reader \<Rightarrow> ConcactIterator \<Rightarrow> u64" where
  "ConcactIterator_get_tranc_id R c =
     (if con_keep_all_versions c then SstIterator_get_tranc_id R (con_cur_iter c) else con_max_tranc_id c)"

definition ConcactIterator_is_end :: "ConcactIterator \<Rightarrow> bool" where
  "ConcactIterator_is_end c \<longleftrightarrow> SstIterator_is_end (con_cur_iter c) \<or> \<not> SstIterator_is_valid (con_cur_iter c)"

definition ConcactIterator_is_valid :: "ConcactIterator \<Rightarrow> bool" where
  "ConcactIterator_is_valid c \<longleftrightarrow> \<not> SstIterator_is_end (con_cur_iter c) \<and> SstIterator_is_valid (con_cur_iter c)"

definition concact_ops :: "sst_reader \<Rightarrow> ConcactIterator BaseIterator" where
  "concact_ops R =
     \<lparr>it_is_end = ConcactIterator_is_end, it_is_valid = ConcactIterator_is_valid, it_deref = ConcactIterator_deref R,
      it_next = ConcactIterator_next R, it_tranc_id = ConcactIterator_get_tranc_id R\<rparr>"

subsection \<open>What a table delivers\<close>

text \<open>The visible entries of the blocks from \<open>i\<close> on, and the form in which the iterator presents an entry.\<close>

definition si_present :: "SST \<Rightarrow> bool \<Rightarrow> u64 \<Rightarrow> iter_entry \<Rightarrow> iter_entry" where
  "si_present s keep lim e = ((ientry_key e, the (resolved s (snd (fst e)))), if keep then snd e else lim)"

definition block_at :: "sst_reader \<Rightarrow> SST \<Rightarrow> bool \<Rightarrow> u64 \<Rightarrow> nat \<Rightarrow> iter_entry list" where
  "block_at R s keep lim i =
     (case read_block R s i of None \<Rightarrow> [] | Some b \<Rightarrow> deliver keep lim (block_entries (blk_reader R) b))"

definition blocks_from :: "sst_reader \<Rightarrow> SST \<Rightarrow> bool \<Rightarrow> u64 \<Rightarrow> nat \<Rightarrow> iter_entry list" where
  "blocks_from R s keep lim i = concat (map (block_at R s keep lim) [i..<num_blocks s])"

definition sst_entries :: "sst_reader \<Rightarrow> bool \<Rightarrow> u64 \<Rightarrow> SST \<Rightarrow> iter_entry list" where
  "sst_entries R keep lim s = map (si_present s keep lim) (blocks_from R s keep lim 0)"

text \<open>
  A table that can be iterated: it has blocks, all of them can be read, every block has an entry the
  reader may see, and the values can be resolved.
\<close>

definition table_ok :: "sst_reader \<Rightarrow> bool \<Rightarrow> u64 \<Rightarrow> SST \<Rightarrow> bool" where
  "table_ok R keep lim s \<longleftrightarrow>
     0 < num_blocks s \<and>
     (\<forall>i<num_blocks s. \<exists>b. read_block R s i = Some b \<and> deliver keep lim (block_entries (blk_reader R) b) \<noteq> [] \<and>
        (\<forall>e\<in>set (block_entries (blk_reader R) b). \<exists>v. resolved s (snd (fst e)) = Some v))"

lemma blocks_from_step:
  "i < num_blocks s \<Longrightarrow> blocks_from R s keep lim i = block_at R s keep lim i @ blocks_from R s keep lim (Suc i)"
  by (simp add: blocks_from_def upt_conv_Cons)

lemma blocks_from_end: "num_blocks s \<le> i \<Longrightarrow> blocks_from R s keep lim i = []"
  by (simp add: blocks_from_def)

definition si_good :: "sst_reader \<Rightarrow> bool \<Rightarrow> u64 \<Rightarrow> SstIterator \<Rightarrow> bool" where
  "si_good R keep lim it \<longleftrightarrow>
     si_max_tranc_id it = lim \<and>
     (case m_block_it it of
        None \<Rightarrow> True
      | Some bi \<Rightarrow>
          si_keep_all_versions it = keep \<and> bi_keep_all_versions bi = keep \<and> bi_good (blk_reader R) lim bi \<and>
          bi_rest (blk_reader R) bi \<noteq> [] \<and>
          (\<exists>s b. m_sst it = Some s \<and> table_ok R keep lim s \<and> m_block_idx it < num_blocks s \<and>
             read_block R s (m_block_idx it) = Some b \<and> bi_block bi = Some b))"

definition si_rest :: "sst_reader \<Rightarrow> SstIterator \<Rightarrow> iter_entry list" where
  "si_rest R it =
     (case (m_block_it it, m_sst it) of
        (Some bi, Some s) \<Rightarrow>
          map (si_present s (si_keep_all_versions it) (si_max_tranc_id it))
            (bi_rest (blk_reader R) bi @
             blocks_from R s (si_keep_all_versions it) (si_max_tranc_id it) (Suc (m_block_idx it)))
      | _ \<Rightarrow> [])"

text \<open>Entering block \<open>i\<close> of a table.\<close>

lemma enter_block:
  assumes "table_ok R keep lim s" "i < num_blocks s"
  shows "\<exists>b bi. read_block R s i = Some b \<and> BlockIterator_new (blk_reader R) (Some b) 0 lim keep = Some bi \<and>
    bi_good (blk_reader R) lim bi \<and> bi_keep_all_versions bi = keep \<and> bi_block bi = Some b \<and>
    bi_rest (blk_reader R) bi = block_at R s keep lim i \<and> block_at R s keep lim i \<noteq> []"
proof -
  obtain b where "read_block R s i = Some b" "deliver keep lim (block_entries (blk_reader R) b) \<noteq> []"
    using assms unfolding table_ok_def by blast
  then show ?thesis using block_new_correct [of "blk_reader R" b lim keep] by (fastforce simp: block_at_def)
qed

lemma sst_new_correct:
  assumes "table_ok R keep lim s"
  shows "\<exists>it. SstIterator_new R (Some s) lim keep = Some it \<and> si_good R keep lim it \<and>
    si_rest R it = sst_entries R keep lim s \<and> si_rest R it \<noteq> []"
proof -
  have n: "0 < num_blocks s" using assms by (simp add: table_ok_def)
  obtain b bi where bi: "read_block R s 0 = Some b" "BlockIterator_new (blk_reader R) (Some b) 0 lim keep = Some bi"
    "bi_good (blk_reader R) lim bi" "bi_keep_all_versions bi = keep" "bi_block bi = Some b"
    "bi_rest (blk_reader R) bi = block_at R s keep lim 0" "block_at R s keep lim 0 \<noteq> []"
    using enter_block [OF assms n] by blast
  show ?thesis using bi n assms blocks_from_step [OF n, of R keep lim]
    by (simp add: SstIterator_new_def seek_first_def si_init_def si_good_def si_rest_def sst_entries_def)
qed

lemma deliver_member:
  "bi_block bi = Some b \<Longrightarrow> x \<in> set (bi_rest R bi) \<Longrightarrow> x \<in> set (block_entries R b)"
  using deliver_subset [of "bi_keep_all_versions bi" "bi_tranc_id bi" "drop (current_index bi) (block_entries R b)"]
    set_drop_subset [of "current_index bi" "block_entries R b"] by (auto simp: bi_rest_def)

lemma sst_step_correct:
  assumes "si_good R keep lim it" "si_rest R it = e # es"
  shows "SstIterator_deref R it = Some (fst e)" and "SstIterator_get_tranc_id R it = snd e"
    and "\<exists>j. SstIterator_next R it = Some j \<and> si_good R keep lim j \<and> si_rest R j = es"
proof -
  let ?B = "blk_reader R"
  obtain bi s b where bi: "m_block_it it = Some bi" "m_sst it = Some s" "si_keep_all_versions it = keep"
      "si_max_tranc_id it = lim" "bi_keep_all_versions bi = keep" "bi_good ?B lim bi" "bi_rest ?B bi \<noteq> []"
      "table_ok R keep lim s" "m_block_idx it < num_blocks s" "read_block R s (m_block_idx it) = Some b" "bi_block bi = Some b"
    using assms by (auto simp: si_good_def si_rest_def split: option.splits)
  obtain x xs where x: "bi_rest ?B bi = x # xs" using bi(7) by (cases "bi_rest ?B bi") auto
  have e: "e = si_present s keep lim x"
    "es = map (si_present s keep lim) (xs @ blocks_from R s keep lim (Suc (m_block_idx it)))"
    using assms(2) bi x by (auto simp: si_rest_def)
  have "x \<in> set (block_entries ?B b)" using deliver_member [OF bi(11)] x by simp
  then obtain v where v: "resolved s (snd (fst x)) = Some v" using bi(8-10) unfolding table_ok_def by fastforce
  note step = block_next_correct [OF bi(6) x]
  show "SstIterator_get_tranc_id R it = snd e"
    using bi(1,3,4) step(2) e(1) by (simp add: SstIterator_get_tranc_id_def si_present_def)
  obtain bi' where "BlockIterator_deref ?B bi = Some (fst x, bi')" using step(3) by blast
  then show "SstIterator_deref R it = Some (fst e)"
    using bi(1,2) e(1) v by (cases "fst x") (simp add: SstIterator_deref_def si_present_def)
  obtain bi' where bi': "BlockIterator_next ?B bi = Some bi'" "bi_good ?B lim bi'" "bi_rest ?B bi' = xs"
    "bi_block bi' = Some b" "bi_keep_all_versions bi' = keep" using step(1) bi(5,11) by auto
  have end_bi: "BlockIterator_is_end bi' = Some (xs = [])" using block_rest_empty [OF bi'(2)] bi'(3) by simp
  let ?i = "Suc (m_block_idx it)"
  show "\<exists>j. SstIterator_next R it = Some j \<and> si_good R keep lim j \<and> si_rest R j = es"
  proof (cases "xs = []")
    case False
    then show ?thesis using bi bi' end_bi e(2) by (auto simp: SstIterator_next_def si_good_def si_rest_def)
  next
    case True
    show ?thesis
    proof (cases "?i < num_blocks s")
      case i: True
      obtain b2 bi2 where b2: "read_block R s ?i = Some b2" "BlockIterator_new ?B (Some b2) 0 lim keep = Some bi2"
        "bi_good ?B lim bi2" "bi_keep_all_versions bi2 = keep" "bi_block bi2 = Some b2"
        "bi_rest ?B bi2 = block_at R s keep lim ?i" "block_at R s keep lim ?i \<noteq> []"
        using enter_block [OF bi(8) i] by blast
      have "SstIterator_next R it = Some (it\<lparr>m_block_idx := ?i, m_block_it := Some bi2\<rparr>)"
        using True bi bi' b2 end_bi i by (simp add: SstIterator_next_def)
      moreover have "es = map (si_present s keep lim) (bi_rest ?B bi2 @ blocks_from R s keep lim (Suc ?i))"
        using e(2) True b2(6) blocks_from_step [OF i, of R keep lim] by simp
      ultimately show ?thesis using bi b2 i by (simp add: si_good_def si_rest_def)
    next
      case i: False
      then show ?thesis using True bi bi' end_bi e(2) blocks_from_end [of s ?i R keep lim]
        by (simp add: SstIterator_next_def si_good_def si_rest_def)
    qed
  qed
qed

lemma sst_rest_empty:
  assumes "si_good R keep lim it"
  shows "SstIterator_is_end it \<longleftrightarrow> si_rest R it = []" and "SstIterator_is_valid it \<longleftrightarrow> si_rest R it \<noteq> []"
  using assms block_rest_empty [of "blk_reader R" lim "the (m_block_it it)"]
  by (auto simp: SstIterator_is_end_def SstIterator_is_valid_def si_good_def si_rest_def split: option.splits)

interpretation sst: base_iterator "sst_ops R" "si_good R keep lim" "si_rest R" lim for R keep lim
proof unfold_locales
  fix it assume g: "si_good R keep lim it"
  show "it_is_end (sst_ops R) it \<longleftrightarrow> si_rest R it = []" "it_is_valid (sst_ops R) it \<longleftrightarrow> si_rest R it \<noteq> []"
    using sst_rest_empty [OF g] by (simp_all add: sst_ops_def)
  show "it_tranc_id (sst_ops R) it \<le> lim" if "lim \<noteq> 0"
    using g that block.visible [of "blk_reader R" lim "the (m_block_it it)"]
    by (auto simp: sst_ops_def SstIterator_get_tranc_id_def si_good_def block_ops_def split: option.splits)
  fix e es assume r: "si_rest R it = e # es"
  show "it_deref (sst_ops R) it = Some (fst e)" "it_tranc_id (sst_ops R) it = snd e"
    "\<exists>j. it_next (sst_ops R) it = Some j \<and> si_good R keep lim j \<and> si_rest R j = es"
    using sst_step_correct [OF g r] by (simp_all add: sst_ops_def)
qed

subsection \<open>Concatenation\<close>

text \<open>What the comment on \<^verbatim>\<open>SST::begin\<close> asks of it: it opens an iterator at the first entry.\<close>

definition opens_at_first :: "sst_reader \<Rightarrow> bool" where
  "opens_at_first R \<longleftrightarrow> (\<forall>s tranc_id keep. sst_begin R s tranc_id keep = SstIterator_new R (Some s) tranc_id keep)"

definition con_good :: "sst_reader \<Rightarrow> bool \<Rightarrow> u64 \<Rightarrow> ConcactIterator \<Rightarrow> bool" where
  "con_good R keep lim c \<longleftrightarrow>
     opens_at_first R \<and> con_max_tranc_id c = lim \<and> con_keep_all_versions c = keep \<and>
     (\<forall>s\<in>set (con_ssts c). table_ok R keep lim s) \<and> si_good R keep lim (con_cur_iter c) \<and>
     (si_rest R (con_cur_iter c) = [] \<longrightarrow> length (con_ssts c) \<le> Suc (con_cur_idx c))"

definition con_rest :: "sst_reader \<Rightarrow> ConcactIterator \<Rightarrow> iter_entry list" where
  "con_rest R c =
     si_rest R (con_cur_iter c) @
     concat (map (sst_entries R (con_keep_all_versions c) (con_max_tranc_id c)) (drop (Suc (con_cur_idx c)) (con_ssts c)))"

lemma null_iterator: "si_good R keep lim (si_init None lim False)" "si_rest R (si_init None lim False) = []"
  by (simp_all add: si_good_def si_rest_def si_init_def)

lemma concact_new_correct:
  assumes "opens_at_first R" "\<forall>s\<in>set ssts. table_ok R keep lim s"
  shows "\<exists>c. ConcactIterator_new R ssts lim keep = Some c \<and> con_good R keep lim c \<and>
    con_rest R c = concat (map (sst_entries R keep lim) ssts)"
proof (cases ssts)
  case Nil
  then show ?thesis using assms null_iterator(1) [of R keep lim] null_iterator(2) [of R lim]
    by (auto simp: ConcactIterator_new_def con_good_def con_rest_def)
next
  case (Cons s ss)
  then obtain it where "SstIterator_new R (Some s) lim keep = Some it" "si_good R keep lim it"
    "si_rest R it = sst_entries R keep lim s" "si_rest R it \<noteq> []"
    using sst_new_correct [of R keep lim s] assms(2) by auto
  then show ?thesis using assms Cons by (auto simp: ConcactIterator_new_def con_good_def con_rest_def opens_at_first_def)
qed

lemma concact_step_correct:
  assumes "con_good R keep lim c" "con_rest R c = e # es"
  shows "ConcactIterator_deref R c = Some (fst e)" and "ConcactIterator_get_tranc_id R c = snd e"
    and "\<exists>j. ConcactIterator_next R c = Some j \<and> con_good R keep lim j \<and> con_rest R j = es"
proof -
  let ?cur = "con_cur_iter c" and ?i = "Suc (con_cur_idx c)"
  note g = assms(1) [unfolded con_good_def]
  have "si_rest R ?cur \<noteq> []" using assms g by (auto simp: con_rest_def)
  then obtain xs where x: "si_rest R ?cur = e # xs"
      "es = xs @ concat (map (sst_entries R keep lim) (drop ?i (con_ssts c)))"
    using assms g by (cases "si_rest R ?cur") (auto simp: con_rest_def)
  have gs: "si_good R keep lim ?cur" using g by simp
  note step = sst_step_correct [OF gs x(1)]
  show "ConcactIterator_deref R c = Some (fst e)" using step(1) by (simp add: ConcactIterator_deref_def)
  have "SstIterator_get_tranc_id R ?cur = lim" if "\<not> keep" using gs x(1) that
    by (auto simp: SstIterator_get_tranc_id_def si_good_def split: option.splits)
  then show "ConcactIterator_get_tranc_id R c = snd e" using step(2) g by (auto simp: ConcactIterator_get_tranc_id_def)
  obtain j where j: "SstIterator_next R ?cur = Some j" "si_good R keep lim j" "si_rest R j = xs" using step(3) by blast
  note ends = sst_rest_empty [OF j(2), unfolded j(3)]
  show "\<exists>j. ConcactIterator_next R c = Some j \<and> con_good R keep lim j \<and> con_rest R j = es"
  proof (cases "xs = []")
    case False
    then show ?thesis using j ends g x(2) by (auto simp: ConcactIterator_next_def con_good_def con_rest_def)
  next
    case True
    show ?thesis
    proof (cases "?i < length (con_ssts c)")
      case i: True
      let ?s = "con_ssts c ! ?i"
      have ok: "table_ok R keep lim ?s" using g i by auto
      obtain it where it: "SstIterator_new R (Some ?s) lim keep = Some it" "si_good R keep lim it"
        "si_rest R it = sst_entries R keep lim ?s" "si_rest R it \<noteq> []" using sst_new_correct [OF ok] by blast
      have "drop ?i (con_ssts c) = ?s # drop (Suc ?i) (con_ssts c)" using i by (simp add: Cons_nth_drop_Suc)
      then show ?thesis using True j ends g x(2) i it
        by (auto simp: ConcactIterator_next_def con_good_def con_rest_def opens_at_first_def)
    next
      case i: False
      then show ?thesis using True j ends g x(2) null_iterator(1) [of R keep lim] null_iterator(2) [of R lim]
        by (auto simp: ConcactIterator_next_def con_good_def con_rest_def)
    qed
  qed
qed

interpretation concact: base_iterator "concact_ops R" "con_good R keep lim" "con_rest R" lim for R keep lim
proof unfold_locales
  fix c assume g: "con_good R keep lim c"
  then have s: "si_good R keep lim (con_cur_iter c)" by (simp add: con_good_def)
  have "con_rest R c = [] \<longleftrightarrow> si_rest R (con_cur_iter c) = []" using g by (auto simp: con_good_def con_rest_def)
  then show "it_is_end (concact_ops R) c \<longleftrightarrow> con_rest R c = []" "it_is_valid (concact_ops R) c \<longleftrightarrow> con_rest R c \<noteq> []"
    using sst_rest_empty [OF s] by (auto simp: concact_ops_def ConcactIterator_is_end_def ConcactIterator_is_valid_def)
  show "it_tranc_id (concact_ops R) c \<le> lim" if "lim \<noteq> 0"
    using g that sst.visible [OF s]
    by (auto simp: concact_ops_def ConcactIterator_get_tranc_id_def con_good_def sst_ops_def)
  fix e es assume r: "con_rest R c = e # es"
  show "it_deref (concact_ops R) c = Some (fst e)" "it_tranc_id (concact_ops R) c = snd e"
    "\<exists>j. it_next (concact_ops R) c = Some j \<and> con_good R keep lim j \<and> con_rest R j = es"
    using concact_step_correct [OF g r] by (simp_all add: concact_ops_def)
qed

subsection \<open>Properties\<close>


text \<open>Tables with one entry per block, for examples: block \<open>i\<close> holds the entry \<open>es ! i\<close>.\<close>

definition sample_sst_reader :: "iter_entry list \<Rightarrow> sst_reader" where
  "sample_sst_reader es =
     (let R = \<lparr>blk_reader = sample_reader es,
               read_block = (\<lambda>s i. Some \<lparr>blk_data = [], offsets = [of_nat i], blk_capacity = 0\<rparr>),
               find_block_idx = (\<lambda>s key. 0), sst_begin = (\<lambda>s t keep. None)\<rparr>
      in R\<lparr>sst_begin := (\<lambda>s. SstIterator_new R (Some s))\<rparr>)"

definition sample_sst :: "nat \<Rightarrow> nat \<Rightarrow> SST" where
  "sample_sst i n = \<lparr>sst_id = i, sst_meta_entries = replicate n \<lparr>bm_offset = 0, bm_first_key = [], bm_last_key = []\<rparr>,
     sst_first_key = [], sst_last_key = [], sst_min_tranc_id = 0, sst_max_tranc_id = 0, storage_mode = 0, sst_vlog = None\<rparr>"

lemma sample_opens: "opens_at_first (sample_sst_reader es)"
  by (simp add: opens_at_first_def sample_sst_reader_def Let_def SstIterator_new_def seek_first_def fun_eq_iff
      split: option.splits)

lemma sample_table_ok:
  assumes "0 < n" "n \<le> length es" "n < 65536" "\<forall>e\<in>set es. may_see lim e"
  shows "table_ok (sample_sst_reader es) keep lim (sample_sst i n)"
proof -
  have "resolved (sample_sst i n) v = Some v" for v by (simp add: resolved_def resolve_value_def sample_sst_def)
  then show ?thesis using assms
    by (auto simp: table_ok_def sample_sst_reader_def Let_def num_blocks_def sample_sst_def block_entries_def
        sample_reader_def get_entry_at_def)
qed


text \<open>
  The condition on the blocks is needed: an iterator stops at a block whose entries are all newer
  than the reader, although the next block has an entry it may see.
\<close>

lemma sst_iterator_stops_early:
  defines "R \<equiv> sample_sst_reader [((''a'', ''1''), 1), ((''b'', ''2''), 9), ((''c'', ''3''), 1)]"
  shows "(case SstIterator_new R (Some (sample_sst 0 3)) 5 False \<bind> SstIterator_next R of
     None \<Rightarrow> False | Some it \<Rightarrow> \<not> SstIterator_is_valid it \<and> \<not> SstIterator_is_end it)"
  unfolding R_def by code_simp

text \<open>
  \<^verbatim>\<open>operator->\<close> after an advance: for every iterator with a filled cache the old pair comes back, whatever
  the iterator points to.
\<close>

lemma sst_arrow_stale:
  assumes "SstIterator_arrow R it = Some (kv, it1)" "SstIterator_next R it1 = Some it2"
  shows "SstIterator_arrow R it2 = Some (kv, it2)"
proof -
  have "si_cached_value it1 = Some kv" using assms(1) by (auto simp: SstIterator_arrow_def bind_Some_conv)
  moreover have "si_cached_value it2 = si_cached_value it1"
    using assms(2) by (auto simp: SstIterator_next_def bind_Some_conv Let_def split: option.splits if_splits)
  ultimately show ?thesis by (simp add: SstIterator_arrow_def si_update_current_def split: option.splits)
qed

end
