(* ===== verification/Mem_Table.thy ===== *)
theory Mem_Table
  imports Skip_List_Correct
begin

text \<open>
  The memory table of \<^verbatim>\<open>src/memtable/memtable.cpp\<close>: an active skip list and the frozen ones, the newest
  first, with the number of bytes frozen. Written in the repository are the constructor, the batch
  query, \<^verbatim>\<open>clear\<close>, \<^verbatim>\<open>flush_last\<close> and the sizes; the bodies of the other operations are empty, so the
  two lookups the batch query calls are a parameter, and \<open>stub_lookup\<close> is what they do today. The
  table builder \<^verbatim>\<open>flush_last\<close> writes to is a parameter too. Locks are not modelled: each operation is
  one step.
\<close>

record MemTable =
  current_table :: SkipList
  frozen_tables :: "SkipList list"
  frozen_bytes :: u64

text \<open>The default level bound of a skip list.\<close>

definition default_max_level :: nat where
  "default_max_level = 16"

definition MemTable_new :: MemTable where
  "MemTable_new = \<lparr>current_table = SkipList_new default_max_level, frozen_tables = [], frozen_bytes = 0\<rparr>"

record mem_lookup =
  cur_get :: "MemTable \<Rightarrow> string \<Rightarrow> u64 \<Rightarrow> (string \<times> u64) option"
  frozen_get :: "MemTable \<Rightarrow> string \<Rightarrow> u64 \<Rightarrow> (string \<times> u64) option"

definition stub_lookup :: mem_lookup where
  "stub_lookup = \<lparr>cur_get = (\<lambda>m key tranc_id. None), frozen_get = (\<lambda>m key tranc_id. None)\<rparr>"

definition MemTable_get_batch ::
    "mem_lookup \<Rightarrow> MemTable \<Rightarrow> string list \<Rightarrow> u64 \<Rightarrow> (string \<times> (string \<times> u64) option) list" where
  "MemTable_get_batch G m keys tranc_id =
     (let results = map (\<lambda>key. (key, cur_get G m key tranc_id)) keys
      in if \<not> list_ex (\<lambda>r. snd r = None) results then results
         else map (\<lambda>(key, r). case r of Some x \<Rightarrow> (key, Some x) | None \<Rightarrow> (key, frozen_get G m key tranc_id)) results)"

definition MemTable_clear :: "MemTable \<Rightarrow> MemTable" where
  "MemTable_clear m = m\<lparr>frozen_tables := [], current_table := SkipList_clear (current_table m)\<rparr>"

definition get_cur_size :: "MemTable \<Rightarrow> u64" where
  "get_cur_size m = SkipList_get_size (current_table m)"

definition get_frozen_size :: "MemTable \<Rightarrow> u64" where
  "get_frozen_size m = frozen_bytes m"

definition get_total_size :: "MemTable \<Rightarrow> u64" where
  "get_total_size m = get_frozen_size m + get_cur_size m"

record ('b, 's) table_builder =
  bld_add :: "'b \<Rightarrow> string \<Rightarrow> string \<Rightarrow> u64 \<Rightarrow> 'b"
  bld_build :: "'b \<Rightarrow> 's option"

text \<open>The loop over the entries of the flushed table; an empty pair marks a committed transaction.\<close>

fun flush_entries :: "('b, 's) table_builder \<Rightarrow> entry list \<Rightarrow> u64 list \<Rightarrow> 'b \<Rightarrow> u64 list \<times> 'b" where
  "flush_entries B [] flushed_tranc_ids b = (flushed_tranc_ids, b)"
| "flush_entries B ((k, v, t) # es) flushed_tranc_ids b =
     flush_entries B es (if k = [] \<and> v = [] then flushed_tranc_ids @ [t] else flushed_tranc_ids) (bld_add B b k v t)"

definition freeze_if_needed :: "MemTable \<Rightarrow> MemTable" where
  "freeze_if_needed m =
     (if frozen_tables m = []
      then m\<lparr>frozen_tables := [current_table m], frozen_bytes := frozen_bytes m + SkipList_get_size (current_table m),
             current_table := SkipList_new default_max_level\<rparr>
      else m)"

definition flush_last ::
    "('b, 's) table_builder \<Rightarrow> 'b \<Rightarrow> u64 list \<Rightarrow> MemTable \<Rightarrow> ('s option \<times> u64 list \<times> 'b \<times> MemTable) option" where
  "flush_last B b flushed_tranc_ids m =
     (if frozen_tables m = [] \<and> SkipList_get_size (current_table m) = 0 then Some (None, flushed_tranc_ids, b, m)
      else do {
        let m = freeze_if_needed m;
        let table = last (frozen_tables m);
        let m = m\<lparr>frozen_tables := butlast (frozen_tables m), frozen_bytes := frozen_bytes m - SkipList_get_size table\<rparr>;
        flush_data \<leftarrow> SkipList_flush table;
        let (ids, b) = flush_entries B flush_data flushed_tranc_ids b;
        Some (bld_build B b, ids, b, m) })"

text \<open>
  \<^verbatim>\<open>LSM::flush_all\<close>, the loop of the destructor, over the flush of the engine, which writes out the
  oldest table.
\<close>

definition flush_once :: "('b, 's) table_builder \<Rightarrow> 'b \<Rightarrow> MemTable \<Rightarrow> MemTable option" where
  "flush_once B b m = do { (_, _, _, m) \<leftarrow> flush_last B b [] m; Some m }"

partial_function (option) flush_all :: "('m \<Rightarrow> 'm option) \<Rightarrow> ('m \<Rightarrow> u64) \<Rightarrow> 'm \<Rightarrow> 'm option" where
  "flush_all flush total_size m =
     (if 0 < total_size m then do { m \<leftarrow> flush m; flush_all flush total_size m } else Some m)"

subsection \<open>The batch query\<close>

lemma get_batch_pointwise:
  "MemTable_get_batch G m keys t =
     map (\<lambda>k. (k, case cur_get G m k t of Some x \<Rightarrow> Some x | None \<Rightarrow> frozen_get G m k t)) keys"
  by (auto simp: MemTable_get_batch_def Let_def list_ex_iff split: option.splits)

subsection \<open>Flushing\<close>

text \<open>
  The contents of a memory table: the entries of the active list and of the frozen ones, the newest
  list first, with the byte count of the frozen ones.
\<close>

definition mem_abs :: "MemTable \<Rightarrow> entry list \<Rightarrow> entry list list \<Rightarrow> bool" where
  "mem_abs m es ess \<longleftrightarrow>
     sl_abs (current_table m) es \<and> list_all2 sl_abs (frozen_tables m) ess \<and>
     frozen_bytes m = sum_list (map SkipList_get_size (frozen_tables m))"

definition commit_ids :: "entry list \<Rightarrow> u64 list" where
  "commit_ids es = map (\<lambda>(k, v, t). t) (filter (\<lambda>(k, v, t). k = [] \<and> v = []) es)"

lemma flush_entries_spec:
  "flush_entries B es ids b = (ids @ commit_ids es, foldl (\<lambda>b (k, v, t). bld_add B b k v t) b es)"
  by (induction B es ids b rule: flush_entries.induct) (auto simp: commit_ids_def)

lemma mem_abs_new: "mem_abs MemTable_new [] []"
  using sl_abs_new [of default_max_level] by (simp add: mem_abs_def MemTable_new_def default_max_level_def)

lemma freeze_abs:
  assumes "mem_abs m es ess"
  shows "mem_abs (freeze_if_needed m) (if ess = [] then [] else es) (if ess = [] then [es] else ess)"
  using assms sl_abs_new [of default_max_level]
  by (auto simp: mem_abs_def freeze_if_needed_def default_max_level_def list_all2_Cons1)

lemma flush_last_abs:
  fixes B :: "('b, 's) table_builder" and b :: 'b
  assumes "mem_abs m es ess" "frozen_tables m \<noteq> [] \<or> SkipList_get_size (current_table m) \<noteq> 0"
  defines "oldest \<equiv> (if ess = [] then es else last ess)"
  defines "b' \<equiv> foldl (\<lambda>b (k, v, t). bld_add B b k v t) b oldest"
  shows "\<exists>m'. flush_last B b ids m = Some (bld_build B b', ids @ commit_ids oldest, b', m') \<and>
    mem_abs m' (if ess = [] then [] else es) (butlast ess) \<and>
    current_table m' = (if ess = [] then SkipList_new default_max_level else current_table m)"
proof -
  let ?m = "freeze_if_needed m" and ?ess = "if ess = [] then [es] else ess"
  let ?t = "last (frozen_tables ?m)"
  have abs: "mem_abs ?m (if ess = [] then [] else es) ?ess" by (rule freeze_abs) fact
  then have l2: "list_all2 sl_abs (frozen_tables ?m) ?ess" by (simp add: mem_abs_def)
  then have ne: "frozen_tables ?m \<noteq> []" by (auto split: if_splits)
  define ts ees where "ts = butlast (frozen_tables ?m)" and "ees = butlast ?ess"
  have split: "frozen_tables ?m = ts @ [?t]" "?ess = ees @ [last ?ess]"
    using ne by (simp_all add: ts_def ees_def)
  have "list_all2 sl_abs (ts @ [?t]) (ees @ [last ?ess])" using l2 by (simp only: split [symmetric])
  then have t: "sl_abs ?t (last ?ess)" and ts: "list_all2 sl_abs ts ees"
    by (simp_all only: list_all2_snoc)
  have last: "last ?ess = oldest" by (simp add: oldest_def)
  have fl: "SkipList_flush ?t = Some oldest" using flush_abs [OF t] last by simp
  have "frozen_bytes ?m = sum_list (map SkipList_get_size (ts @ [?t]))"
    using abs by (simp only: split(1) [symmetric] mem_abs_def)
  then have bytes: "frozen_bytes ?m - SkipList_get_size ?t = sum_list (map SkipList_get_size ts)" by simp
  let ?m' = "?m\<lparr>frozen_tables := ts, frozen_bytes := frozen_bytes ?m - SkipList_get_size ?t\<rparr>"
  have "flush_last B b ids m = Some (bld_build B b', ids @ commit_ids oldest, b', ?m')"
    using assms(2) fl by (auto simp: ts_def flush_last_def Let_def flush_entries_spec b'_def)
  moreover have "mem_abs ?m' (if ess = [] then [] else es) (butlast ess)"
    using abs ts bytes by (auto simp: mem_abs_def ees_def split: if_splits)
  moreover have "current_table ?m' = (if ess = [] then SkipList_new default_max_level else current_table m)"
    using assms(1) by (auto simp: freeze_if_needed_def mem_abs_def)
  ultimately show ?thesis by blast
qed

subsection \<open>Properties\<close>

text \<open>
  C14: flushing a memory table that holds something gives the builder exactly the entries of its oldest
  list in order (the active list when none is frozen), reports the ids of the transactions whose
  commit marks are among them, and leaves the other lists and an exact byte count.
\<close>

theorem memtable_flush_last:
  assumes "mem_abs m es ess" "frozen_tables m \<noteq> [] \<or> SkipList_get_size (current_table m) \<noteq> 0"
  shows "\<exists>m'. flush_last B b ids m =
      Some (bld_build B (foldl (\<lambda>b (k, v, t). bld_add B b k v t) b (if ess = [] then es else last ess)),
            ids @ commit_ids (if ess = [] then es else last ess),
            foldl (\<lambda>b (k, v, t). bld_add B b k v t) b (if ess = [] then es else last ess), m') \<and>
    mem_abs m' (if ess = [] then [] else es) (butlast ess)"
  using flush_last_abs [OF assms, of B b ids] by blast

definition list_builder :: "(entry list, entry list) table_builder" where
  "list_builder = \<lparr>bld_add = (\<lambda>b k v t. b @ [(k, v, t)]), bld_build = Some\<rparr>"

text \<open>A memory table with one entry, for examples.\<close>

definition sample_table :: MemTable where
  "sample_table = MemTable_new\<lparr>current_table := the (SkipList_put (SkipList_new 16) (\<lambda>_. False) ''k'' ''v'' 3)\<rparr>"

lemma sample_table_abs: "mem_abs sample_table [(''k'', ''v'', 3)] []" "get_cur_size sample_table \<noteq> 0"
proof -
  have "sl_abs (SkipList_new 16) []" by (rule sl_abs_new) simp
  then obtain s where s: "SkipList_put (SkipList_new 16) (\<lambda>_. False) ''k'' ''v'' 3 = Some s" "sl_abs s [(''k'', ''v'', 3)]"
      "size_bytes s = 10"
    using put_abs [of "SkipList_new 16" "[]" "\<lambda>_. False" "''k''" "''v''" 3]
    by (auto simp: vput_def vhit_def entry_size_def SkipList_new_def)
  then show "mem_abs sample_table [(''k'', ''v'', 3)] []" "get_cur_size sample_table \<noteq> 0"
    by (simp_all add: sample_table_def mem_abs_def MemTable_new_def get_cur_size_def SkipList_get_size_def)
qed

lemma memtable_flush_last_witness:
  "\<exists>m'. flush_last list_builder [] [] sample_table =
     Some (Some [(''k'', ''v'', 3)], [], [(''k'', ''v'', 3)], m') \<and> mem_abs m' [] []"
  using memtable_flush_last [OF sample_table_abs(1), of list_builder "[]" "[]"] sample_table_abs(2)
  by (simp add: get_cur_size_def list_builder_def commit_ids_def)

lemma flush_once_abs:
  assumes "mem_abs m es ess" "get_total_size m \<noteq> 0"
  shows "\<exists>m'. flush_once B b m = Some m' \<and> mem_abs m' (if ess = [] then [] else es) (butlast ess) \<and>
    (ess = [] \<longrightarrow> get_total_size m' = 0)"
proof -
  have "frozen_tables m \<noteq> [] \<or> SkipList_get_size (current_table m) \<noteq> 0"
    using assms by (auto simp: mem_abs_def get_total_size_def get_frozen_size_def get_cur_size_def)
  then obtain m' x y z where m': "flush_last B b [] m = Some (x, y, z, m')" "mem_abs m' (if ess = [] then [] else es) (butlast ess)"
    "current_table m' = (if ess = [] then SkipList_new default_max_level else current_table m)"
    using flush_last_abs [OF assms(1), of B b "[]"] by blast
  have "ess = [] \<longrightarrow> get_total_size m' = 0"
    using m'(2,3) by (auto simp: mem_abs_def get_total_size_def get_frozen_size_def get_cur_size_def SkipList_get_size_def
        SkipList_new_def)
  then show ?thesis using m' by (auto simp: flush_once_def)
qed

text \<open>
  C31: the loop of the destructor that flushes until nothing is left ends for every memory table with
  an exact byte count, and nothing is left then.
\<close>

theorem memtable_flush_all_ends:
  assumes "mem_abs m es ess"
  shows "\<exists>m' es' ess'. flush_all (flush_once B b) get_total_size m = Some m' \<and> mem_abs m' es' ess' \<and> get_total_size m' = 0"
  using assms
proof (induction "length ess" arbitrary: m es ess rule: less_induct)
  case less
  show ?case
  proof (cases "get_total_size m = 0")
    case True
    then show ?thesis using less.prems by (subst flush_all.simps) auto
  next
    case False
    obtain m' where m': "flush_once B b m = Some m'" "mem_abs m' (if ess = [] then [] else es) (butlast ess)"
      "ess = [] \<longrightarrow> get_total_size m' = 0" using flush_once_abs [OF less.prems False, of B b] by blast
    have step: "flush_all (flush_once B b) get_total_size m = flush_all (flush_once B b) get_total_size m'"
      using m'(1) False by (subst flush_all.simps) (simp add: word_neq_0_conv)
    show ?thesis
    proof (cases "ess = []")
      case True
      then have "flush_all (flush_once B b) get_total_size m' = Some m'" using m'(3) by (subst flush_all.simps) simp
      then show ?thesis using step m' True by auto
    next
      case False
      then have "length (butlast ess) < length ess" by simp
      from less.hyps [OF this m'(2)] show ?thesis unfolding step .
    qed
  qed
qed

lemma memtable_flush_all_ends_witness:
  "\<exists>m' es' ess'. flush_all (flush_once list_builder []) get_total_size sample_table = Some m' \<and> mem_abs m' es' ess' \<and>
     get_total_size m' = 0"
  by (rule memtable_flush_all_ends [OF sample_table_abs(1)])

text \<open>Clearing a memory table leaves the count of frozen bytes, and then the loop does not end.\<close>

lemma flush_all_returns:
  "flush_all flush total_size m = Some m' \<Longrightarrow> \<not> (0 < total_size m \<and> flush m = Some m)"
proof (rule flush_all.raw_induct [where P = "\<lambda>flush total_size m m'. \<not> (0 < total_size m \<and> flush m = Some m)"])
  fix f :: "('a \<Rightarrow> 'a option) \<Rightarrow> ('a \<Rightarrow> u64) \<Rightarrow> 'a \<Rightarrow> 'a option" and flush total_size m m'
  assume "\<And>flush total_size m m'. f flush total_size m = Some m' \<Longrightarrow> \<not> (0 < total_size m \<and> flush m = Some m)"
    and "(if 0 < total_size m then flush m \<bind> f flush total_size else Some m) = Some m'"
  then show "\<not> (0 < total_size m \<and> flush m = Some m)" by (auto split: if_splits simp: bind_Some_conv)
qed

lemma clear_then_flush_all_hangs:
  assumes "frozen_bytes m \<noteq> 0"
  shows "flush_all (flush_once B b) get_total_size (MemTable_clear m) = None"
proof -
  let ?m = "MemTable_clear m"
  have "flush_once B b ?m = Some ?m"
    by (simp add: flush_once_def flush_last_def MemTable_clear_def SkipList_get_size_def SkipList_clear_def)
  moreover have "0 < get_total_size ?m" using assms
    by (simp add: get_total_size_def get_frozen_size_def get_cur_size_def MemTable_clear_def SkipList_get_size_def
        SkipList_clear_def word_neq_0_conv)
  ultimately show ?thesis
    using flush_all_returns [of "flush_once B b" get_total_size ?m] by (cases "flush_all (flush_once B b) get_total_size ?m") auto
qed

end
