(* ===== verification/File_Obj.thy ===== *)
theory File_Obj
  imports Byte_Buffer
begin

text \<open>
  File access (\<^verbatim>\<open>src/utils/std_file.cpp\<close>, \<^verbatim>\<open>src/utils/files.cpp\<close>, \<^verbatim>\<open>src/utils/cursor.cpp\<close>): a \<^verbatim>\<open>StdFile\<close> is an
  open \<^verbatim>\<open>std::fstream\<close> with its contents and its failure state, \<^verbatim>\<open>FileObj\<close> adds range checks, and a \<^verbatim>\<open>Cursor\<close>
  a position. Offsets and lengths are 64-bit words, so the sums of the range checks wrap around as in
  the program.

  Of \<^verbatim>\<open>std::fstream\<close> the model has what the code relies on: an operation on a failed or closed stream has
  no effect but to set the failure state, a short read fails, a position of \<open>2^63\<close> or more is negative as
  a \<^verbatim>\<open>std::streamoff\<close> and cannot be sought, and a write behind the end fills the gap with zeros. Opening
  takes what the path holds on disk (\<^const>\<open>None\<close> if there is no such file). Removing the file, the
  buffering of the stream and a full disk are not modelled.
\<close>

datatype file_error = Read_beyond_file_size | Failed_to_read | Truncate_beyond_file_size | Failed_to_open | Failed_to_create

type_synonym 'a io = "file_error + 'a"

subsection \<open>Streams\<close>

record StdFile =
  filename :: string
  sf_is_open :: bool
  sf_fail :: bool
  sf_content :: bytes

definition usable :: "StdFile \<Rightarrow> bool" where
  "usable f \<longleftrightarrow> sf_is_open f \<and> \<not> sf_fail f"

text \<open>A closed stream, as \<^verbatim>\<open>FileObj()\<close> creates it.\<close>

definition StdFile_new :: StdFile where
  "StdFile_new = \<lparr>filename = [], sf_is_open = False, sf_fail = False, sf_content = []\<rparr>"

definition StdFile_open :: "string \<Rightarrow> bytes option \<Rightarrow> bool \<Rightarrow> bool \<times> StdFile" where
  "StdFile_open path disk create =
     (if create then (True, \<lparr>filename = path, sf_is_open = True, sf_fail = False, sf_content = []\<rparr>)
      else case disk of
             None \<Rightarrow> (False, \<lparr>filename = path, sf_is_open = False, sf_fail = True, sf_content = []\<rparr>)
           | Some c \<Rightarrow> (True, \<lparr>filename = path, sf_is_open = True, sf_fail = False, sf_content = c\<rparr>))"

definition StdFile_size :: "StdFile \<Rightarrow> u64 \<times> StdFile" where
  "StdFile_size f = (if usable f then (of_nat (length (sf_content f)), f) else (- 1, f\<lparr>sf_fail := True\<rparr>))"

definition StdFile_read :: "StdFile \<Rightarrow> u64 \<Rightarrow> u64 \<Rightarrow> bytes io \<times> StdFile" where
  "StdFile_read f offset len =
     (if usable f \<and> unat offset < 2 ^ 63 \<and> (len = 0 \<or> unat offset + unat len \<le> length (sf_content f))
      then (Inr (take (unat len) (drop (unat offset) (sf_content f))), f)
      else (Inl Failed_to_read, f\<lparr>sf_fail := True\<rparr>))"

definition write_bytes :: "bytes \<Rightarrow> nat \<Rightarrow> bytes \<Rightarrow> bytes" where
  "write_bytes c off d =
     (if d = [] then c
      else take off (c @ replicate (off - length c) 0) @ d @ drop (off + length d) c)"

definition StdFile_write :: "StdFile \<Rightarrow> u64 \<Rightarrow> bytes \<Rightarrow> bool \<times> StdFile" where
  "StdFile_write f offset d =
     (True, if usable f \<and> unat offset < 2 ^ 63 then f\<lparr>sf_content := write_bytes (sf_content f) (unat offset) d\<rparr>
            else f\<lparr>sf_fail := True\<rparr>)"

definition StdFile_create :: "string \<Rightarrow> bytes \<Rightarrow> bool \<times> StdFile" where
  "StdFile_create path buf =
     (let f = snd (StdFile_open path None True)
      in (True, if buf \<noteq> [] then snd (StdFile_write f 0 buf) else f))"

definition StdFile_sync :: "StdFile \<Rightarrow> bool" where
  "StdFile_sync f = (if \<not> sf_is_open f then False else \<not> sf_fail f)"

definition StdFile_close :: "StdFile \<Rightarrow> StdFile" where
  "StdFile_close f = (if sf_is_open f then f\<lparr>sf_is_open := False\<rparr> else f)"

text \<open>The stream is closed and opened again around the system call, which clears its failure state.\<close>

definition StdFile_truncate :: "StdFile \<Rightarrow> u64 \<Rightarrow> bool \<times> StdFile" where
  "StdFile_truncate f sz =
     (True, f\<lparr>sf_is_open := True, sf_fail := False,
              sf_content := take (unat sz) (sf_content f @ replicate (unat sz - length (sf_content f)) 0)\<rparr>)"

subsection \<open>Checked access\<close>

definition FileObj_size :: "StdFile \<Rightarrow> u64 \<times> StdFile" where
  "FileObj_size f = StdFile_size f"

definition FileObj_truncate :: "StdFile \<Rightarrow> u64 \<Rightarrow> bool io \<times> StdFile" where
  "FileObj_truncate f offset =
     (case StdFile_size f of (sz, f) \<Rightarrow>
        if sz < offset then (Inl Truncate_beyond_file_size, f)
        else case StdFile_truncate f offset of (ok, f) \<Rightarrow> (Inr ok, f))"

definition FileObj_create_and_write :: "string \<Rightarrow> bytes \<Rightarrow> StdFile io" where
  "FileObj_create_and_write path buf =
     (case StdFile_create path buf of (ok, f) \<Rightarrow> if \<not> ok then Inl Failed_to_create else Inr f)"

definition FileObj_open :: "string \<Rightarrow> bytes option \<Rightarrow> bool \<Rightarrow> StdFile io" where
  "FileObj_open path disk create =
     (case StdFile_open path disk create of (ok, f) \<Rightarrow> if \<not> ok then Inl Failed_to_open else Inr f)"

definition read_to_slice :: "StdFile \<Rightarrow> u64 \<Rightarrow> u64 \<Rightarrow> bytes io \<times> StdFile" where
  "read_to_slice f offset len =
     (case StdFile_size f of (sz, f) \<Rightarrow>
        if sz < offset + len then (Inl Read_beyond_file_size, f) else StdFile_read f offset len)"

text \<open>The integer readers: the same check with the size of the type, and the bytes as an integer.\<close>

definition as_int :: "(bytes \<Rightarrow> 'w) \<Rightarrow> bytes io \<times> StdFile \<Rightarrow> 'w io \<times> StdFile" where
  "as_int dec r = (case r of (Inl e, f) \<Rightarrow> (Inl e, f) | (Inr d, f) \<Rightarrow> (Inr (dec d), f))"

definition FileObj_read_uint8 :: "StdFile \<Rightarrow> u64 \<Rightarrow> u8 io \<times> StdFile" where
  "FileObj_read_uint8 f offset =
     (case StdFile_size f of (sz, f) \<Rightarrow>
        if sz < offset + 1 then (Inl Read_beyond_file_size, f) else as_int (\<lambda>d. d ! 0) (StdFile_read f offset 1))"

definition FileObj_read_uint16 :: "StdFile \<Rightarrow> u64 \<Rightarrow> u16 io \<times> StdFile" where
  "FileObj_read_uint16 f offset =
     (case StdFile_size f of (sz, f) \<Rightarrow>
        if sz < offset + 2 then (Inl Read_beyond_file_size, f) else as_int dec16 (StdFile_read f offset 2))"

definition FileObj_read_uint32 :: "StdFile \<Rightarrow> u64 \<Rightarrow> u32 io \<times> StdFile" where
  "FileObj_read_uint32 f offset =
     (case StdFile_size f of (sz, f) \<Rightarrow>
        if sz < offset + 4 then (Inl Read_beyond_file_size, f) else as_int dec32 (StdFile_read f offset 4))"

definition FileObj_read_uint64 :: "StdFile \<Rightarrow> u64 \<Rightarrow> u64 io \<times> StdFile" where
  "FileObj_read_uint64 f offset =
     (case StdFile_size f of (sz, f) \<Rightarrow>
        if sz < offset + 8 then (Inl Read_beyond_file_size, f) else as_int dec64 (StdFile_read f offset 8))"

definition FileObj_write :: "StdFile \<Rightarrow> u64 \<Rightarrow> bytes \<Rightarrow> bool \<times> StdFile" where
  "FileObj_write f offset buf = StdFile_write f offset buf"

definition FileObj_append :: "StdFile \<Rightarrow> bytes \<Rightarrow> bool \<times> StdFile" where
  "FileObj_append f buf =
     (case StdFile_size f of (file_size, f) \<Rightarrow>
        case StdFile_write f file_size buf of (ok, f) \<Rightarrow> if \<not> ok then (False, f) else (True, f))"

definition FileObj_write_uint8 :: "StdFile \<Rightarrow> u64 \<Rightarrow> u8 \<Rightarrow> bool \<times> StdFile" where
  "FileObj_write_uint8 f offset value = StdFile_write f offset [value]"

definition FileObj_write_uint16 :: "StdFile \<Rightarrow> u64 \<Rightarrow> u16 \<Rightarrow> bool \<times> StdFile" where
  "FileObj_write_uint16 f offset value = StdFile_write f offset (enc16 value)"

definition FileObj_write_uint32 :: "StdFile \<Rightarrow> u64 \<Rightarrow> u32 \<Rightarrow> bool \<times> StdFile" where
  "FileObj_write_uint32 f offset value = StdFile_write f offset (enc32 value)"

definition FileObj_write_uint64 :: "StdFile \<Rightarrow> u64 \<Rightarrow> u64 \<Rightarrow> bool \<times> StdFile" where
  "FileObj_write_uint64 f offset value = StdFile_write f offset (enc64 value)"

text \<open>An \<^verbatim>\<open>int\<close> is written with the same four bytes as the unsigned value it is congruent to.\<close>

definition FileObj_write_int :: "StdFile \<Rightarrow> u64 \<Rightarrow> int \<Rightarrow> bool \<times> StdFile" where
  "FileObj_write_int f offset value = StdFile_write f offset (enc32 (of_int value))"

definition at_end :: "(StdFile \<Rightarrow> u64 \<Rightarrow> 'a \<Rightarrow> bool \<times> StdFile) \<Rightarrow> StdFile \<Rightarrow> 'a \<Rightarrow> bool \<times> StdFile" where
  "at_end put f value = (case StdFile_size f of (offset, f) \<Rightarrow> put f offset value)"

definition FileObj_append_int :: "StdFile \<Rightarrow> int \<Rightarrow> bool \<times> StdFile" where
  "FileObj_append_int = at_end FileObj_write_int"

definition FileObj_append_uint8 :: "StdFile \<Rightarrow> u8 \<Rightarrow> bool \<times> StdFile" where
  "FileObj_append_uint8 = at_end FileObj_write_uint8"

definition FileObj_append_uint16 :: "StdFile \<Rightarrow> u16 \<Rightarrow> bool \<times> StdFile" where
  "FileObj_append_uint16 = at_end FileObj_write_uint16"

definition FileObj_append_uint32 :: "StdFile \<Rightarrow> u32 \<Rightarrow> bool \<times> StdFile" where
  "FileObj_append_uint32 = at_end FileObj_write_uint32"

definition FileObj_append_uint64 :: "StdFile \<Rightarrow> u64 \<Rightarrow> bool \<times> StdFile" where
  "FileObj_append_uint64 = at_end FileObj_write_uint64"

definition FileObj_sync :: "StdFile \<Rightarrow> bool" where
  "FileObj_sync f = StdFile_sync f"

definition FileObj_close :: "StdFile \<Rightarrow> StdFile" where
  "FileObj_close f = StdFile_close f"

subsection \<open>Cursors\<close>

record Cursor =
  m_file_obj :: StdFile
  m_offset :: u64

definition get_cursor :: "StdFile \<Rightarrow> Cursor" where
  "get_cursor f = \<lparr>m_file_obj = f, m_offset = 0\<rparr>"

definition set_offset :: "Cursor \<Rightarrow> u64 \<Rightarrow> Cursor" where
  "set_offset c offset = c\<lparr>m_offset := offset\<rparr>"

text \<open>A reader moves the cursor unless it throws, a writer if it reports success.\<close>

definition cursor_get :: "u64 \<Rightarrow> Cursor \<Rightarrow> 'a io \<times> StdFile \<Rightarrow> 'a io \<times> Cursor" where
  "cursor_get len c r =
     (case r of
        (Inl e, f) \<Rightarrow> (Inl e, c\<lparr>m_file_obj := f\<rparr>)
      | (Inr x, f) \<Rightarrow> (Inr x, c\<lparr>m_file_obj := f, m_offset := m_offset c + len\<rparr>))"

definition cursor_put :: "u64 \<Rightarrow> Cursor \<Rightarrow> bool \<times> StdFile \<Rightarrow> bool \<times> Cursor" where
  "cursor_put len c r =
     (case r of (ok, f) \<Rightarrow> (ok, if ok then c\<lparr>m_file_obj := f, m_offset := m_offset c + len\<rparr> else c\<lparr>m_file_obj := f\<rparr>))"

definition Cursor_read :: "Cursor \<Rightarrow> u64 \<Rightarrow> bytes io \<times> Cursor" where
  "Cursor_read c len = cursor_get len c (read_to_slice (m_file_obj c) (m_offset c) len)"

definition Cursor_write :: "Cursor \<Rightarrow> bytes \<Rightarrow> bool \<times> Cursor" where
  "Cursor_write c buf = cursor_put (of_nat (length buf)) c (FileObj_write (m_file_obj c) (m_offset c) buf)"

definition Cursor_read_uint8 :: "Cursor \<Rightarrow> u8 io \<times> Cursor" where
  "Cursor_read_uint8 c = cursor_get 1 c (FileObj_read_uint8 (m_file_obj c) (m_offset c))"

definition Cursor_read_uint16 :: "Cursor \<Rightarrow> u16 io \<times> Cursor" where
  "Cursor_read_uint16 c = cursor_get 2 c (FileObj_read_uint16 (m_file_obj c) (m_offset c))"

definition Cursor_read_uint32 :: "Cursor \<Rightarrow> u32 io \<times> Cursor" where
  "Cursor_read_uint32 c = cursor_get 4 c (FileObj_read_uint32 (m_file_obj c) (m_offset c))"

definition Cursor_read_uint64 :: "Cursor \<Rightarrow> u64 io \<times> Cursor" where
  "Cursor_read_uint64 c = cursor_get 8 c (FileObj_read_uint64 (m_file_obj c) (m_offset c))"

definition Cursor_write_uint8 :: "Cursor \<Rightarrow> u8 \<Rightarrow> bool \<times> Cursor" where
  "Cursor_write_uint8 c value = cursor_put 1 c (FileObj_write_uint8 (m_file_obj c) (m_offset c) value)"

definition Cursor_write_uint16 :: "Cursor \<Rightarrow> u16 \<Rightarrow> bool \<times> Cursor" where
  "Cursor_write_uint16 c value = cursor_put 2 c (FileObj_write_uint16 (m_file_obj c) (m_offset c) value)"

definition Cursor_write_uint32 :: "Cursor \<Rightarrow> u32 \<Rightarrow> bool \<times> Cursor" where
  "Cursor_write_uint32 c value = cursor_put 4 c (FileObj_write_uint32 (m_file_obj c) (m_offset c) value)"

definition Cursor_write_uint64 :: "Cursor \<Rightarrow> u64 \<Rightarrow> bool \<times> Cursor" where
  "Cursor_write_uint64 c value = cursor_put 8 c (FileObj_write_uint64 (m_file_obj c) (m_offset c) value)"

subsection \<open>What is written is read back\<close>

text \<open>Values a cursor writes and reads, by their type.\<close>

datatype field = F8 u8 | F16 u16 | F32 u32 | F64 u64 | FB bytes

fun put_field :: "Cursor \<Rightarrow> field \<Rightarrow> Cursor" where
  "put_field c (F8 w) = snd (Cursor_write_uint8 c w)"
| "put_field c (F16 w) = snd (Cursor_write_uint16 c w)"
| "put_field c (F32 w) = snd (Cursor_write_uint32 c w)"
| "put_field c (F64 w) = snd (Cursor_write_uint64 c w)"
| "put_field c (FB d) = snd (Cursor_write c d)"

definition tag :: "('a \<Rightarrow> field) \<Rightarrow> 'a io \<times> Cursor \<Rightarrow> field io \<times> Cursor" where
  "tag F r = (case r of (Inl e, c) \<Rightarrow> (Inl e, c) | (Inr x, c) \<Rightarrow> (Inr (F x), c))"

text \<open>A read of the type, and for a byte string the length, of a given field.\<close>

fun get_like :: "field \<Rightarrow> Cursor \<Rightarrow> field io \<times> Cursor" where
  "get_like (F8 _) c = tag F8 (Cursor_read_uint8 c)"
| "get_like (F16 _) c = tag F16 (Cursor_read_uint16 c)"
| "get_like (F32 _) c = tag F32 (Cursor_read_uint32 c)"
| "get_like (F64 _) c = tag F64 (Cursor_read_uint64 c)"
| "get_like (FB d) c = tag FB (Cursor_read c (of_nat (length d)))"

fun get_all_like :: "field list \<Rightarrow> Cursor \<Rightarrow> field list io \<times> Cursor" where
  "get_all_like [] c = (Inr [], c)"
| "get_all_like (x # xs) c =
     (case get_like x c of
        (Inl e, c) \<Rightarrow> (Inl e, c)
      | (Inr y, c) \<Rightarrow> (case get_all_like xs c of (Inl e, c) \<Rightarrow> (Inl e, c) | (Inr ys, c) \<Rightarrow> (Inr (y # ys), c)))"

fun field_bytes :: "field \<Rightarrow> bytes" where
  "field_bytes (F8 w) = [w]"
| "field_bytes (F16 w) = enc16 w"
| "field_bytes (F32 w) = enc32 w"
| "field_bytes (F64 w) = enc64 w"
| "field_bytes (FB d) = d"

lemma write_bytes_append:
  "write_bytes (write_bytes c off d) (off + length d) e = write_bytes c off (d @ e)"
  by (cases "d = []"; cases "e = []") (auto simp: write_bytes_def min_def drop_append ac_simps)

lemma read_write_bytes: "take (length d) (drop off (write_bytes c off d)) = d"
  by (auto simp: write_bytes_def min_def)

lemma length_write_bytes: "length (write_bytes c off d) = (if d = [] then length c else max (length c) (off + length d))"
  by (auto simp: write_bytes_def)

lemma write_bytes_covers: "off \<le> length c \<Longrightarrow> off + length d \<le> length (write_bytes c off d)"
  by (auto simp: length_write_bytes)

lemma unat_add_small:
  fixes a :: u64
  assumes "unat a + n < 2 ^ 64"
  shows "unat (a + of_nat n) = unat a + n"
proof -
  have "unat (of_nat n :: u64) = n" using assms by (simp add: unat_of_nat)
  then show ?thesis using assms unat_word_ariths(1) [of a "of_nat n"] by simp
qed

text \<open>One write of any kind at the cursor, and one read.\<close>

lemma put_field_effect:
  assumes "usable (m_file_obj c)" "unat (m_offset c) < 2 ^ 63"
  shows "put_field c x =
    c\<lparr>m_file_obj := (m_file_obj c)\<lparr>sf_content := write_bytes (sf_content (m_file_obj c)) (unat (m_offset c)) (field_bytes x)\<rparr>,
      m_offset := m_offset c + of_nat (length (field_bytes x))\<rparr>"
  using assms
  by (cases x) (simp_all add: Cursor_write_uint8_def Cursor_write_uint16_def Cursor_write_uint32_def Cursor_write_uint64_def
      Cursor_write_def FileObj_write_uint8_def FileObj_write_uint16_def FileObj_write_uint32_def FileObj_write_uint64_def
      FileObj_write_def StdFile_write_def cursor_put_def)

lemma checked_read:
  assumes "usable f" "unat off + n \<le> length (sf_content f)" "length (sf_content f) < 2 ^ 63"
  shows "StdFile_size f = (of_nat (length (sf_content f)), f)"
    and "\<not> (of_nat (length (sf_content f)) :: u64) < off + of_nat n"
    and "StdFile_read f off (of_nat n) = (Inr (take n (drop (unat off) (sf_content f))), f)"
proof -
  have n: "unat (of_nat n :: u64) = n" "unat (off + of_nat n) = unat off + n"
    "unat (of_nat (length (sf_content f)) :: u64) = length (sf_content f)"
    using assms unat_add_small [of off n] by (simp_all add: unat_of_nat)
  then show "\<not> (of_nat (length (sf_content f)) :: u64) < off + of_nat n" using assms(2) by (simp add: word_less_nat_alt)
  show "StdFile_size f = (of_nat (length (sf_content f)), f)" using assms(1) by (simp add: StdFile_size_def)
  show "StdFile_read f off (of_nat n) = (Inr (take n (drop (unat off) (sf_content f))), f)"
    using assms n by (simp add: StdFile_read_def)
qed

lemma get_like_effect:
  assumes "usable (m_file_obj c)" "length (sf_content (m_file_obj c)) < 2 ^ 63"
    and "unat (m_offset c) + length (field_bytes x) \<le> length (sf_content (m_file_obj c))"
    and "take (length (field_bytes x)) (drop (unat (m_offset c)) (sf_content (m_file_obj c))) = field_bytes x"
  shows "get_like x c = (Inr x, c\<lparr>m_offset := m_offset c + of_nat (length (field_bytes x))\<rparr>)"
proof -
  note r = checked_read [OF assms(1,3,2)]
  show ?thesis
    using r assms(4)
    by (cases x) (simp_all add: Cursor_read_uint8_def Cursor_read_uint16_def Cursor_read_uint32_def Cursor_read_uint64_def
        Cursor_read_def FileObj_read_uint8_def FileObj_read_uint16_def FileObj_read_uint32_def FileObj_read_uint64_def
        read_to_slice_def as_int_def cursor_get_def tag_def)
qed

lemma put_fields_effect:
  assumes "usable (m_file_obj c)" "unat (m_offset c) + length (concat (map field_bytes xs)) < 2 ^ 63"
  shows "foldl put_field c xs =
    c\<lparr>m_file_obj := (m_file_obj c)\<lparr>sf_content :=
         write_bytes (sf_content (m_file_obj c)) (unat (m_offset c)) (concat (map field_bytes xs))\<rparr>,
      m_offset := m_offset c + of_nat (length (concat (map field_bytes xs)))\<rparr>"
  using assms
proof (induction xs arbitrary: c)
  case Nil
  then show ?case by (simp add: write_bytes_def)
next
  case (Cons x xs)
  let ?d = "field_bytes x"
  let ?c = "put_field c x"
  have off: "unat (m_offset c + of_nat (length ?d)) = unat (m_offset c) + length ?d"
    by (rule unat_add_small) (use Cons.prems in simp)
  have c: "?c = c\<lparr>m_file_obj := (m_file_obj c)\<lparr>sf_content := write_bytes (sf_content (m_file_obj c)) (unat (m_offset c)) ?d\<rparr>,
      m_offset := m_offset c + of_nat (length ?d)\<rparr>"
    by (rule put_field_effect) (use Cons.prems in simp_all)
  have "usable (m_file_obj ?c)" "unat (m_offset ?c) + length (concat (map field_bytes xs)) < 2 ^ 63"
    using Cons.prems off by (simp_all add: c usable_def)
  note IH = Cons.IH [OF this]
  show ?case unfolding foldl_Cons IH by (simp add: c off write_bytes_append add.assoc)
qed

lemma get_all_like_effect:
  assumes "usable (m_file_obj c)" "length (sf_content (m_file_obj c)) < 2 ^ 63"
    and "take (length (concat (map field_bytes xs))) (drop (unat (m_offset c)) (sf_content (m_file_obj c))) = concat (map field_bytes xs)"
    and "unat (m_offset c) + length (concat (map field_bytes xs)) \<le> length (sf_content (m_file_obj c))"
  shows "fst (get_all_like xs c) = Inr xs"
  using assms
proof (induction xs arbitrary: c)
  case (Cons x xs)
  let ?d = "field_bytes x" and ?C = "sf_content (m_file_obj c)" and ?o = "unat (m_offset c)"
  let ?c = "c\<lparr>m_offset := m_offset c + of_nat (length ?d)\<rparr>"
  let ?ds = "concat (map field_bytes xs)"
  have all: "take (length ?d + length ?ds) (drop ?o ?C) = ?d @ ?ds" using Cons.prems(3) by simp
  then have "take (length ?d) (take (length ?d + length ?ds) (drop ?o ?C)) = ?d"
    "drop (length ?d) (take (length ?d + length ?ds) (drop ?o ?C)) = ?ds" by simp_all
  then have d: "take (length ?d) (drop ?o ?C) = ?d" "take (length ?ds) (drop (?o + length ?d) ?C) = ?ds"
    by (simp_all add: min_def drop_take add.commute)
  have off: "unat (m_offset c + of_nat (length ?d)) = ?o + length ?d"
    by (rule unat_add_small) (use Cons.prems in simp)
  have "get_like x c = (Inr x, ?c)" by (rule get_like_effect) (use Cons.prems d in simp_all)
  moreover have "fst (get_all_like xs ?c) = Inr xs"
    by (rule Cons.IH) (use Cons.prems d off in \<open>simp_all add: add.assoc\<close>)
  ultimately show ?case by (cases "get_all_like xs ?c") simp
qed simp

subsection \<open>Properties\<close>

text \<open>
  C30: whatever a cursor writes into an open file, starting at a position inside the file, a cursor put
  back to that position reads again: integers of all widths and byte strings, in the order written.
\<close>

theorem cursor_roundtrip:
  assumes "usable f" "unat off \<le> length (sf_content f)"
    and "max (length (sf_content f)) (unat off + length (concat (map field_bytes xs))) < 2 ^ 63"
  shows "fst (get_all_like xs (set_offset (foldl put_field \<lparr>m_file_obj = f, m_offset = off\<rparr> xs) off)) = Inr xs"
proof -
  let ?d = "concat (map field_bytes xs)"
  let ?c = "set_offset (foldl put_field \<lparr>m_file_obj = f, m_offset = off\<rparr> xs) off"
  have c: "?c = \<lparr>m_file_obj = f\<lparr>sf_content := write_bytes (sf_content f) (unat off) ?d\<rparr>, m_offset = off\<rparr>"
    using put_fields_effect [of "\<lparr>m_file_obj = f, m_offset = off\<rparr>" xs] assms by (simp add: set_offset_def)
  show ?thesis
  proof (rule get_all_like_effect)
    show "usable (m_file_obj ?c)" using assms(1) by (simp add: c usable_def)
    show "length (sf_content (m_file_obj ?c)) < 2 ^ 63" using assms(3) by (simp add: c length_write_bytes)
    show "take (length ?d) (drop (unat (m_offset ?c)) (sf_content (m_file_obj ?c))) = ?d"
      unfolding c by (simp add: read_write_bytes)
    show "unat (m_offset ?c) + length ?d \<le> length (sf_content (m_file_obj ?c))"
      unfolding c using write_bytes_covers [OF assms(2), of ?d] by simp
  qed
qed

lemma cursor_roundtrip_witness:
  "fst (get_all_like [F16 300, FB [1, 2, 3], F64 7]
     (set_offset (foldl put_field (get_cursor (snd (StdFile_open ''f'' None True))) [F16 300, FB [1, 2, 3], F64 7]) 0)) =
   Inr [F16 300, FB [1, 2, 3], F64 7]"
  using cursor_roundtrip [of "snd (StdFile_open ''f'' None True)" 0 "[F16 300, FB [1, 2, 3], F64 7]"]
  by (simp add: StdFile_open_def usable_def get_cursor_def)

text \<open>
  A checked read whose range does not wrap around returns the bytes of the range, or throws when the
  range leaves the file; in both cases the stream stays usable.
\<close>

theorem read_to_slice_checked:
  assumes "usable f" "length (sf_content f) < 2 ^ 63" "unat off + unat len < 2 ^ 64"
  shows "read_to_slice f off len =
    (if unat off + unat len \<le> length (sf_content f) then Inr (take (unat len) (drop (unat off) (sf_content f)))
     else Inl Read_beyond_file_size, f)"
proof -
  have "unat (off + len) = unat off + unat len" using assms(3) unat_word_ariths(1) [of off len] by simp
  moreover have "unat (of_nat (length (sf_content f)) :: u64) = length (sf_content f)" using assms(2) by (simp add: unat_of_nat)
  ultimately have "(of_nat (length (sf_content f)) < off + len) = (length (sf_content f) < unat off + unat len)"
    by (simp add: word_less_nat_alt)
  then show ?thesis using assms(1,2) by (simp add: read_to_slice_def StdFile_size_def StdFile_read_def)
qed

lemma read_to_slice_checked_witness:
  "read_to_slice \<lparr>filename = ''f'', sf_is_open = True, sf_fail = False, sf_content = [1, 2, 3]\<rparr> 1 2 =
     (Inr [2, 3], \<lparr>filename = ''f'', sf_is_open = True, sf_fail = False, sf_content = [1, 2, 3]\<rparr>)"
  using read_to_slice_checked [of "\<lparr>filename = ''f'', sf_is_open = True, sf_fail = False, sf_content = [1, 2, 3]\<rparr>" 1 2]
  by (simp add: usable_def)

text \<open>
  A range that wraps around passes the check, the read fails, and from then on the stream is in its
  failure state: every write is lost, and yet reported as a success.
\<close>

lemma wrapped_read_breaks_file:
  assumes "usable f"
  shows "read_to_slice f (- 1) 1 = (Inl Failed_to_read, f\<lparr>sf_fail := True\<rparr>)"
    and "FileObj_write (f\<lparr>sf_fail := True\<rparr>) off d = (True, f\<lparr>sf_fail := True\<rparr>)"
proof -
  have "unat (- 1 :: u64) = 2 ^ 64 - 1" by (simp add: unsigned_minus_1_eq_mask mask_eq_exp_minus_1)
  then show "read_to_slice f (- 1) 1 = (Inl Failed_to_read, f\<lparr>sf_fail := True\<rparr>)"
    using assms by (simp add: read_to_slice_def StdFile_size_def StdFile_read_def)
  show "FileObj_write (f\<lparr>sf_fail := True\<rparr>) off d = (True, f\<lparr>sf_fail := True\<rparr>)"
    by (simp add: FileObj_write_def StdFile_write_def usable_def)
qed

end
