(* ===== verification/Value_Log.thy ===== *)
theory Value_Log
  imports File_Obj
begin

text \<open>
  The value log of \<^verbatim>\<open>src/vlog/vlog.cpp\<close>: opening, the tail offset and synchronisation over the file
  layer, and the CRC-32 checksum of a record, computed bit by bit. Appending and reading a record have
  no bodies in the repository.

  The checksum is shown to detect every change that is confined to four consecutive bytes: on 32-bit
  words the step of one bit is linear and injective, and the first 32 steps spread the four bytes over
  the whole register without loss.
\<close>

unbundle bit_operations_syntax

subsection \<open>Checksum\<close>

definition crc_bit :: "u32 \<Rightarrow> u32" where
  "crc_bit crc = (if crc AND 1 \<noteq> 0 then drop_bit 1 crc XOR 0xEDB88320 else drop_bit 1 crc)"

definition crc_byte :: "u32 \<Rightarrow> u8 \<Rightarrow> u32" where
  "crc_byte crc b = (crc_bit ^^ 8) (crc XOR ucast b)"

definition crc32_compute :: "bytes \<Rightarrow> u32" where
  "crc32_compute data = foldl crc_byte 0xFFFFFFFF data XOR 0xFFFFFFFF"

lemma crc_bit_even: "\<not> bit crc 0 \<Longrightarrow> crc_bit crc = drop_bit 1 crc"
  by (simp add: crc_bit_def and_one_eq odd_iff_mod_2_eq_one bit_0)

lemma crc_bit_odd: "bit crc 0 \<Longrightarrow> crc_bit crc = drop_bit 1 crc XOR 0xEDB88320"
  by (simp add: crc_bit_def and_one_eq odd_iff_mod_2_eq_one bit_0)

lemma crc_bit_xor: "crc_bit (x XOR y) = crc_bit x XOR crc_bit y"
  by (cases "bit x 0"; cases "bit y 0")
    (simp_all add: crc_bit_even crc_bit_odd bit_xor_iff drop_bit_xor ac_simps)

lemma crc_bit_0 [simp]: "crc_bit 0 = 0"
  by (simp add: crc_bit_def)

lemma xor_cancel_right: "x XOR z = y XOR z \<longleftrightarrow> x = (y :: 'w :: len word)"
  by (auto simp: bit_eq_iff bit_simps)

lemma xor_cancel_left: "z XOR x = z XOR y \<longleftrightarrow> x = (y :: 'w :: len word)"
  using xor_cancel_right [of x z y] by (simp only: xor.commute)

lemma crc_bit_eq_0: "crc_bit x = 0 \<Longrightarrow> x = 0"
proof (cases "bit x 0")
  case True
  assume "crc_bit x = 0"
  with True have "bit (drop_bit 1 x XOR 0xEDB88320) 31 = bit (0 :: u32) 31" by (simp add: crc_bit_odd)
  then show ?thesis by (simp add: bit_xor_iff bit_drop_bit_eq impossible_bit)
next
  case False
  assume "crc_bit x = 0"
  with False have d: "drop_bit 1 x = 0" by (simp add: crc_bit_even)
  show ?thesis
  proof (rule bit_eqI)
    fix n
    have "bit x (Suc n) = bit (drop_bit 1 x) n" for n by (simp add: bit_drop_bit_eq)
    with d False show "bit x n = bit 0 n" by (cases n) auto
  qed
qed

lemma crc_bits_xor: "(crc_bit ^^ n) (x XOR y) = (crc_bit ^^ n) x XOR (crc_bit ^^ n) y"
  by (induction n) (simp_all add: crc_bit_xor)

lemma crc_bits_inj: "(crc_bit ^^ n) x = (crc_bit ^^ n) y \<Longrightarrow> x = y"
proof (induction n)
  case (Suc n)
  then have "crc_bit ((crc_bit ^^ n) x XOR (crc_bit ^^ n) y) = 0" by (simp add: crc_bit_xor)
  then have "(crc_bit ^^ n) x XOR (crc_bit ^^ n) y = (crc_bit ^^ n) y XOR (crc_bit ^^ n) y"
    by (simp add: crc_bit_eq_0)
  then have "(crc_bit ^^ n) x = (crc_bit ^^ n) y" by (simp only: xor_cancel_right)
  then show ?case by (rule Suc.IH)
qed simp

text \<open>Bits that have not yet reached the end of the register only move.\<close>

lemma crc_bits_push: "(\<And>i. 32 \<le> i + n \<Longrightarrow> \<not> bit w i) \<Longrightarrow> (crc_bit ^^ n) (push_bit n w) = w"
proof (induction n)
  case (Suc n)
  have "\<not> bit (push_bit (Suc n) w) 0" by (simp add: bit_push_bit_iff del: push_bit_Suc)
  moreover have "drop_bit 1 (push_bit (Suc n) w) = push_bit n w"
  proof (rule bit_eqI)
    fix m assume "possible_bit TYPE(u32) m"
    show "bit (drop_bit 1 (push_bit (Suc n) w)) m = bit (push_bit n w) m"
      using Suc.prems [of "m - n"] \<open>possible_bit TYPE(u32) m\<close>
      by (cases "m = 31") (auto simp: bit_simps simp del: push_bit_Suc)
  qed
  ultimately have "crc_bit (push_bit (Suc n) w) = push_bit n w" by (simp add: crc_bit_even del: push_bit_Suc)
  moreover have "(crc_bit ^^ n) (push_bit n w) = w" using Suc.prems by (intro Suc.IH) simp
  ultimately show ?case by (simp add: funpow_Suc_right del: funpow.simps push_bit_Suc)
qed simp

text \<open>At most four bytes as a little-endian word.\<close>

fun crc_word :: "bytes \<Rightarrow> u32" where
  "crc_word [] = 0"
| "crc_word (b # bs) = ucast b XOR push_bit 8 (crc_word bs)"

lemma bit_crc_word: "8 * length bs \<le> i \<Longrightarrow> \<not> bit (crc_word bs) i"
proof (induction bs arbitrary: i)
  case (Cons b bs)
  then have "\<not> bit (crc_word bs) (i - 8)" by simp
  with Cons.prems show ?case by (auto simp: bit_simps dest: bit_imp_le_length)
qed simp

lemma crc_word_inj: "length a = length b \<Longrightarrow> length a \<le> 4 \<Longrightarrow> crc_word a = crc_word b \<Longrightarrow> a = b"
proof (induction a b rule: list_induct2')
  case (4 x xs y ys)
  let ?l = "crc_word (x # xs)" and ?r = "crc_word (y # ys)"
  have bits: "bit ?l i = bit ?r i" for i using 4 by simp
  have low: "x = y"
  proof (rule bit_eqI)
    fix n assume "possible_bit TYPE(u8) n"
    then show "bit x n = bit y n" using bits [of n] by (simp add: bit_simps)
  qed
  have "crc_word xs = crc_word ys"
  proof (rule bit_eqI)
    fix n assume "possible_bit TYPE(u32) n"
    show "bit (crc_word xs) n = bit (crc_word ys) n"
    proof (cases "n + 8 < 32")
      case True
      then show ?thesis using bits [of "n + 8"] by (auto simp: bit_simps dest: bit_imp_le_length)
    next
      case False
      with 4 show ?thesis by (simp add: bit_crc_word)
    qed
  qed
  with 4 low show ?case by simp
qed simp_all

text \<open>The register after at most four bytes.\<close>

lemma foldl_crc_byte:
  "length bs \<le> 4 \<Longrightarrow> foldl crc_byte c bs = (crc_bit ^^ (8 * length bs)) (c XOR crc_word bs)"
proof (induction bs arbitrary: c)
  case (Cons b bs)
  have "(crc_bit ^^ 8) (push_bit 8 (crc_word bs)) = crc_word bs"
    using Cons.prems by (intro crc_bits_push bit_crc_word) simp
  then have "crc_byte c b XOR crc_word bs = (crc_bit ^^ 8) (c XOR ucast b XOR push_bit 8 (crc_word bs))"
    by (simp only: crc_byte_def crc_bits_xor xor.assoc)
  with Cons show ?case
    by (simp add: funpow_add funpow_swap1 xor.assoc add.commute [of 8] del: funpow.simps)
qed simp

lemma crc_byte_inj: "crc_byte c b = crc_byte c' b \<Longrightarrow> c = c'"
  using crc_bits_inj [of 8 "c XOR ucast b" "c' XOR ucast b"] by (simp add: crc_byte_def xor_cancel_right)

lemma foldl_crc_inj: "foldl crc_byte c bs = foldl crc_byte c' bs \<Longrightarrow> c = c'"
  by (induction bs arbitrary: c c') (auto dest: crc_byte_inj)

text \<open>C24: the checksum detects every change of a record that is confined to four consecutive bytes.\<close>

theorem crc32_detects_burst:
  assumes "length a = length b" "length a \<le> 4" "a \<noteq> b"
  shows "crc32_compute (pre @ a @ post) \<noteq> crc32_compute (pre @ b @ post)"
proof
  assume "crc32_compute (pre @ a @ post) = crc32_compute (pre @ b @ post)"
  then have "foldl crc_byte 0xFFFFFFFF (pre @ a @ post) = foldl crc_byte 0xFFFFFFFF (pre @ b @ post)"
    by (simp only: crc32_compute_def xor_cancel_right)
  then have "foldl crc_byte (foldl crc_byte 0xFFFFFFFF pre) a = foldl crc_byte (foldl crc_byte 0xFFFFFFFF pre) b"
    unfolding foldl_append by (rule foldl_crc_inj)
  with assms have "foldl crc_byte 0xFFFFFFFF pre XOR crc_word a = foldl crc_byte 0xFFFFFFFF pre XOR crc_word b"
    by (simp only: foldl_crc_byte) (rule crc_bits_inj)
  then have "crc_word a = crc_word b" by (simp only: xor_cancel_left)
  with assms show False using crc_word_inj by blast
qed

theorem crc32_detects_burst_witness:
  "crc32_compute ([1, 2] @ [3, 4] @ [5]) \<noteq> crc32_compute ([1, 2] @ [4, 3] @ [5])"
  by (rule crc32_detects_burst) simp_all

text \<open>The check value of the polynomial: the checksum of the digits 1 to 9.\<close>

lemma crc_bits_8:
  "(crc_bit ^^ 8) x = crc_bit (crc_bit (crc_bit (crc_bit (crc_bit (crc_bit (crc_bit (crc_bit x)))))))"
  by (simp add: numeral_eq_Suc)

lemma crc32_check_value: "crc32_compute [0x31, 0x32, 0x33, 0x34, 0x35, 0x36, 0x37, 0x38, 0x39] = 0xCBF43926"
  by (simp add: crc32_compute_def crc_byte_def crc_bits_8 crc_bit_def)

subsection \<open>The log\<close>

record VLog =
  vlog_file :: StdFile
  vlog_path :: string

definition VLog_open :: "string \<Rightarrow> bytes option \<Rightarrow> VLog io" where
  "VLog_open path disk =
     (let disk = (case disk of None \<Rightarrow> Some [] | Some c \<Rightarrow> Some c)
      in case FileObj_open path disk False of Inl e \<Rightarrow> Inl e | Inr f \<Rightarrow> Inr \<lparr>vlog_file = f, vlog_path = path\<rparr>)"

definition tail_offset :: "VLog \<Rightarrow> u64 \<times> VLog" where
  "tail_offset v = (case FileObj_size (vlog_file v) of (sz, f) \<Rightarrow> (sz, v\<lparr>vlog_file := f\<rparr>))"

definition VLog_sync :: "VLog \<Rightarrow> VLog" where
  "VLog_sync v = (let _ = FileObj_sync (vlog_file v) in v)"

text \<open>Opening never fails, keeps the records of an earlier run, and the tail is the length of the file.\<close>

lemma VLog_open_keeps:
  "\<exists>v. VLog_open path disk = Inr v \<and> usable (vlog_file v) \<and> vlog_path v = path \<and>
       sf_content (vlog_file v) = (case disk of None \<Rightarrow> [] | Some c \<Rightarrow> c) \<and>
       tail_offset v = (of_nat (length (case disk of None \<Rightarrow> [] | Some c \<Rightarrow> c)), v)"
  by (auto simp: VLog_open_def FileObj_open_def StdFile_open_def usable_def tail_offset_def FileObj_size_def
      StdFile_size_def split: option.splits)

end
