(* ===== verification/Wal_Files.thy ===== *)
theory Wal_Files
  imports Wal_Record File_Obj Cpp_String
begin

text \<open>
  The log files of the write-ahead log (\<^verbatim>\<open>src/wal/wal.cpp\<close>): removing the files that a checkpoint has
  made obsolete, and starting a new file. The writer, the recovery and the thread that calls the
  cleaner are not written yet in the repository.

  A directory is the list of its entries in the order the directory iterator returns them: file name,
  whether it is a regular file, contents. The two error types of the calls are joined; \<^const>\<open>None\<close> is a
  cleaner that does not return. \<^verbatim>\<open>std::sort\<close> is a stable sort here, which makes no difference when no two
  files have the same number.
\<close>

record WAL =
  active_log_path :: string
  log_file :: StdFile
  wal_checkpoint_tranc_id :: u64

datatype clean_error = Bad_number cpp_error | File_error file_error

definition set_checkpoint_tranc_id :: "WAL \<Rightarrow> u64 \<Rightarrow> WAL" where
  "set_checkpoint_tranc_id w i = w\<lparr>wal_checkpoint_tranc_id := i\<rparr>"

subsection \<open>File names\<close>

fun find_last_of :: "char \<Rightarrow> string \<Rightarrow> nat option" where
  "find_last_of c [] = None"
| "find_last_of c (x # xs) =
     (case find_last_of c xs of Some i \<Rightarrow> Some (Suc i) | None \<Rightarrow> if x = c then Some 0 else None)"

text \<open>\<^verbatim>\<open>substr(find_last_of(c) + 1)\<close>: without an occurrence, \<^verbatim>\<open>npos + 1\<close> is 0 and the result the whole string.\<close>

definition after_last :: "char \<Rightarrow> string \<Rightarrow> string" where
  "after_last c s = (case find_last_of c s of None \<Rightarrow> s | Some i \<Rightarrow> drop (Suc i) s)"

definition before_last :: "char \<Rightarrow> string \<Rightarrow> string" where
  "before_last c s = (case find_last_of c s of None \<Rightarrow> s | Some i \<Rightarrow> take i s)"

definition wal_dir :: "WAL \<Rightarrow> string" where
  "wal_dir w =
     (if CHR ''/'' \<in> set (active_log_path w) then before_last CHR ''/'' (active_log_path w) @ ''/'' else ''./'')"

text \<open>\<^verbatim>\<open>std::stoull\<close>: a minus sign negates the value modulo \<open>2^64\<close>.\<close>

definition stoull :: "string \<Rightarrow> u64 cpp" where
  "stoull s =
     (let (neg, r) = parse_sign (dropWhile isspace s);
          ds = takeWhile is_digit r
      in if ds = [] then Inl Invalid_argument
         else if digits_val ds < 2 ^ 64
         then Inr (if neg then - of_nat (digits_val ds) else of_nat (digits_val ds))
         else Inl Out_of_range)"

type_synonym dir_entry = "string \<times> bool \<times> bytes"

definition is_wal :: "dir_entry \<Rightarrow> bool" where
  "is_wal e = (case e of (name, regular, _) \<Rightarrow> regular \<and> take 4 name = ''wal.'')"

definition wal_seq :: "string \<Rightarrow> u64 cpp" where
  "wal_seq name = stoull (after_last CHR ''.'' name)"

fun wal_paths :: "dir_entry list \<Rightarrow> (u64 \<times> dir_entry) list cpp" where
  "wal_paths [] = Inr []"
| "wal_paths (e # es) =
     (if is_wal e
      then cpp_bind (wal_seq (fst e)) (\<lambda>seq. cpp_bind (wal_paths es) (\<lambda>ps. Inr ((seq, e) # ps)))
      else wal_paths es)"

subsection \<open>The cleaner\<close>

text \<open>The loop over the records of a file: does one belong to a transaction after the checkpoint?\<close>

partial_function (option) has_unfinished :: "u64 \<Rightarrow> StdFile \<Rightarrow> u64 \<Rightarrow> bool io option" where
  "has_unfinished checkpoint f offset =
     (case FileObj_size f of (sz, f) \<Rightarrow>
        if offset + 2 < sz
        then (case FileObj_read_uint16 f offset of
                (Inl e, f) \<Rightarrow> Some (Inl e)
              | (Inr record_size, f) \<Rightarrow>
                  (case FileObj_read_uint64 f (offset + 2) of
                     (Inl e, f) \<Rightarrow> Some (Inl e)
                   | (Inr tranc_id, f) \<Rightarrow>
                       if checkpoint < tranc_id then Some (Inr True)
                       else has_unfinished checkpoint f (offset + ucast record_size)))
        else Some (Inr False))"

fun del_paths :: "u64 \<Rightarrow> dir_entry list \<Rightarrow> string list io option" where
  "del_paths checkpoint [] = Some (Inr [])"
| "del_paths checkpoint ((name, regular, content) # es) =
     (case FileObj_open name (Some content) False of
        Inl e \<Rightarrow> Some (Inl e)
      | Inr f \<Rightarrow>
          do { r \<leftarrow> has_unfinished checkpoint f 0;
               case r of
                 Inl e \<Rightarrow> Some (Inl e)
               | Inr unfinished \<Rightarrow>
                   do { rs \<leftarrow> del_paths checkpoint es;
                        Some (case rs of Inl e \<Rightarrow> Inl e | Inr names \<Rightarrow> Inr (if unfinished then names else name # names)) } })"

definition cleanWALFile :: "WAL \<Rightarrow> dir_entry list \<Rightarrow> (clean_error + dir_entry list) option" where
  "cleanWALFile w dir =
     (case wal_paths dir of
        Inl e \<Rightarrow> Some (Inl (Bad_number e))
      | Inr ps \<Rightarrow>
          do { r \<leftarrow> del_paths (wal_checkpoint_tranc_id w) (map snd (butlast (sort_key fst ps)));
               Some (case r of
                       Inl e \<Rightarrow> Inl (File_error e)
                     | Inr names \<Rightarrow> Inr (filter (\<lambda>e. fst e \<notin> set names) dir)) })"

definition reset_file :: "WAL \<Rightarrow> (clean_error + WAL)" where
  "reset_file w =
     (let old_path = active_log_path w
      in case stoi (after_last CHR ''.'' old_path) of
           Inl e \<Rightarrow> Inl (Bad_number e)
         | Inr seq \<Rightarrow>
             (case signed_range 32 (seq + 1) of
                Inl e \<Rightarrow> Inl (Bad_number e)
              | Inr seq \<Rightarrow>
                  let path = before_last CHR ''.'' old_path @ ''.'' @ to_string seq
                  in case FileObj_create_and_write path [] of
                       Inl e \<Rightarrow> Inl (File_error e)
                     | Inr f \<Rightarrow> Inr (w\<lparr>active_log_path := path, log_file := f\<rparr>)))"

subsection \<open>Names\<close>

lemma find_last_of_none: "c \<notin> set xs \<Longrightarrow> find_last_of c xs = None"
  by (induction xs) auto

lemma find_last_of_append: "c \<notin> set ys \<Longrightarrow> find_last_of c (xs @ c # ys) = Some (length xs)"
  by (induction xs) (auto simp: find_last_of_none)

lemma split_last:
  assumes "c \<notin> set ys"
  shows "after_last c (xs @ c # ys) = ys" "before_last c (xs @ c # ys) = xs"
  by (simp_all add: after_last_def before_last_def find_last_of_append [OF assms])

lemma no_dot_in_number: "CHR ''.'' \<notin> set (nat_to_string n)"
  using nat_to_string_digits [of "CHR ''.''" n] by (auto simp: is_digit_def)

lemma stoull_number:
  assumes "n < 2 ^ 64"
  shows "stoull (nat_to_string n) = Inr (of_nat n)"
proof -
  have tw: "takeWhile is_digit (nat_to_string n) = nat_to_string n" by (simp add: nat_to_string_digits)
  obtain c cs where cr: "nat_to_string n = c # cs" by (cases "nat_to_string n") auto
  then have "is_digit c" using nat_to_string_digits [of c n] by simp
  then have "parse_sign (dropWhile isspace (nat_to_string n)) = (False, nat_to_string n)"
    using cr is_digit_not_special [of c] by (simp add: parse_sign_def)
  then show ?thesis using assms by (simp add: stoull_def Let_def tw)
qed

lemma wal_seq_number: "n < 2 ^ 64 \<Longrightarrow> wal_seq (''wal.'' @ nat_to_string n) = Inr (of_nat n)"
  using split_last(1) [OF no_dot_in_number, of "''wal''" n] by (simp add: wal_seq_def stoull_number)

subsection \<open>Scanning a file\<close>

definition log_image :: "Record list \<Rightarrow> bytes" where
  "log_image rs = concat (map wire rs)"

lemma wire_head:
  assumes "storable r"
  shows "\<exists>t. wire r = enc16 (of_nat (wire_len r)) @ enc64 (rec_tranc_id r) @ t"
  using assms constructed_len [of r] by (auto simp: wire_def storable_def)

lemma scan_records:
  assumes "\<forall>r\<in>set rs. storable r" "sf_content f = pre @ log_image rs" "usable f" "length (sf_content f) < 2 ^ 63"
  shows "has_unfinished checkpoint f (of_nat (length pre)) = Some (Inr (\<exists>r\<in>set rs. checkpoint < rec_tranc_id r))"
  using assms(1,2)
proof (induction rs arbitrary: pre)
  case Nil
  then have "\<not> (of_nat (length pre) + 2 :: u64) < of_nat (length pre)"
    using assms(4) unat_add_small [of "of_nat (length pre)" 2] by (simp add: word_less_nat_alt unat_of_nat log_image_def)
  then show ?case using Nil assms(3)
    by (subst has_unfinished.simps) (simp add: FileObj_size_def StdFile_size_def log_image_def)
next
  case (Cons r rs)
  let ?C = "sf_content f" and ?o = "of_nat (length pre) :: u64"
  obtain t where t: "wire r = enc16 (of_nat (wire_len r)) @ enc64 (rec_tranc_id r) @ t"
    using wire_head [of r] Cons.prems(1) by auto
  have len: "length (wire r) = wire_len r" "11 \<le> wire_len r" "wire_len r < 65536"
    using length_wire wire_len_pos Cons.prems(1) by (auto simp: storable_def)
  have C: "?C = pre @ wire r @ log_image rs" using Cons.prems(2) by (simp add: log_image_def)
  have small: "length pre + wire_len r \<le> length ?C" "length ?C < 2 ^ 63" using C len assms(4) by simp_all
  have o: "unat ?o = length pre" "unat (?o + 2) = length pre + 2"
    "unat (of_nat (length ?C) :: u64) = length ?C"
    using small unat_add_small [of ?o 2] len(2) by (simp_all add: unat_of_nat)
  have cond: "?o + 2 < of_nat (length ?C)" using o small len(2) by (simp add: word_less_nat_alt)
  have r16: "FileObj_read_uint16 f ?o = (Inr (of_nat (wire_len r)), f)"
    using checked_read [OF assms(3), of ?o 2] small len(2) o(1) C t
    by (simp add: FileObj_read_uint16_def as_int_def)
  have r64: "FileObj_read_uint64 f (?o + 2) = (Inr (rec_tranc_id r), f)"
    using checked_read [OF assms(3), of "?o + 2" 8] small len(2) o(2) C t
    by (simp add: FileObj_read_uint64_def as_int_def)
  have nxt: "?o + ucast (of_nat (wire_len r) :: u16) = of_nat (length (pre @ wire r))"
    using len by (simp add: unsigned_of_nat take_bit_nat_eq_self)
  have "has_unfinished checkpoint f ?o =
      (if checkpoint < rec_tranc_id r then Some (Inr True) else has_unfinished checkpoint f (of_nat (length (pre @ wire r))))"
    using cond assms(3) r16 r64 nxt by (subst has_unfinished.simps) (simp add: FileObj_size_def StdFile_size_def)
  then show ?case using Cons.IH [of "pre @ wire r"] Cons.prems C by simp
qed

subsection \<open>The cleaner removes what the checkpoint covers\<close>

definition seq_no :: "dir_entry \<Rightarrow> u64" where
  "seq_no e = (case wal_seq (fst e) of Inl _ \<Rightarrow> 0 | Inr seq \<Rightarrow> seq)"

definition numbered :: "string \<Rightarrow> bool" where
  "numbered name \<longleftrightarrow> (\<exists>n<2 ^ 64. name = ''wal.'' @ nat_to_string n)"

lemma numberedE:
  assumes "numbered (fst e)"
  obtains n where "n < 2 ^ 64" "fst e = ''wal.'' @ nat_to_string n" "wal_seq (fst e) = Inr (of_nat n)" "seq_no e = of_nat n"
proof -
  obtain n where n: "n < 2 ^ 64" "fst e = ''wal.'' @ nat_to_string n" using assms unfolding numbered_def by blast
  then have "wal_seq (fst e) = Inr (of_nat n)" by (simp only: wal_seq_number)
  then show thesis using that [OF n] by (simp add: seq_no_def)
qed

text \<open>A directory as the log writes it: log files are numbered, and each holds whole records.\<close>

definition log_dir :: "(string \<Rightarrow> Record list) \<Rightarrow> dir_entry list \<Rightarrow> bool" where
  "log_dir recs dir \<longleftrightarrow>
     distinct (map fst dir) \<and>
     (\<forall>e\<in>set dir. is_wal e \<longrightarrow>
        numbered (fst e) \<and> (\<forall>r\<in>set (recs (fst e)). storable r) \<and>
        snd (snd e) = log_image (recs (fst e)) \<and> length (snd (snd e)) < 2 ^ 63)"

lemma wal_paths_numbered:
  assumes "\<forall>e\<in>set dir. is_wal e \<longrightarrow> numbered (fst e)"
  shows "wal_paths dir = Inr (map (\<lambda>e. (seq_no e, e)) (filter is_wal dir))"
  using assms
proof (induction dir)
  case (Cons e dir)
  have "wal_seq (fst e) = Inr (seq_no e)" if "is_wal e" using Cons.prems that by (auto elim: numberedE)
  then show ?case using Cons by simp
qed simp

lemma del_paths_finished:
  assumes "\<forall>e\<in>set es. (\<forall>r\<in>set (recs (fst e)). storable r) \<and> snd (snd e) = log_image (recs (fst e)) \<and>
    length (snd (snd e)) < 2 ^ 63"
  shows "del_paths cp es = Some (Inr (map fst (filter (\<lambda>e. \<forall>r\<in>set (recs (fst e)). rec_tranc_id r \<le> cp) es)))"
  using assms
proof (induction es)
  case (Cons e es)
  obtain name reg c where e: "e = (name, reg, c)" by (cases e)
  let ?f = "\<lparr>filename = name, sf_is_open = True, sf_fail = False, sf_content = c\<rparr>"
  have "has_unfinished cp ?f 0 = Some (Inr (\<exists>r\<in>set (recs name). cp < rec_tranc_id r))"
    using scan_records [of "recs name" ?f "[]" cp] Cons.prems e by (auto simp: usable_def)
  moreover have "del_paths cp es = Some (Inr (map fst (filter (\<lambda>e. \<forall>r\<in>set (recs (fst e)). rec_tranc_id r \<le> cp) es)))"
    by (rule Cons.IH) (use Cons.prems in auto)
  ultimately show ?case using e by (auto simp: FileObj_open_def StdFile_open_def not_less [symmetric])
qed simp

lemma seq_no_inj:
  assumes "log_dir recs dir" "a \<in> set dir" "b \<in> set dir" "is_wal a" "is_wal b" "seq_no a = seq_no b"
  shows "a = b"
proof -
  have "numbered (fst a)" "numbered (fst b)" using assms(1-5) by (auto simp: log_dir_def)
  then obtain n m where n: "n < 2 ^ 64" "fst a = ''wal.'' @ nat_to_string n" "seq_no a = of_nat n"
    and m: "m < 2 ^ 64" "fst b = ''wal.'' @ nat_to_string m" "seq_no b = of_nat m" by (auto elim!: numberedE)
  have "unat (of_nat n :: u64) = n" "unat (of_nat m :: u64) = m" using n(1) m(1) by (simp_all add: unat_of_nat)
  then have "n = m" using n(3) m(3) assms(6) by metis
  then have "fst a = fst b" using n m by simp
  then show ?thesis using assms(1-3) by (auto simp: log_dir_def distinct_map inj_on_def)
qed

lemma last_of_sorted:
  fixes f :: "'a \<Rightarrow> 'b::linorder"
  assumes "sorted (map f xs)" "inj_on f (set xs)" "distinct xs" "x \<in> set xs"
  shows "x \<in> set (butlast xs) \<longleftrightarrow> \<not> (\<forall>y\<in>set xs. f y \<le> f x)"
proof -
  obtain ys z where xs: "xs = ys @ [z]" using assms(4) by (cases xs rule: rev_cases) auto
  have "\<forall>y\<in>set ys. f y \<le> f z" using assms(1) xs by (auto simp: sorted_append)
  moreover have "f x \<noteq> f z" if "x \<noteq> z" using assms(2,4) xs that by (auto simp: inj_on_def)
  ultimately show ?thesis using assms(3,4) xs by fastforce
qed

lemma clean_result:
  assumes "log_dir recs dir"
  shows "\<exists>dir'. cleanWALFile w dir = Some (Inr dir') \<and>
    (\<forall>e\<in>set dir. e \<in> set dir' \<longleftrightarrow>
       \<not> is_wal e \<or> (\<forall>e'\<in>set dir. is_wal e' \<longrightarrow> seq_no e' \<le> seq_no e) \<or>
       (\<exists>r\<in>set (recs (fst e)). wal_checkpoint_tranc_id w < rec_tranc_id r)) \<and> set dir' \<subseteq> set dir"
proof -
  let ?cp = "wal_checkpoint_tranc_id w" and ?ps = "map (\<lambda>e. (seq_no e, e)) (filter is_wal dir)"
  let ?done = "\<lambda>e. \<forall>r\<in>set (recs (fst e)). rec_tranc_id r \<le> ?cp"
  define old where "old = map snd (butlast (sort_key fst ?ps))"
  have ps: "wal_paths dir = Inr ?ps" by (rule wal_paths_numbered) (use assms in \<open>auto simp: log_dir_def\<close>)
  have dist: "distinct dir" using assms by (auto simp: log_dir_def distinct_map)
  have sub: "set old \<subseteq> {e \<in> set dir. is_wal e}" unfolding old_def by (auto dest!: in_set_butlastD)
  have old: "e \<in> set old \<longleftrightarrow> \<not> (\<forall>e'\<in>set dir. is_wal e' \<longrightarrow> seq_no e' \<le> seq_no e)" if "e \<in> set dir" "is_wal e" for e
  proof -
    have "e \<in> set old \<longleftrightarrow> (seq_no e, e) \<in> set (butlast (sort_key fst ?ps))"
    proof
      assume "e \<in> set old"
      then obtain q where q: "q \<in> set (butlast (sort_key fst ?ps))" "snd q = e" unfolding old_def by auto
      then have "q = (seq_no e, e)" by (auto dest!: in_set_butlastD)
      with q show "(seq_no e, e) \<in> set (butlast (sort_key fst ?ps))" by simp
    next
      assume "(seq_no e, e) \<in> set (butlast (sort_key fst ?ps))"
      then have "snd (seq_no e, e) \<in> set old" unfolding old_def set_map by (rule imageI)
      then show "e \<in> set old" by simp
    qed
    also have "\<dots> \<longleftrightarrow> \<not> (\<forall>p\<in>set (sort_key fst ?ps). fst p \<le> fst (seq_no e, e))"
      using seq_no_inj [OF assms] dist that
      by (intro last_of_sorted) (auto simp: inj_on_def distinct_map)
    finally show ?thesis by auto
  qed
  have del: "del_paths ?cp old = Some (Inr (map fst (filter ?done old)))"
  proof (rule del_paths_finished)
    show "\<forall>e\<in>set old. (\<forall>r\<in>set (recs (fst e)). storable r) \<and> snd (snd e) = log_image (recs (fst e)) \<and>
        length (snd (snd e)) < 2 ^ 63"
      using assms sub by (fastforce simp: log_dir_def)
  qed
  let ?dir = "filter (\<lambda>e. fst e \<notin> set (map fst (filter ?done old))) dir"
  have "cleanWALFile w dir = Some (Inr ?dir)" using ps del by (simp add: cleanWALFile_def old_def [symmetric])
  moreover have "e \<in> set ?dir \<longleftrightarrow>
      \<not> is_wal e \<or> (\<forall>e'\<in>set dir. is_wal e' \<longrightarrow> seq_no e' \<le> seq_no e) \<or> (\<exists>r\<in>set (recs (fst e)). ?cp < rec_tranc_id r)"
    if e: "e \<in> set dir" for e
  proof -
    have "e \<in> set ?dir \<longleftrightarrow> \<not> (e \<in> set old \<and> ?done e)"
      using e sub assms by (auto simp: log_dir_def distinct_map inj_on_def)
    moreover have "\<not> ?done e \<longleftrightarrow> (\<exists>r\<in>set (recs (fst e)). ?cp < rec_tranc_id r)" by (auto simp: not_le)
    moreover have "e \<in> set old \<Longrightarrow> is_wal e" using sub by auto
    ultimately show ?thesis using old [OF e] by (cases "is_wal e") blast+
  qed
  moreover have "set ?dir \<subseteq> set dir" by auto
  ultimately show ?thesis by blast
qed

subsection \<open>Properties\<close>

text \<open>
  C12: on a log directory the cleaner returns and leaves everything that is not a log file, the log file
  with the largest number, and every log file with a record of a transaction after the checkpoint; it
  removes all other log files.
\<close>

theorem wal_clean_correct:
  assumes "log_dir recs dir"
  shows "\<exists>dir'. cleanWALFile w dir = Some (Inr dir') \<and> set dir' \<subseteq> set dir \<and>
    (\<forall>e\<in>set dir. e \<in> set dir' \<longleftrightarrow>
       \<not> is_wal e \<or> (\<forall>e'\<in>set dir. is_wal e' \<longrightarrow> seq_no e' \<le> seq_no e) \<or>
       (\<exists>r\<in>set (recs (fst e)). wal_checkpoint_tranc_id w < rec_tranc_id r))"
  using clean_result [OF assms, of w] by blast

definition sample_wal :: WAL where
  "sample_wal = \<lparr>active_log_path = ''d/wal.1'', log_file = StdFile_new, wal_checkpoint_tranc_id = 5\<rparr>"

lemma wal_clean_correct_witness:
  "\<exists>dir'. cleanWALFile sample_wal [(''wal.0'', True, log_image [commitRecord 3]), (''wal.1'', True, [])] = Some (Inr dir') \<and>
     (''wal.0'', True, log_image [commitRecord 3]) \<notin> set dir' \<and> (''wal.1'', True, []) \<in> set dir'"
proof -
  let ?recs = "\<lambda>name. if name = ''wal.0'' then [commitRecord 3] else []"
  let ?dir = "[(''wal.0'', True, log_image [commitRecord 3]), (''wal.1'', True, [])] :: dir_entry list"
  have nm: "''wal.0'' = ''wal.'' @ nat_to_string 0" "''wal.1'' = ''wal.'' @ nat_to_string 1" by code_simp+
  have num: "numbered ''wal.0''" "numbered ''wal.1''"
    unfolding numbered_def by (rule exI [of _ 0], use nm(1) in simp) (rule exI [of _ 1], use nm(2) in simp)
  have st: "storable (commitRecord 3)"
    by (simp add: storable_def constructed.intros) (simp add: wire_len_def commitRecord_def)
  have len: "length (log_image [commitRecord 3]) < 2 ^ 63"
    by (simp add: log_image_def length_wire) (simp add: wire_len_def commitRecord_def)
  have dir: "log_dir ?recs ?dir" using num st len by (simp add: log_dir_def log_image_def)
  have seq: "seq_no (''wal.0'', True, log_image [commitRecord 3]) = 0" "seq_no (''wal.1'', True, []) = 1"
    using wal_seq_number [of 0] wal_seq_number [of 1] unfolding nm [symmetric] by (simp_all add: seq_no_def)
  show ?thesis
    using wal_clean_correct [OF dir, of sample_wal] seq
    by (auto simp: is_wal_def sample_wal_def commitRecord_def)
qed

text \<open>
  A record length of zero, which a file that was preallocated or damaged can hold, stops the scan from
  advancing: the cleaner does not return.
\<close>

lemma scan_returns:
  "has_unfinished cp f off = Some r \<Longrightarrow>
     \<not> (usable f \<and> off + 2 < of_nat (length (sf_content f)) \<and> FileObj_read_uint16 f off = (Inr 0, f) \<and>
        (\<exists>t. FileObj_read_uint64 f (off + 2) = (Inr t, f) \<and> t \<le> cp))"
proof (rule has_unfinished.raw_induct [where P = "\<lambda>cp f off r.
     \<not> (usable f \<and> off + 2 < of_nat (length (sf_content f)) \<and> FileObj_read_uint16 f off = (Inr 0, f) \<and>
        (\<exists>t. FileObj_read_uint64 f (off + 2) = (Inr t, f) \<and> t \<le> cp))"], goal_cases)
  case (1 g cp f off r)
  then show ?case by (auto simp: FileObj_size_def StdFile_size_def split: if_splits)
qed

lemma zero_length_record_hangs:
  "has_unfinished 5 \<lparr>filename = ''wal.0'', sf_is_open = True, sf_fail = False, sf_content = replicate 16 0\<rparr> 0 = None"
proof -
  let ?f = "\<lparr>filename = ''wal.0'', sf_is_open = True, sf_fail = False, sf_content = replicate 16 0\<rparr>"
  have z: "le_val (replicate n 0) = 0" for n by (induction n) simp_all
  have "FileObj_read_uint16 ?f 0 = (Inr 0, ?f)" "FileObj_read_uint64 ?f 2 = (Inr 0, ?f)"
    using checked_read [of ?f 0 2] checked_read [of ?f 2 8]
    by (simp_all add: FileObj_read_uint16_def FileObj_read_uint64_def as_int_def usable_def dec16_def dec64_def z)
  then show ?thesis using scan_returns [of 5 ?f 0] by (cases "has_unfinished 5 ?f 0") (auto simp: usable_def)
qed

text \<open>A new log file: the number in the path of the active file is increased by one.\<close>

lemma reset_file_next:
  assumes "active_log_path w = base @ ''.'' @ nat_to_string n" "n + 1 < 2 ^ 31"
  shows "reset_file w = Inr (w\<lparr>active_log_path := base @ ''.'' @ nat_to_string (n + 1),
    log_file := \<lparr>filename = base @ ''.'' @ nat_to_string (n + 1), sf_is_open = True, sf_fail = False, sf_content = []\<rparr>\<rparr>)"
proof -
  have path: "after_last CHR ''.'' (active_log_path w) = nat_to_string n" "before_last CHR ''.'' (active_log_path w) = base"
    using split_last [OF no_dot_in_number, of base n] assms(1) by simp_all
  have "stoi (nat_to_string n) = Inr (int n)"
    using sto_int_to_string [of 32 "int n"] assms(2) by (simp add: to_string_def)
  moreover have "to_string (int n + 1) = nat_to_string (n + 1)" by (simp add: to_string_def nat_add_distrib)
  ultimately show ?thesis using path assms(2)
    by (simp add: reset_file_def signed_range_def FileObj_create_and_write_def StdFile_create_def StdFile_open_def Let_def)
qed

end
