(* ===== verification/Engine_Files.thy ===== *)
theory Engine_Files
  imports Config_File Sst_Iter Mem_Table Value_Log Wal_Files
begin

text \<open>
  The finished parts of \<^verbatim>\<open>LSMEngine\<close> in \<^verbatim>\<open>src/lsm/engine.cpp\<close>: the file names of the tables, the size of a
  table per level, and \<^verbatim>\<open>clear\<close>. The data directory is a list of entries (name, whether it is a regular
  file, contents); the files in it can be removed and created. Locks, the block cache and the pointer to
  the transaction manager, which these functions do not touch, are left out.
\<close>

record LSMEngine =
  data_dir :: string
  memtable :: MemTable
  level_sst_ids :: "nat \<rightharpoonup> nat list"
  ssts :: "nat \<rightharpoonup> SST"
  engine_vlog :: "VLog option"
  next_sst_id :: nat
  cur_max_level :: nat

subsection \<open>Names and sizes of tables\<close>

definition setw :: "nat \<Rightarrow> char \<Rightarrow> string \<Rightarrow> string" where
  "setw n c s = replicate (n - length s) c @ s"

definition get_sst_path :: "LSMEngine \<Rightarrow> u64 \<Rightarrow> u64 \<Rightarrow> string" where
  "get_sst_path e i lev =
     data_dir e @ ''/sst_'' @ setw 32 CHR ''0'' (nat_to_string (unat i)) @ ''.'' @ nat_to_string (unat lev)"

text \<open>\<open>fpow\<close> is \<^verbatim>\<open>std::pow\<close> converted to \<^verbatim>\<open>size_t\<close>.\<close>

definition get_sst_size :: "(int \<Rightarrow> u64 \<Rightarrow> u64) \<Rightarrow> 'd TomlConfig \<Rightarrow> u64 \<Rightarrow> u64" where
  "get_sst_size fpow cfg level =
     (if level = 0 then of_int (lsm_per_mem_size_limit cfg)
      else of_int (lsm_per_mem_size_limit cfg) * fpow (lsm_sst_level_ratio cfg) level)"

lemma setw_length: "length s \<le> n \<Longrightarrow> length (setw n c s) = n"
  by (simp add: setw_def)

lemma length_digits_le: "n < 10 ^ k \<Longrightarrow> 0 < k \<Longrightarrow> length (nat_to_string n) \<le> k"
proof (induction n arbitrary: k rule: nat_to_string.induct)
  case (1 n)
  show ?case
  proof (cases "n < 10")
    case True
    with 1(3) show ?thesis by (subst nat_to_string.simps) simp
  next
    case False
    with 1(2) have k: "1 < k" by (cases k; cases "k - 1") auto
    then have "n div 10 < 10 ^ (k - 1)" using 1(2) by (cases k) auto
    with 1(1) [OF False, of "k - 1"] k have "length (nat_to_string (n div 10)) \<le> k - 1" by simp
    with False k show ?thesis by (subst nat_to_string.simps) simp
  qed
qed

lemma sst_id_width: "length (setw 32 c (nat_to_string (unat (i :: u64)))) = 32"
proof -
  have "unat i < 2 ^ 64" using unsigned_less [of i, where ?'a = nat] by simp
  also have "\<dots> < 10 ^ 32" by simp
  finally show ?thesis by (intro setw_length length_digits_le) simp_all
qed

text \<open>Strings of digits of the same length are ordered as the numbers they denote.\<close>

lemma foldl_digits:
  "foldl (\<lambda>n c. 10 * n + digit_val c) a ds = a * 10 ^ length ds + foldl (\<lambda>n c. 10 * n + digit_val c) 0 ds"
proof (induction ds arbitrary: a)
  case (Cons c ds)
  show ?case using Cons [of "10 * a + digit_val c"] Cons [of "digit_val c"] by (simp add: algebra_simps)
qed simp

lemma digits_val_Cons: "digits_val (c # ds) = digit_val c * 10 ^ length ds + digits_val ds"
  using foldl_digits [of "digit_val c" ds] by (simp add: digits_val_def)

lemma digit_val_le: "is_digit c \<Longrightarrow> digit_val c \<le> 9"
  unfolding is_digit_def digit_val_def by linarith

lemma digit_val_less: "is_digit c \<Longrightarrow> is_digit d \<Longrightarrow> digit_val c < digit_val d \<longleftrightarrow> c < d"
  by (auto simp: is_digit_def digit_val_def less_char_def)

lemma digits_val_bound: "\<forall>c\<in>set ds. is_digit c \<Longrightarrow> digits_val ds < 10 ^ length ds"
proof (induction ds)
  case (Cons c ds)
  then have "digit_val c \<le> 9" "digits_val ds < 10 ^ length ds" by (simp_all add: digit_val_le)
  then have "digit_val c * 10 ^ length ds + digits_val ds < 9 * 10 ^ length ds + 10 ^ length ds"
    by (intro add_le_less_mono mult_right_mono) simp_all
  then show ?case by (simp add: digits_val_Cons)
qed (simp add: digits_val_def)

lemma digits_val_less:
  assumes "length a = length b" "\<forall>c\<in>set a. is_digit c" "\<forall>c\<in>set b. is_digit c" "digits_val a < digits_val b"
  shows "a < b"
  using assms
proof (induction a b rule: list_induct2)
  case (Cons x xs y ys)
  let ?n = "10 ^ length ys :: nat"
  have b: "digits_val xs < ?n" "digits_val ys < ?n" using Cons.prems Cons.hyps digits_val_bound [of xs] digits_val_bound [of ys] by simp_all
  show ?case
  proof (cases "digit_val x < digit_val y")
    case True
    then show ?thesis using Cons.prems digit_val_less by auto
  next
    case False
    then have "digit_val y * ?n \<le> digit_val x * ?n" by simp
    have "\<not> digit_val y < digit_val x"
    proof
      assume "digit_val y < digit_val x"
      then have "Suc (digit_val y) * ?n \<le> digit_val x * ?n" by (intro mult_right_mono) simp_all
      with b Cons show False by (simp add: digits_val_Cons)
    qed
    with False have "x = y"
      using Cons.prems digit_val_less [of x y] digit_val_less [of y x] by (cases x y rule: linorder_cases) auto
    with Cons show ?thesis by (simp add: digits_val_Cons)
  qed
qed simp

lemma setw_digits: "c \<in> set (setw n CHR ''0'' (nat_to_string i)) \<Longrightarrow> is_digit c"
proof -
  have "is_digit CHR ''0''" by (simp add: is_digit_def)
  then show "c \<in> set (setw n CHR ''0'' (nat_to_string i)) \<Longrightarrow> is_digit c"
    by (auto simp: setw_def dest: nat_to_string_digits split: if_splits)
qed

lemma digits_val_setw [simp]: "digits_val (setw n CHR ''0'' (nat_to_string i)) = i"
proof -
  have "digits_val (replicate m CHR ''0'' @ s) = digits_val s" for m s
    by (induction m) (simp_all add: digits_val_Cons digit_val_def)
  then show ?thesis by (simp add: setw_def)
qed

lemma less_same_length_append: "length a = length b \<Longrightarrow> a < b \<Longrightarrow> a @ x < b @ (y :: string)"
  by (induction a b rule: list_induct2) auto

text \<open>Table names sort by table id, whatever the levels.\<close>

theorem sst_path_order: "i < j \<Longrightarrow> get_sst_path e i l < get_sst_path e j l'"
proof -
  assume "i < j"
  then have "setw 32 CHR ''0'' (nat_to_string (unat i)) < setw 32 CHR ''0'' (nat_to_string (unat j))"
    by (intro digits_val_less) (auto simp: sst_id_width word_less_nat_alt dest: setw_digits)
  moreover have "p @ a < p @ b \<longleftrightarrow> a < b" for p a b :: string by (induction p) auto
  ultimately show ?thesis
    unfolding get_sst_path_def by (simp add: less_same_length_append sst_id_width)
qed

lemma sst_path_inj:
  assumes "get_sst_path e i l = get_sst_path e j l'"
  shows "i = j" and "l = l'"
proof -
  show id: "i = j"
    using sst_path_order [of i j e l l'] sst_path_order [of j i e l' l] assms
    by (cases i j rule: linorder_cases) auto
  with assms have "nat_to_string (unat l) = nat_to_string (unat l')" by (simp add: get_sst_path_def)
  then have "digits_val (nat_to_string (unat l)) = digits_val (nat_to_string (unat l'))" by (rule arg_cong)
  then show "l = l'" by (simp add: word_unat_eq_iff)
qed


subsection \<open>Clearing the database\<close>

definition vlog_name :: string where
  "vlog_name = ''vlog.data''"

text \<open>\<^verbatim>\<open>std::remove\<close> of a path in the data directory: a file of that path is unlinked.\<close>

definition del_file :: "string \<Rightarrow> StdFile \<Rightarrow> dir_entry list \<Rightarrow> dir_entry list" where
  "del_file d f dir = filter (\<lambda>(name, regular, _). \<not> (regular \<and> d @ ''/'' @ name = filename f)) dir"

definition del_vlog :: "string \<Rightarrow> VLog \<Rightarrow> dir_entry list \<Rightarrow> dir_entry list" where
  "del_vlog d v dir = del_file d (vlog_file v) dir"

text \<open>\<^verbatim>\<open>VLog::open\<close> on a name in the data directory: the file is created when the name is free.\<close>

definition open_vlog_in :: "string \<Rightarrow> string \<Rightarrow> dir_entry list \<Rightarrow> (VLog \<times> dir_entry list) io" where
  "open_vlog_in d name dir =
     (case map_of dir name of
        None \<Rightarrow> (case VLog_open (d @ ''/'' @ name) None of Inl e \<Rightarrow> Inl e | Inr v \<Rightarrow> Inr (v, dir @ [(name, True, [])]))
      | Some (regular, c) \<Rightarrow>
          if \<not> regular then Inl Failed_to_open
          else case VLog_open (d @ ''/'' @ name) (Some c) of Inl e \<Rightarrow> Inl e | Inr v \<Rightarrow> Inr (v, dir))"

definition LSMEngine_clear :: "LSMEngine \<Rightarrow> dir_entry list \<Rightarrow> (LSMEngine \<times> dir_entry list) io" where
  "LSMEngine_clear e dir =
     (let e = e\<lparr>memtable := MemTable_clear (memtable e), level_sst_ids := Map.empty, ssts := Map.empty\<rparr>;
          dir = filter (\<lambda>(name, regular, _). \<not> regular) dir
      in case engine_vlog e of
           None \<Rightarrow> Inr (e, dir)
         | Some v \<Rightarrow>
             (let dir = del_vlog (data_dir e) v dir
              in case open_vlog_in (data_dir e) vlog_name dir of
                   Inl er \<Rightarrow> Inl er
                 | Inr (v, dir) \<Rightarrow> Inr (e\<lparr>engine_vlog := Some v\<rparr>, dir)))"

text \<open>
  C32: after clear the engine holds no table and no entry in memory, the value log is empty, and of the
  files of the data directory only an empty value log is left; directories stay.
\<close>

theorem engine_clear_empties:
  assumes "engine_vlog e = Some v" "mem_abs (memtable e) es ess" "vlog_name \<notin> fst ` set (filter (\<lambda>(name, regular, _). \<not> regular) dir)"
  shows "\<exists>e' v'. LSMEngine_clear e dir = Inr (e', filter (\<lambda>(name, regular, _). \<not> regular) dir @ [(vlog_name, True, [])]) \<and>
    ssts e' = Map.empty \<and> level_sst_ids e' = Map.empty \<and> memtable e' = MemTable_clear (memtable e) \<and>
    frozen_tables (memtable e') = [] \<and> get_cur_size (memtable e') = 0 \<and>
    SkipList_flush (current_table (memtable e')) = Some [] \<and>
    engine_vlog e' = Some v' \<and> tail_offset v' = (0, v') \<and> next_sst_id e' = next_sst_id e"
proof -
  let ?dir = "filter (\<lambda>(name, regular, _). \<not> regular) dir"
  have "del_vlog (data_dir e) v ?dir = ?dir"
    unfolding del_vlog_def del_file_def filter_filter by (rule filter_cong) auto
  moreover have "map_of ?dir vlog_name = None" using assms(3) by (simp add: map_of_eq_None_iff)
  moreover obtain v' where "VLog_open (data_dir e @ ''/'' @ vlog_name) None = Inr v'" "tail_offset v' = (0, v')"
    using VLog_open_keeps [of "data_dir e @ ''/'' @ vlog_name" None] by auto
  moreover have "sl_abs (SkipList_clear (current_table (memtable e))) []" "size_bytes (SkipList_clear (current_table (memtable e))) = 0"
    using assms(2) clear_abs by (auto simp: mem_abs_def)
  ultimately show ?thesis
    using assms(1)
    by (simp add: LSMEngine_clear_def flush_abs SkipList_get_size_def open_vlog_in_def MemTable_clear_def get_cur_size_def)
qed

definition sample_engine :: LSMEngine where
  "sample_engine =
     \<lparr>data_dir = ''d'', memtable = sample_table, level_sst_ids = [0 \<mapsto> [1]],
      ssts = Map.empty, engine_vlog = Some \<lparr>vlog_file = StdFile_new, vlog_path = ''d/vlog.data''\<rparr>,
      next_sst_id = 2, cur_max_level = 0\<rparr>"

theorem engine_clear_empties_witness:
  "\<exists>e' v'. LSMEngine_clear sample_engine [(''sst'', True, [1]), (''sub'', False, []), (vlog_name, True, [7])] =
      Inr (e', [(''sub'', False, []), (vlog_name, True, [])]) \<and> engine_vlog e' = Some v' \<and> tail_offset v' = (0, v')"
proof -
  have "engine_vlog sample_engine = Some \<lparr>vlog_file = StdFile_new, vlog_path = ''d/vlog.data''\<rparr>"
    "mem_abs (memtable sample_engine) [(''k'', ''v'', 3)] []"
    by (simp_all add: sample_engine_def sample_table_abs)
  from engine_clear_empties [OF this, of "[(''sst'', True, [1]), (''sub'', False, []), (vlog_name, True, [7])]"]
  show ?thesis by (auto simp: vlog_name_def)
qed

theorem sst_path_order_witness:
  "get_sst_path sample_engine 9 3 < get_sst_path sample_engine 10 0"
  by (rule sst_path_order) simp

lemma get_sst_path_example: "get_sst_path sample_engine 42 1 = ''d/sst_00000000000000000000000000000042.1''"
  by code_simp

end
