(* ===== verification/Mmap_File.thy ===== *)
theory Mmap_File
  imports Byte_Buffer
begin

text \<open>
  The memory-mapped file of \<^verbatim>\<open>src/utils/mmap_file.cpp\<close>, the second implementation of file access. A state
  has the contents of the open file and the mapping onto it; the mapping is shared, so what is written
  through it is in the file. The operating system is a parameter that decides which calls of \<^verbatim>\<open>ftruncate\<close>
  and \<^verbatim>\<open>mmap\<close> succeed; a mapping of length zero never does. Access through a pointer that is not a mapping,
  or outside of it, is \<^const>\<open>None\<close>.
\<close>

datatype mapping = Null | Map_failed | Mapped nat

record MmapFile =
  mm_fd :: bool
  mm_mapped :: mapping
  mm_file_size :: u64
  mm_filename :: string
  mm_content :: bytes

record mmap_os =
  os_ftruncate :: "u64 \<Rightarrow> bool"
  os_mmap :: "u64 \<Rightarrow> bool"

definition MmapFile_init :: MmapFile where
  "MmapFile_init = \<lparr>mm_fd = False, mm_mapped = Null, mm_file_size = 0, mm_filename = [], mm_content = []\<rparr>"

definition mmap_call :: "mmap_os \<Rightarrow> u64 \<Rightarrow> mapping" where
  "mmap_call os len = (if len \<noteq> 0 \<and> os_mmap os len then Mapped (unat len) else Map_failed)"

text \<open>\<^verbatim>\<open>ftruncate\<close> cuts the file or fills it with zeros.\<close>

definition resized :: "bytes \<Rightarrow> nat \<Rightarrow> bytes" where
  "resized c n = take n (c @ replicate (n - length c) 0)"

definition unmapped :: "MmapFile \<Rightarrow> MmapFile" where
  "unmapped f = (case mm_mapped f of Mapped _ \<Rightarrow> f\<lparr>mm_mapped := Null\<rparr> | _ \<Rightarrow> f)"

definition MmapFile_close :: "MmapFile \<Rightarrow> MmapFile" where
  "MmapFile_close f = (unmapped f)\<lparr>mm_fd := False, mm_file_size := 0\<rparr>"

definition MmapFile_open :: "mmap_os \<Rightarrow> bytes option \<Rightarrow> string \<Rightarrow> bool \<Rightarrow> MmapFile \<Rightarrow> bool \<times> MmapFile" where
  "MmapFile_open os disk path create f =
     (let f = f\<lparr>mm_filename := path\<rparr>
      in case (if create \<and> disk = None then Some [] else disk) of
           None \<Rightarrow> (False, f\<lparr>mm_fd := False\<rparr>)
         | Some c \<Rightarrow>
             (let f = f\<lparr>mm_fd := True, mm_content := c, mm_file_size := of_nat (length c)\<rparr>
              in if 0 < mm_file_size f
                 then (let f = f\<lparr>mm_mapped := mmap_call os (mm_file_size f)\<rparr>
                       in if mm_mapped f = Map_failed then (False, MmapFile_close f) else (True, f))
                 else (True, f)))"

definition create_and_map :: "mmap_os \<Rightarrow> u64 \<Rightarrow> MmapFile \<Rightarrow> bool \<times> MmapFile" where
  "create_and_map os sz f =
     (let f = f\<lparr>mm_fd := True, mm_content := []\<rparr>
      in if \<not> os_ftruncate os sz then (False, MmapFile_close f)
         else (let f = f\<lparr>mm_content := resized [] (unat sz), mm_mapped := mmap_call os sz\<rparr>
               in if mm_mapped f = Map_failed then (False, MmapFile_close f) else (True, f\<lparr>mm_file_size := sz\<rparr>)))"

text \<open>\<^verbatim>\<open>memcpy\<close> through the mapping.\<close>

definition copy_in :: "MmapFile \<Rightarrow> nat \<Rightarrow> bytes \<Rightarrow> MmapFile option" where
  "copy_in f off d =
     (case mm_mapped f of
        Mapped n \<Rightarrow> if off + length d \<le> n then do { c \<leftarrow> memcpy_to (mm_content f) off d; Some (f\<lparr>mm_content := c\<rparr>) } else None
      | _ \<Rightarrow> None)"

definition MmapFile_create :: "mmap_os \<Rightarrow> bytes \<Rightarrow> MmapFile \<Rightarrow> (bool \<times> MmapFile) option" where
  "MmapFile_create os buf f =
     (case create_and_map os (of_nat (length buf)) f of
        (False, f) \<Rightarrow> Some (False, f)
      | (True, f) \<Rightarrow> do { f \<leftarrow> copy_in f 0 buf; Some (True, f) })"

definition MmapFile_write :: "mmap_os \<Rightarrow> u64 \<Rightarrow> bytes \<Rightarrow> MmapFile \<Rightarrow> (bool \<times> MmapFile) option" where
  "MmapFile_write os offset d f =
     (let new_size = offset + of_nat (length d)
      in if \<not> (mm_fd f \<and> os_ftruncate os new_size) then Some (False, f)
         else (let f = f\<lparr>mm_content := resized (mm_content f) (unat new_size), mm_file_size := new_size,
                         mm_mapped := mmap_call os new_size\<rparr>
               in if mm_mapped f = Map_failed then Some (False, f\<lparr>mm_mapped := Null\<rparr>)
                  else do { f \<leftarrow> copy_in f (unat offset) d; Some (True, f) }))"

definition MmapFile_read :: "u64 \<Rightarrow> u64 \<Rightarrow> MmapFile \<Rightarrow> bytes option" where
  "MmapFile_read offset len f =
     (case mm_mapped f of
        Mapped n \<Rightarrow> if unat offset + unat len \<le> n then read_at (mm_content f) (unat offset) (unat len) else None
      | _ \<Rightarrow> None)"

definition MmapFile_truncate :: "mmap_os \<Rightarrow> u64 \<Rightarrow> MmapFile \<Rightarrow> bool \<times> MmapFile" where
  "MmapFile_truncate os sz f =
     (let f = unmapped f
      in if \<not> (mm_fd f \<and> os_ftruncate os sz) then (False, f)
         else (let f = f\<lparr>mm_content := resized (mm_content f) (unat sz)\<rparr>
               in if 0 < sz
                  then (let f = f\<lparr>mm_mapped := mmap_call os sz\<rparr>
                        in if mm_mapped f = Map_failed then (False, f\<lparr>mm_mapped := Null\<rparr>)
                           else (True, f\<lparr>mm_file_size := sz\<rparr>))
                  else (True, f\<lparr>mm_mapped := Null, mm_file_size := sz\<rparr>)))"

definition MmapFile_size :: "MmapFile \<Rightarrow> u64" where
  "MmapFile_size f = mm_file_size f"

subsection \<open>Correctness\<close>

text \<open>An open file whose mapping covers it; an empty file has no mapping.\<close>

definition mm_ok :: "MmapFile \<Rightarrow> bool" where
  "mm_ok f \<longleftrightarrow> mm_fd f \<and> unat (mm_file_size f) = length (mm_content f) \<and>
     mm_mapped f = (if mm_content f = [] then Null else Mapped (length (mm_content f)))"

lemma length_resized [simp]: "length (resized c n) = n"
  by (simp add: resized_def)

lemma take_resized: "off \<le> n \<Longrightarrow> take off (resized c n) = resized c off"
  by (rule nth_equalityI) (auto simp: resized_def nth_append)

lemma mm_open_ok:
  assumes "MmapFile_open os (Some c) path create MmapFile_init = (True, f)" "length c < 2 ^ 64"
  shows "mm_ok f \<and> mm_content f = c"
proof -
  have u: "unat (of_nat (length c) :: u64) = length c" using assms(2) by (simp add: unat_of_nat)
  then have "0 < (of_nat (length c) :: u64) \<longleftrightarrow> c \<noteq> []"
    by (metis length_0_conv unat_eq_0 word_neq_0_conv)
  then show ?thesis
    using assms(1) u by (auto simp: MmapFile_open_def MmapFile_init_def mm_ok_def mmap_call_def Let_def split: if_splits)
qed

text \<open>
  A write whose system calls succeed keeps the file and its mapping in step and is read back; the file
  ends behind the bytes written.
\<close>

theorem mmap_write_read:
  assumes "mm_ok f" "unat offset + length d < 2 ^ 64" "d \<noteq> []"
    and "os_ftruncate os (offset + of_nat (length d))" "os_mmap os (offset + of_nat (length d))"
  shows "\<exists>f'. MmapFile_write os offset d f = Some (True, f') \<and> mm_ok f' \<and>
    mm_content f' = resized (mm_content f) (unat offset) @ d \<and>
    MmapFile_size f' = offset + of_nat (length d) \<and>
    MmapFile_read offset (of_nat (length d)) f' = Some d"
proof -
  let ?n = "offset + of_nat (length d)"
  have len: "unat (of_nat (length d) :: u64) = length d" using assms(2) by (simp add: unat_of_nat)
  then have n: "unat ?n = unat offset + length d"
    using assms(2) unat_word_ariths(1) [of offset "of_nat (length d)"] by simp
  then have "?n \<noteq> 0" using assms(3) by (metis add_is_0 length_0_conv unat_0)
  then have "MmapFile_write os offset d f = Some (True, f\<lparr>mm_content := resized (mm_content f) (unat offset) @ d,
      mm_file_size := ?n, mm_mapped := Mapped (unat offset + length d)\<rparr>)"
    using assms n by (simp add: MmapFile_write_def mmap_call_def copy_in_def memcpy_to_def mm_ok_def take_resized)
  then show ?thesis
    using assms n len by (simp add: mm_ok_def MmapFile_size_def MmapFile_read_def read_at_end)
qed

definition full_os :: mmap_os where
  "full_os = \<lparr>os_ftruncate = (\<lambda>_. True), os_mmap = (\<lambda>_. True)\<rparr>"

definition sample_mmap :: MmapFile where
  "sample_mmap = \<lparr>mm_fd = True, mm_mapped = Mapped 5, mm_file_size = 5, mm_filename = ''f'', mm_content = [1, 2, 3, 4, 5]\<rparr>"

theorem mmap_write_read_witness:
  "\<exists>f'. MmapFile_write full_os 1 [9] sample_mmap = Some (True, f') \<and> mm_content f' = [1, 9]"
proof -
  have "\<exists>f'. MmapFile_write full_os 1 [9] sample_mmap = Some (True, f') \<and> mm_ok f' \<and>
      mm_content f' = resized (mm_content sample_mmap) (unat (1 :: u64)) @ [9] \<and>
      MmapFile_size f' = 1 + of_nat (length [9 :: u8]) \<and> MmapFile_read 1 (of_nat (length [9 :: u8])) f' = Some [9]"
    by (rule mmap_write_read) (simp_all add: sample_mmap_def mm_ok_def full_os_def)
  then show ?thesis by (auto simp: sample_mmap_def resized_def)
qed

text \<open>
  Writing in the middle of a file cuts off what follows, where \<^verbatim>\<open>StdFile::write\<close> keeps it; and creating a
  file with no contents is refused, because there is no mapping of length zero.
\<close>

lemma mmap_write_truncates:
  "map_option (\<lambda>(ok, f). (ok, mm_content f)) (MmapFile_write full_os 0 [9] sample_mmap) = Some (True, [9])"
  by (simp add: MmapFile_write_def sample_mmap_def full_os_def mmap_call_def resized_def copy_in_def memcpy_to_def)

lemma mmap_create_empty_fails: "\<exists>f'. MmapFile_create os [] f = Some (False, f')"
  by (simp add: MmapFile_create_def create_and_map_def mmap_call_def Let_def)

text \<open>Truncating to a positive length keeps the mapping in step too.\<close>

lemma mmap_truncate_ok:
  assumes "mm_ok f" "os_ftruncate os n" "0 < n \<Longrightarrow> os_mmap os n"
  shows "\<exists>f'. MmapFile_truncate os n f = (True, f') \<and> mm_ok f' \<and> mm_content f' = resized (mm_content f) (unat n)"
proof -
  have u: "mm_fd (unmapped f)" "mm_content (unmapped f) = mm_content f"
    using assms(1) by (auto simp: unmapped_def mm_ok_def split: mapping.splits)
  show ?thesis
  proof (cases "n = 0")
    case True
    with u assms show ?thesis by (auto simp: MmapFile_truncate_def Let_def mm_ok_def resized_def)
  next
    case False
    then have "0 < unat n" by (simp add: unat_gt_0)
    then have "resized (mm_content f) (unat n) \<noteq> []" by (metis length_resized length_0_conv less_irrefl)
    with False u assms show ?thesis
      by (auto simp: MmapFile_truncate_def Let_def mm_ok_def mmap_call_def word_neq_0_conv)
  qed
qed

end
