(* ===== verification/Tran_Schedule.thy ===== *)
theory Tran_Schedule
  imports Tran_Context
begin

text \<open>
  Several transactions at work on one database: \<^verbatim>\<open>TranManager::new_tranc\<close> hands out contexts, their
  owners call \<^verbatim>\<open>put\<close>, \<^verbatim>\<open>remove\<close>, \<^verbatim>\<open>get\<close>, \<^verbatim>\<open>commit\<close> and \<^verbatim>\<open>abort\<close> in any order, and clients without a
  transaction call \<^verbatim>\<open>LSM::put\<close> in between. Each call is one step, because each holds its locks for its
  whole effect on the memory table. The step relation restricts the calls as a client has to: a
  transaction at REPEATABLE_READ or SERIALIZABLE, no call after its commit or abort, no empty key (the commit
  marker), and transaction ids that do not run out.

  \<open>ctxs\<close> is \<^verbatim>\<open>activeTrans_\<close>, in the order of creation. \<open>installed\<close> is no part of the program: it
  records the write sets that reached the database, with their ids, in the order they did.
\<close>

record ('s, 'w) Schedule =
  sys :: "('s, 'w) TranSystem"
  ctxs :: "TranContext list"
  installed :: "(u64 \<times> (string \<times> string) list) list"

definition open_ctx :: "TranContext \<Rightarrow> bool" where
  "open_ctx c \<longleftrightarrow> \<not> isCommited c \<and> \<not> isAborted c"

definition ids_left :: "('s, 'w) Schedule \<Rightarrow> bool" where
  "ids_left g \<longleftrightarrow> nextTransactionId (tran_manager (lsm (sys g))) + 1 \<noteq> 0"

text \<open>Context \<open>i\<close> is open; a call on it changed it to \<open>c\<close> and the system to \<open>y\<close>.\<close>

definition may_call :: "('s, 'w) Schedule \<Rightarrow> nat \<Rightarrow> bool" where
  "may_call g i \<longleftrightarrow> i < length (ctxs g) \<and> open_ctx (ctxs g ! i)"

definition called :: "('s, 'w) Schedule \<Rightarrow> nat \<Rightarrow> TranContext \<Rightarrow> ('s, 'w) TranSystem \<Rightarrow> ('s, 'w) Schedule" where
  "called g i c y = g\<lparr>sys := y, ctxs := (ctxs g)[i := c]\<rparr>"

definition install :: "u64 \<Rightarrow> (string \<times> string) list \<Rightarrow> ('s, 'w) Schedule \<Rightarrow> ('s, 'w) Schedule" where
  "install i ws g = g\<lparr>installed := installed g @ [(i, ws)]\<rparr>"

inductive sched_step ::
    "'s engine_ops \<Rightarrow> ('w \<Rightarrow> Record list \<Rightarrow> 'w option) \<Rightarrow> ('s, 'w) Schedule \<Rightarrow> ('s, 'w) Schedule \<Rightarrow> bool"
  for E :: "'s engine_ops" and log :: "'w \<Rightarrow> Record list \<Rightarrow> 'w option" where
  Begin: "level = REPEATABLE_READ \<or> level = SERIALIZABLE \<Longrightarrow> ids_left g \<Longrightarrow> new_tranc (sys g) level = (c, y) \<Longrightarrow>
    sched_step E log g (g\<lparr>sys := y, ctxs := ctxs g @ [c]\<rparr>)"
| Write: "may_call g i \<Longrightarrow> k \<noteq> [] \<Longrightarrow> TranContext_put E (ctxs g ! i) (sys g) k v = (c, y) \<Longrightarrow>
    sched_step E log g (called g i c y)"
| Erase: "may_call g i \<Longrightarrow> k \<noteq> [] \<Longrightarrow> TranContext_remove E (ctxs g ! i) (sys g) k = (c, y) \<Longrightarrow>
    sched_step E log g (called g i c y)"
| Read: "may_call g i \<Longrightarrow> TranContext_get E (ctxs g ! i) (sys g) k = (r, c) \<Longrightarrow>
    sched_step E log g (called g i c (sys g))"
| Commit: "may_call g i \<Longrightarrow> TranContext_commit E log (ctxs g ! i) (sys g) False = Some (Inr True, c, y) \<Longrightarrow>
    sched_step E log g (install (tc_tranc_id c) (temp_map c) (called g i c y))"
| Refuse: "may_call g i \<Longrightarrow> TranContext_commit E log (ctxs g ! i) (sys g) False = Some (Inr False, c, y) \<Longrightarrow>
    sched_step E log g (called g i c y)"
| Log_fails: "may_call g i \<Longrightarrow> TranContext_commit E log (ctxs g ! i) (sys g) False = Some (Inl e, c, y) \<Longrightarrow>
    sched_step E log g (called g i c y)"
| Abort: "may_call g i \<Longrightarrow> TranContext_abort E (ctxs g ! i) (sys g) = (r, c, y) \<Longrightarrow>
    sched_step E log g (called g i c y)"
| Direct: "k \<noteq> [] \<Longrightarrow> ids_left g \<Longrightarrow>
    sched_step E log g (install (nextTransactionId (tran_manager (lsm (sys g)))) [(k, v)]
      (g\<lparr>sys := (sys g)\<lparr>lsm := LSM_put E (lsm (sys g)) k v\<rparr>\<rparr>))"

definition sched_start :: "'s LSM \<Rightarrow> 'w \<Rightarrow> ('s, 'w) Schedule" where
  "sched_start s w = \<lparr>sys = \<lparr>lsm = s, wal = w, activeTrans = []\<rparr>, ctxs = [], installed = []\<rparr>"

definition sched_reach ::
    "'s engine_ops \<Rightarrow> ('w \<Rightarrow> Record list \<Rightarrow> 'w option) \<Rightarrow> 's LSM \<Rightarrow> 'w \<Rightarrow> ('s, 'w) Schedule \<Rightarrow> bool" where
  "sched_reach E log s w g \<longleftrightarrow> (sched_step E log)\<^sup>*\<^sup>* (sched_start s w) g"

subsection \<open>Redoing a log\<close>

text \<open>What the operations of a log do to a map when they are applied in order.\<close>

fun redo_one :: "Record \<Rightarrow> kv \<Rightarrow> kv" where
  "redo_one r m =
     (if rec_operation_type r = OP_PUT then kv_put (rec_key r) (rec_value r) m
      else if rec_operation_type r = OP_DELETE then kv_del (rec_key r) m else m)"

definition redo :: "Record list \<Rightarrow> kv \<Rightarrow> kv" where
  "redo rs m = foldl (\<lambda>m r. redo_one r m) m rs"

declare redo_one.simps [simp del]

lemma redo_simps [simp]: "redo [] m = m" "redo (rs @ rs') m = redo rs' (redo rs m)" "redo [r] m = redo_one r m"
  by (simp_all add: redo_def)

lemma redo_one_simps [simp]:
  "redo_one (createRecord i) m = m" "redo_one (commitRecord i) m = m"
  "redo_one (putRecord i k v) m = kv_put k v m" "redo_one (deleteRecord i k) m = kv_put k [] m"
  by (auto simp: redo_one.simps createRecord_def commitRecord_def putRecord_def deleteRecord_def kv_put_def kv_del_def)

declare constructed.intros [simp]

lemma record_ids [simp]: "rec_tranc_id (createRecord i) = i" "rec_tranc_id (commitRecord i) = i"
  "rec_tranc_id (putRecord i k v) = i" "rec_tranc_id (deleteRecord i k) = i"
  by (simp_all add: createRecord_def commitRecord_def putRecord_def deleteRecord_def)

lemma kv_puts_map_of:
  "distinct (map fst kvs) \<Longrightarrow> kv_puts kvs m k =
   (case map_of kvs k of None \<Rightarrow> m k | Some v \<Rightarrow> if v = [] then None else Some v)"
proof (induction kvs arbitrary: m)
  case (Cons kv kvs)
  obtain k' v where kv: "kv = (k', v)" by (cases kv)
  have "map_of kvs k' = None" using Cons.prems kv by (simp add: map_of_eq_None_iff)
  then show ?case using Cons kv by (simp split: option.split)
qed simp

lemma kv_puts_umap:
  assumes "distinct (map fst kvs)"
  shows "kv_puts (umap_put k v kvs) m = kv_put k v (kv_puts kvs m)"
proof
  fix k'
  have "distinct (map fst (umap_put k v kvs))" using assms by (simp add: umap_put_def distinct_update)
  then show "kv_puts (umap_put k v kvs) m k' = kv_put k v (kv_puts kvs m) k'"
    using assms by (simp add: kv_puts_map_of split: option.split)
qed

subsection \<open>Well-formed contexts\<close>

text \<open>
  A context at a snapshot level: the buffer has one entry for a key and none for the empty one, and the
  operations it will log are its own and amount to the buffer.
\<close>

definition ctx_wf :: "TranContext \<Rightarrow> bool" where
  "ctx_wf c \<longleftrightarrow> snapshot_level c \<and> distinct (map fst (temp_map c)) \<and> map_of (temp_map c) [] = None \<and>
     \<not> (isCommited c \<and> isAborted c) \<and>
     (\<forall>r\<in>set (operations c). constructed r \<and> rec_tranc_id r = tc_tranc_id c) \<and>
     (\<forall>m. redo (operations c) m = kv_puts (temp_map c) m)"

lemma umap_put_distinct [simp]: "distinct (map fst m) \<Longrightarrow> distinct (map fst (umap_put k v m))"
  by (simp add: umap_put_def distinct_update)

lemma ctx_wf_new: "level = REPEATABLE_READ \<or> level = SERIALIZABLE \<Longrightarrow> ctx_wf (TranContext_new i level)"
  by (auto simp: ctx_wf_def TranContext_new_def snapshot_level_def)

text \<open>A call changes neither id nor level, and leaves an open context open unless it finishes it.\<close>

definition same_ctx :: "TranContext \<Rightarrow> TranContext \<Rightarrow> bool" where
  "same_ctx c c' \<longleftrightarrow> tc_tranc_id c' = tc_tranc_id c \<and> ctx_wf c'"

lemma write_wf:
  assumes "ctx_wf c" "k \<noteq> []" "TranContext_put E c y k v = (c', y')"
  shows "same_ctx c c' \<and> y' = y \<and> open_ctx c' = open_ctx c"
proof -
  have c': "c' = c\<lparr>operations := operations c @ [putRecord (tc_tranc_id c) k v], temp_map := umap_put k v (temp_map c)\<rparr>"
    "y' = y" using assms by (auto simp: TranContext_put_def Let_def ctx_wf_def snapshot_level_def)
  then show ?thesis using assms(1,2)
    by (simp add: same_ctx_def ctx_wf_def snapshot_level_def open_ctx_def kv_puts_umap ball_Un)
qed

lemma erase_wf:
  assumes "ctx_wf c" "k \<noteq> []" "TranContext_remove E c y k = (c', y')"
  shows "same_ctx c c' \<and> y' = y \<and> open_ctx c' = open_ctx c"
proof -
  have c': "c' = c\<lparr>operations := operations c @ [deleteRecord (tc_tranc_id c) k], temp_map := umap_put k [] (temp_map c)\<rparr>"
    "y' = y" using assms by (auto simp: TranContext_remove_def Let_def ctx_wf_def snapshot_level_def)
  then show ?thesis using assms(1,2)
    by (simp add: same_ctx_def ctx_wf_def snapshot_level_def open_ctx_def kv_puts_umap ball_Un)
qed

lemma read_wf:
  assumes "ctx_wf c" "TranContext_get E c y k = (r, c')"
  shows "same_ctx c c' \<and> open_ctx c' = open_ctx c"
proof -
  have "c' = c \<or> (\<exists>m. c' = c\<lparr>read_map := m\<rparr>)"
    using assms by (auto simp: TranContext_get_def ctx_wf_def snapshot_level_def Let_def split: option.splits)
  then show ?thesis using assms(1) by (auto simp: same_ctx_def ctx_wf_def snapshot_level_def open_ctx_def)
qed

lemma commit_wf:
  assumes "ctx_wf c" "open_ctx c" "TranContext_commit E log c y f = Some (r, c', y')"
  shows "same_ctx c c' \<and> temp_map c' = temp_map c \<and>
    nextTransactionId (tran_manager (lsm y')) = nextTransactionId (tran_manager (lsm y)) \<and>
    (case r of
       Inr True \<Rightarrow> isCommited c' \<and> \<not> isAborted c' \<and> readyToFlushTrancIds (tran_manager (lsm y')) =
         map_put (tc_tranc_id c) OP_COMMITTED (readyToFlushTrancIds (tran_manager (lsm y)))
     | Inr False \<Rightarrow> \<not> isCommited c' \<and> isAborted c' \<and> engine (lsm y') = engine (lsm y) \<and> wal y' = wal y \<and>
         readyToFlushTrancIds (tran_manager (lsm y')) =
         map_put (tc_tranc_id c) ABORTED (readyToFlushTrancIds (tran_manager (lsm y)))
     | Inl e \<Rightarrow> open_ctx c' \<and> y' = y)"
  using assms
  by (auto simp: TranContext_commit_def log_and_finish_def Let_def bind_Some_conv same_ctx_def ctx_wf_def snapshot_level_def
      open_ctx_def set_ready_def on_engine_def add_ready_to_flush_tranc_id_def split: if_splits option.splits)

lemma abort_wf:
  assumes "ctx_wf c" "open_ctx c" "TranContext_abort E c y = (r, c', y')"
  shows "same_ctx c c' \<and> \<not> isCommited c' \<and> isAborted c' \<and> engine (lsm y') = engine (lsm y) \<and> wal y' = wal y \<and>
    nextTransactionId (tran_manager (lsm y')) = nextTransactionId (tran_manager (lsm y)) \<and>
    readyToFlushTrancIds (tran_manager (lsm y')) =
      map_put (tc_tranc_id c) ABORTED (readyToFlushTrancIds (tran_manager (lsm y)))"
  using assms by (auto simp: TranContext_abort_def same_ctx_def ctx_wf_def snapshot_level_def open_ctx_def
      set_ready_def add_ready_to_flush_tranc_id_def)

subsection \<open>Well-formed schedules\<close>

lemma map_of_map_put [simp]: "map_of (map_put i st m) = (map_of m)(i \<mapsto> st)"
  by (induction i st m rule: map_put.induct) (auto simp: fun_eq_iff)

definition reported :: "('s, 'w) TranSystem \<Rightarrow> TranContext \<Rightarrow> bool" where
  "reported y c \<longleftrightarrow> (let m = map_of (readyToFlushTrancIds (tran_manager (lsm y))) in
     (isCommited c \<longrightarrow> m (tc_tranc_id c) = Some OP_COMMITTED) \<and> (isAborted c \<longrightarrow> m (tc_tranc_id c) = Some ABORTED))"

text \<open>
  Every context is well-formed, has an id of its own, below the next one to be handed out, and its fate
  has been reported to the manager. The write sets installed are those of the committed contexts
  and of direct calls, one for an id.
\<close>

definition next_nat :: "('s, 'w) TranSystem \<Rightarrow> nat" where
  "next_nat y = unat (nextTransactionId (tran_manager (lsm y)))"

definition sched_wf :: "('s, 'w) Schedule \<Rightarrow> bool" where
  "sched_wf g \<longleftrightarrow> distinct (map tc_tranc_id (ctxs g)) \<and> distinct (map fst (installed g)) \<and>
     (\<forall>i\<in>fst ` set (installed g). unat i < next_nat (sys g)) \<and>
     (\<forall>c\<in>set (ctxs g). ctx_wf c \<and> unat (tc_tranc_id c) < next_nat (sys g) \<and> reported (sys g) c \<and>
        (isCommited c \<longleftrightarrow> tc_tranc_id c \<in> fst ` set (installed g)))"

lemma distinct_update_same: "i < length cs \<Longrightarrow> f c = f (cs ! i) \<Longrightarrow> map f (cs[i := c]) = map f cs"
  by (metis list_update_id map_update nth_map)

lemma called_wf:
  assumes wf: "sched_wf g" and i: "i < length (ctxs g)" and c: "same_ctx (ctxs g ! i) c"
    and y: "next_nat y = next_nat (sys g)" "reported y c"
    and m: "\<And>j. j \<noteq> tc_tranc_id c \<Longrightarrow> map_of (readyToFlushTrancIds (tran_manager (lsm y))) j =
      map_of (readyToFlushTrancIds (tran_manager (lsm (sys g)))) j"
    and L: "distinct (map fst L)" "\<And>j. j \<noteq> tc_tranc_id c \<Longrightarrow> j \<in> fst ` set L \<longleftrightarrow> j \<in> fst ` set (installed g)"
      "isCommited c \<longleftrightarrow> tc_tranc_id c \<in> fst ` set L"
  shows "sched_wf (g\<lparr>sys := y, ctxs := (ctxs g)[i := c], installed := L\<rparr>)"
proof -
  have id: "tc_tranc_id c = tc_tranc_id (ctxs g ! i)" "ctx_wf c" using c by (simp_all add: same_ctx_def)
  have ids: "map tc_tranc_id ((ctxs g)[i := c]) = map tc_tranc_id (ctxs g)" by (rule distinct_update_same [OF i id(1)])
  have mem: "ctxs g ! i \<in> set (ctxs g)" using i by simp
  have lt: "unat (tc_tranc_id c) < next_nat y" using wf mem unfolding sched_wf_def id(1) y(1) by blast
  have other: "d = c \<or> d \<in> set (ctxs g) \<and> tc_tranc_id d \<noteq> tc_tranc_id c" if dd: "d \<in> set ((ctxs g)[i := c])" for d
  proof -
    obtain j where "j < length ((ctxs g)[i := c])" "(ctxs g)[i := c] ! j = d" using dd unfolding in_set_conv_nth by blast
    then have j: "j < length (ctxs g)" "d = (ctxs g)[i := c] ! j" by simp_all
    show ?thesis
    proof (cases "j = i")
      case False
      then have "d = ctxs g ! j" using j by simp
      moreover have "distinct (map tc_tranc_id (ctxs g))" using wf unfolding sched_wf_def by blast
      then have "map tc_tranc_id (ctxs g) ! j \<noteq> map tc_tranc_id (ctxs g) ! i"
        using i j(1) False nth_eq_iff_index_eq [of "map tc_tranc_id (ctxs g)" j i] by simp
      ultimately show ?thesis using i j(1) id(1) by auto
    qed (use i j in simp)
  qed
  have "ctx_wf d \<and> unat (tc_tranc_id d) < next_nat y \<and> reported y d \<and> (isCommited d \<longleftrightarrow> tc_tranc_id d \<in> fst ` set L)"
    if "d \<in> set ((ctxs g)[i := c])" for d
  proof (cases "d = c")
    case True
    then show ?thesis using id(2) lt y(2) L(3) by simp
  next
    case False
    then have d: "d \<in> set (ctxs g)" "tc_tranc_id d \<noteq> tc_tranc_id c" using other [OF that] by auto
    then have "ctx_wf d \<and> unat (tc_tranc_id d) < next_nat y \<and> reported (sys g) d \<and>
        (isCommited d \<longleftrightarrow> tc_tranc_id d \<in> fst ` set (installed g))"
      using wf unfolding sched_wf_def y(1) by blast
    then show ?thesis unfolding L(2) [OF d(2)] by (simp add: reported_def Let_def m [OF d(2)])
  qed
  moreover have "unat j < next_nat y" if "j \<in> fst ` set L" for j
  proof (cases "j = tc_tranc_id c")
    case False
    then show ?thesis using that wf unfolding sched_wf_def y(1) L(2) [OF False] by blast
  qed (use lt in simp)
  moreover have "distinct (map tc_tranc_id (ctxs g))" using wf unfolding sched_wf_def by blast
  ultimately show ?thesis using ids L(1) unfolding sched_wf_def by simp
qed

lemma called_wf_id:
  assumes "sched_wf g" "may_call g i" "same_ctx (ctxs g ! i) c" "next_nat y = next_nat (sys g)" "reported y c"
    and m: "\<And>j. j \<noteq> tc_tranc_id c \<Longrightarrow> map_of (readyToFlushTrancIds (tran_manager (lsm y))) j =
      map_of (readyToFlushTrancIds (tran_manager (lsm (sys g)))) j"
    and "\<not> isCommited c"
  shows "sched_wf (called g i c y)"
proof -
  have i: "i < length (ctxs g)" "\<not> isCommited (ctxs g ! i)" using assms(2) by (auto simp: may_call_def open_ctx_def)
  then have "\<forall>d\<in>set (ctxs g). isCommited d \<longleftrightarrow> tc_tranc_id d \<in> fst ` set (installed g)" "distinct (map fst (installed g))"
    using assms(1) unfolding sched_wf_def by blast+
  moreover have "tc_tranc_id c = tc_tranc_id (ctxs g ! i)" using assms(3) by (simp add: same_ctx_def)
  ultimately have "isCommited c \<longleftrightarrow> tc_tranc_id c \<in> fst ` set (installed g)" "distinct (map fst (installed g))"
    using assms(7) i nth_mem [OF i(1)] by auto
  from called_wf [OF assms(1) i(1) assms(3-5) m this(2) refl this(1)] show ?thesis
    by (simp add: called_def)
qed

lemma may_callD:
  assumes "sched_wf g" "may_call g i"
  shows "ctx_wf (ctxs g ! i)" "open_ctx (ctxs g ! i)" "i < length (ctxs g)"
    "unat (tc_tranc_id (ctxs g ! i)) < next_nat (sys g)"
    "tc_tranc_id (ctxs g ! i) \<notin> fst ` set (installed g)"
proof -
  have i: "i < length (ctxs g)" "open_ctx (ctxs g ! i)" using assms(2) by (auto simp: may_call_def)
  then have m: "ctxs g ! i \<in> set (ctxs g)" by simp
  show "ctx_wf (ctxs g ! i)" "open_ctx (ctxs g ! i)" "i < length (ctxs g)"
    "unat (tc_tranc_id (ctxs g ! i)) < next_nat (sys g)" using assms(1) i m unfolding sched_wf_def by blast+
  show "tc_tranc_id (ctxs g ! i) \<notin> fst ` set (installed g)" using assms(1) i m unfolding sched_wf_def open_ctx_def by blast
qed

lemma next_nat_Suc: "ids_left g \<Longrightarrow>
    unat (nextTransactionId (tran_manager (lsm (sys g))) + 1) = Suc (next_nat (sys g))"
  using unatSuc [of "nextTransactionId (tran_manager (lsm (sys g)))"] by (simp add: ids_left_def next_nat_def add.commute)

text \<open>A fresh id is the id of no context and of no write set.\<close>

lemma fresh_id:
  assumes "sched_wf g" "i = nextTransactionId (tran_manager (lsm (sys g)))"
  shows "i \<notin> tc_tranc_id ` set (ctxs g)" "i \<notin> fst ` set (installed g)"
  using assms by (auto simp: sched_wf_def next_nat_def)

lemma reported_cong: "readyToFlushTrancIds (tran_manager (lsm y)) = readyToFlushTrancIds (tran_manager (lsm y')) \<Longrightarrow>
    reported y c = reported y' c"
  by (simp add: reported_def)

lemma begin_wf:
  assumes "sched_wf g" "ids_left g" "level = REPEATABLE_READ \<or> level = SERIALIZABLE" "new_tranc (sys g) level = (c, y)"
  shows "sched_wf (g\<lparr>sys := y, ctxs := ctxs g @ [c]\<rparr>)"
proof -
  let ?i = "nextTransactionId (tran_manager (lsm (sys g)))"
  have c: "c = TranContext_new ?i level" "next_nat y = Suc (next_nat (sys g))"
    and r: "readyToFlushTrancIds (tran_manager (lsm y)) = readyToFlushTrancIds (tran_manager (lsm (sys g)))"
    using assms(4) next_nat_Suc [OF assms(2)]
    by (auto simp: new_tranc_def next_id_def getNextTransactionId_def next_nat_def)
  have id: "tc_tranc_id c = ?i" "\<not> isCommited c" "\<not> isAborted c" by (simp_all add: c TranContext_new_def)
  note f = fresh_id [OF assms(1) refl]
  have "ctx_wf c" using ctx_wf_new [OF assms(3)] c(1) by simp
  moreover have "reported y c" using id by (simp add: reported_def)
  moreover have "unat ?i < next_nat y" unfolding c(2) by (simp add: next_nat_def)
  moreover have "distinct (map tc_tranc_id (ctxs g @ [c]))" using assms(1) f(1) id(1) unfolding sched_wf_def by simp
  moreover have "distinct (map fst (installed g))" "\<forall>j\<in>fst ` set (installed g). unat j < next_nat y"
    "\<forall>d\<in>set (ctxs g). ctx_wf d \<and> unat (tc_tranc_id d) < next_nat y \<and> reported y d \<and>
      (isCommited d \<longleftrightarrow> tc_tranc_id d \<in> fst ` set (installed g))"
    using assms(1) unfolding sched_wf_def c(2) reported_cong [OF r] by (simp_all add: less_SucI)
  ultimately show ?thesis using f(2) id unfolding sched_wf_def by simp
qed

lemma direct_wf:
  assumes "sched_wf g" "ids_left g"
  shows "sched_wf (install (nextTransactionId (tran_manager (lsm (sys g)))) ws
    (g\<lparr>sys := (sys g)\<lparr>lsm := LSM_put E (lsm (sys g)) k v\<rparr>\<rparr>))"
proof -
  let ?i = "nextTransactionId (tran_manager (lsm (sys g)))" and ?y = "(sys g)\<lparr>lsm := LSM_put E (lsm (sys g)) k v\<rparr>"
  have n: "next_nat ?y = Suc (next_nat (sys g))"
    and r: "readyToFlushTrancIds (tran_manager (lsm ?y)) = readyToFlushTrancIds (tran_manager (lsm (sys g)))"
    using next_nat_Suc [OF assms(2)] by (auto simp: LSM_put_def next_id_def getNextTransactionId_def next_nat_def)
  note f = fresh_id [OF assms(1) refl]
  have "distinct (map fst (installed g @ [(?i, ws)]))" using assms(1) f(2) unfolding sched_wf_def by simp
  moreover have "\<forall>j\<in>fst ` set (installed g @ [(?i, ws)]). unat j < next_nat ?y"
    using assms(1) unfolding sched_wf_def n by (auto simp: next_nat_def less_SucI)
  moreover have "\<forall>d\<in>set (ctxs g). ctx_wf d \<and> unat (tc_tranc_id d) < next_nat ?y \<and> reported ?y d \<and>
      (isCommited d \<longleftrightarrow> tc_tranc_id d \<in> fst ` set (installed g @ [(?i, ws)]))"
  proof
    fix d assume d: "d \<in> set (ctxs g)"
    have "tc_tranc_id d \<noteq> ?i" using f(1) imageI [OF d, of tc_tranc_id] by metis
    with d show "ctx_wf d \<and> unat (tc_tranc_id d) < next_nat ?y \<and> reported ?y d \<and>
        (isCommited d \<longleftrightarrow> tc_tranc_id d \<in> fst ` set (installed g @ [(?i, ws)]))"
      using assms(1) d unfolding sched_wf_def n reported_cong [OF r] by (simp add: less_SucI)
  qed
  ultimately show ?thesis using assms(1) unfolding sched_wf_def install_def by simp
qed

lemma wf_step: "sched_step E log g g' \<Longrightarrow> sched_wf g \<Longrightarrow> sched_wf g'"
proof (induction rule: sched_step.induct)
  case (Begin level g c y)
  then show ?case using begin_wf by blast
next
  case (Write g i k v c y)
  note d = may_callD [OF Write.prems Write.hyps(1)]
  have w: "same_ctx (ctxs g ! i) c" "y = sys g" "open_ctx c" using write_wf [OF d(1) Write.hyps(2,3)] d(2) by auto
  show ?case by (rule called_wf_id [OF Write.prems Write.hyps(1) w(1)]) (use w(2,3) in \<open>simp_all add: reported_def open_ctx_def\<close>)
next
  case (Erase g i k c y)
  note d = may_callD [OF Erase.prems Erase.hyps(1)]
  have w: "same_ctx (ctxs g ! i) c" "y = sys g" "open_ctx c" using erase_wf [OF d(1) Erase.hyps(2,3)] d(2) by auto
  show ?case by (rule called_wf_id [OF Erase.prems Erase.hyps(1) w(1)]) (use w(2,3) in \<open>simp_all add: reported_def open_ctx_def\<close>)
next
  case (Read g i k r c)
  note d = may_callD [OF Read.prems Read.hyps(1)]
  have w: "same_ctx (ctxs g ! i) c" "open_ctx c" using read_wf [OF d(1) Read.hyps(2)] d(2) by auto
  show ?case by (rule called_wf_id [OF Read.prems Read.hyps(1) w(1)]) (use w(2) in \<open>simp_all add: reported_def open_ctx_def\<close>)
next
  case (Commit g i c y)
  note d = may_callD [OF Commit.prems Commit.hyps(1)]
  note w = commit_wf [OF d(1,2) Commit.hyps(2)]
  have s: "same_ctx (ctxs g ! i) c" and id: "tc_tranc_id c = tc_tranc_id (ctxs g ! i)" using w by (simp_all add: same_ctx_def)
  have "sched_wf (g\<lparr>sys := y, ctxs := (ctxs g)[i := c], installed := installed g @ [(tc_tranc_id c, temp_map c)]\<rparr>)"
  proof (rule called_wf [OF Commit.prems d(3) s])
    show "distinct (map fst (installed g @ [(tc_tranc_id c, temp_map c)]))"
      using Commit.prems d(5) id unfolding sched_wf_def by simp
  qed (use w id in \<open>auto simp: reported_def next_nat_def\<close>)
  then show ?case by (simp add: install_def called_def)
next
  case (Refuse g i c y)
  note d = may_callD [OF Refuse.prems Refuse.hyps(1)]
  note w = commit_wf [OF d(1,2) Refuse.hyps(2)]
  have s: "same_ctx (ctxs g ! i) c" and id: "tc_tranc_id c = tc_tranc_id (ctxs g ! i)" using w by (simp_all add: same_ctx_def)
  show ?case by (rule called_wf_id [OF Refuse.prems Refuse.hyps(1) s]) (use w id in \<open>simp_all add: reported_def next_nat_def\<close>)
next
  case (Log_fails g i e c y)
  note d = may_callD [OF Log_fails.prems Log_fails.hyps(1)]
  note w = commit_wf [OF d(1,2) Log_fails.hyps(2)]
  show ?case by (rule called_wf_id [OF Log_fails.prems Log_fails.hyps(1)]) (use w in \<open>simp_all add: reported_def open_ctx_def\<close>)
next
  case (Abort g i r c y)
  note d = may_callD [OF Abort.prems Abort.hyps(1)]
  note w = abort_wf [OF d(1,2) Abort.hyps(2)]
  have s: "same_ctx (ctxs g ! i) c" and id: "tc_tranc_id c = tc_tranc_id (ctxs g ! i)" using w by (simp_all add: same_ctx_def)
  show ?case by (rule called_wf_id [OF Abort.prems Abort.hyps(1) s]) (use w id in \<open>simp_all add: reported_def next_nat_def\<close>)
next
  case (Direct k g v)
  then show ?case using direct_wf by blast
qed

subsection \<open>What a memory table promises beyond one transaction\<close>

text \<open>
  A write shows in the memory table with its id, and no call here moves data into an SST: the
  contract of a database that is not flushed while the transactions run.
\<close>

locale sched_engine = tran_engine +
  assumes mem_put_visible: "bounded s t \<Longrightarrow> unat i < t \<Longrightarrow> newest_upto E s k i \<Longrightarrow>
      \<exists>w. eng_mem_get E (eng_mem_put E s k v i) k 0 = Some (w, i)"
    and put_visible: "bounded s t \<Longrightarrow> t \<le> unat i \<Longrightarrow> \<exists>w. eng_mem_get E (eng_put E s k v i) k 0 = Some (w, i)"
    and put_other: "bounded s t \<Longrightarrow> k' \<noteq> k \<Longrightarrow> eng_mem_get E (eng_put E s k v i) k' 0 = eng_mem_get E s k' 0"
    and put_sst: "eng_sst_get E (eng_put E s k v i) k' 0 = eng_sst_get E s k' 0"
    and mem_get_bounded: "bounded s t \<Longrightarrow> eng_mem_get E s k 0 = Some (v, i) \<Longrightarrow> unat i < t"

text \<open>The ids of the write sets with a key, in the order they were installed.\<close>

definition writers :: "('s, 'w) Schedule \<Rightarrow> string \<Rightarrow> u64 list" where
  "writers g k = map fst (filter (\<lambda>(i, ws). k \<in> fst ` set ws) (installed g))"

lemma writers_simps [simp]:
  "writers (called g n c y) k = writers g k" "writers (g\<lparr>sys := y\<rparr>) k = writers g k"
  "writers (g\<lparr>sys := y, ctxs := cs\<rparr>) k = writers g k"
  "writers (install i ws g) k = writers g k @ (if k \<in> fst ` set ws then [i] else [])"
  by (simp_all add: writers_def install_def called_def)

lemma writers_installed: "i \<in> set (writers g k) \<Longrightarrow> i \<in> fst ` set (installed g)"
  by (auto simp: writers_def)

definition sched_data ::
    "'s engine_ops \<Rightarrow> ('s \<Rightarrow> kv) \<Rightarrow> ('s \<Rightarrow> nat \<Rightarrow> bool) \<Rightarrow> kv \<Rightarrow> ('s, 'w) Schedule \<Rightarrow> bool" where
  "sched_data E content bounded m0 g \<longleftrightarrow> (let s = engine (lsm (sys g)) in
     bounded s (next_nat (sys g)) \<and> (\<forall>k. eng_sst_get E s k 0 = None) \<and>
     (\<forall>k. k \<noteq> [] \<longrightarrow> content s k = kv_puts (concat (map snd (installed g))) m0 k \<and>
        sorted_wrt (<) (writers g k) \<and>
        (\<forall>i\<in>set (writers g k). \<exists>w t. eng_mem_get E s k 0 = Some (w, t) \<and> i \<le> t)))"

lemma kv_puts_cong: "m k = m' k \<Longrightarrow> kv_puts kvs m k = kv_puts kvs m' k"
proof (induction kvs arbitrary: m m')
  case (Cons kv kvs)
  obtain j v where kv: "kv = (j, v)" by (cases kv)
  have "kv_puts kvs (kv_put j v m) k = kv_puts kvs (kv_put j v m') k" by (rule Cons.IH) (simp add: Cons.prems)
  then show ?case unfolding kv kv_puts_simps .
qed simp

text \<open>A step that leaves the engine alone keeps everything.\<close>

lemma sched_data_same:
  assumes "sched_data E content bounded m0 g" "engine (lsm y) = engine (lsm (sys g))" "next_nat y = next_nat (sys g)"
  shows "sched_data E content bounded m0 (called g i c y)"
  using assms by (simp add: sched_data_def Let_def called_def writers_def)

context sched_engine
begin

lemma apply_mem_get:
  assumes "bounded s t" "unat i < t" "distinct (map fst kvs)" "\<forall>k\<in>fst ` set kvs. newest_upto E s k i"
  shows "(k \<notin> fst ` set kvs \<longrightarrow> eng_mem_get E (foldl (\<lambda>s (k, v). eng_mem_put E s k v i) s kvs) k 0 = eng_mem_get E s k 0) \<and>
    (k \<in> fst ` set kvs \<longrightarrow> (\<exists>w. eng_mem_get E (foldl (\<lambda>s (k, v). eng_mem_put E s k v i) s kvs) k 0 = Some (w, i)))"
  using assms(1,3,4)
proof (induction kvs arbitrary: s)
  case (Cons kv kvs)
  obtain j v where kv: "kv = (j, v)" by (cases kv)
  let ?s = "eng_mem_put E s j v i"
  have b: "bounded ?s t" by (rule mem_put_bounded [OF Cons.prems(1) assms(2)])
  have new: "newest_upto E s j i" and j: "j \<notin> fst ` set kvs" using Cons.prems(2,3) kv by auto
  have "\<forall>k'\<in>fst ` set kvs. newest_upto E ?s k' i"
  proof
    fix k' assume "k' \<in> fst ` set kvs"
    moreover from this have "k' \<noteq> j" using j by blast
    ultimately show "newest_upto E ?s k' i"
      using newest_upto_other [OF Cons.prems(1)] Cons.prems(3) kv by auto
  qed
  note ih = Cons.IH [OF b _ this]
  obtain w where w: "eng_mem_get E ?s j 0 = Some (w, i)" using mem_put_visible [OF Cons.prems(1) assms(2) new] by blast
  have o: "k \<noteq> j \<Longrightarrow> eng_mem_get E ?s k 0 = eng_mem_get E s k 0" using mem_put_other [OF Cons.prems(1)] by blast
  show ?case using ih Cons.prems(2) kv j w o by (cases "k = j") auto
qed simp

lemma apply_sst: "eng_sst_get E (apply_writes E kvs i s) k 0 = eng_sst_get E s k 0"
proof -
  have "eng_sst_get E (foldl (\<lambda>s (k, v). eng_mem_put E s k v i) s kvs) k 0 = eng_sst_get E s k 0"
    by (induction kvs arbitrary: s) (auto simp: mem_put_sst)
  then show ?thesis by (simp add: apply_writes_def mem_put_sst)
qed

lemma apply_writes_mem:
  assumes "bounded s t" "unat i < t" "distinct (map fst kvs)" "\<forall>k\<in>fst ` set kvs. newest_upto E s k i"
  shows "bounded (apply_writes E kvs i s) t"
    "k \<noteq> [] \<Longrightarrow> k \<notin> fst ` set kvs \<Longrightarrow> eng_mem_get E (apply_writes E kvs i s) k 0 = eng_mem_get E s k 0"
    "k \<noteq> [] \<Longrightarrow> k \<in> fst ` set kvs \<Longrightarrow> \<exists>w. eng_mem_get E (apply_writes E kvs i s) k 0 = Some (w, i)"
proof -
  have b: "bounded (foldl (\<lambda>s (k, v). eng_mem_put E s k v i) s kvs) t" using apply_all [OF assms] by blast
  show "bounded (apply_writes E kvs i s) t" unfolding apply_writes_def by (rule mem_put_bounded [OF b assms(2)])
  note o = mem_put_other [OF b, of k "[]" "[]" i]
  show "k \<noteq> [] \<Longrightarrow> k \<notin> fst ` set kvs \<Longrightarrow> eng_mem_get E (apply_writes E kvs i s) k 0 = eng_mem_get E s k 0"
    "k \<noteq> [] \<Longrightarrow> k \<in> fst ` set kvs \<Longrightarrow> \<exists>w. eng_mem_get E (apply_writes E kvs i s) k 0 = Some (w, i)"
    unfolding apply_writes_def using o apply_mem_get [OF assms, of k] by auto
qed

lemma commit_data:
  assumes wf: "sched_wf g" and data: "sched_data E content bounded m0 g" and may: "may_call g i"
    and co: "TranContext_commit E log (ctxs g ! i) (sys g) False = Some (Inr True, c, y)"
  shows "sched_data E content bounded m0 (install (tc_tranc_id c) (temp_map c) (called g i c y))"
proof -
  let ?c = "ctxs g ! i" and ?s = "engine (lsm (sys g))"
  note d = may_callD [OF wf may]
  note w = commit_wf [OF d(1,2) co]
  have id: "tc_tranc_id c = tc_tranc_id ?c" "temp_map c = temp_map ?c" "next_nat y = next_nat (sys g)"
    using w by (simp_all add: same_ctx_def next_nat_def)
  have cw: "snapshot_level ?c" "distinct (map fst (temp_map ?c))" "[] \<notin> fst ` set (temp_map ?c)"
    using d(1) by (auto simp: ctx_wf_def map_of_eq_None_iff)
  have b: "bounded ?s (next_nat (sys g))" and sst: "\<And>k. eng_sst_get E ?s k 0 = None"
    and old: "\<And>k. k \<noteq> [] \<Longrightarrow> content ?s k = kv_puts (concat (map snd (installed g))) m0 k"
      "\<And>k. k \<noteq> [] \<Longrightarrow> sorted_wrt (<) (writers g k)"
      "\<And>k j. k \<noteq> [] \<Longrightarrow> j \<in> set (writers g k) \<Longrightarrow> \<exists>w t. eng_mem_get E ?s k 0 = Some (w, t) \<and> j \<le> t"
    using data by (auto simp: sched_data_def Let_def)
  have sf: "sst_flushed E (sys g)" by (simp add: sst_flushed_def sst)
  note sc = commit_scanned [OF cw(1) co]
  note new = commit_newest [OF sc(1) cw(3) sf]
  have eng: "engine (lsm y) = apply_writes E (temp_map ?c) (tc_tranc_id ?c) ?s"
    using sc(2) by (auto simp: log_and_finish_def Let_def set_ready_def on_engine_def split: option.splits)
  note mem = apply_writes_mem [OF b d(4) cw(2) new]
  note con = commit_effect(1) [OF cw(1) [unfolded snapshot_level_def] b d(4) cw(2,3) sf co]
  let ?g = "install (tc_tranc_id c) (temp_map c) (called g i c y)"
  have sys: "engine (lsm (sys ?g)) = engine (lsm y)" "next_nat (sys ?g) = next_nat (sys g)"
    "installed ?g = installed g @ [(tc_tranc_id ?c, temp_map ?c)]"
    using id by (simp_all add: install_def called_def)
  have one: "content (engine (lsm y)) k = kv_puts (concat (map snd (installed ?g))) m0 k \<and> sorted_wrt (<) (writers ?g k) \<and>
      (\<forall>j\<in>set (writers ?g k). \<exists>w t. eng_mem_get E (engine (lsm y)) k 0 = Some (w, t) \<and> j \<le> t)" if k: "k \<noteq> []" for k
  proof -
    have "content (engine (lsm y)) k = kv_puts (concat (map snd (installed ?g))) m0 k"
      using con [of k] k kv_puts_cong [where m = "content ?s" and m' = "kv_puts (concat (map snd (installed g))) m0", OF old(1) [OF k], of "temp_map ?c"] by (simp add: sys(3) kv_puts_append)
    moreover have "sorted_wrt (<) (writers ?g k) \<and>
      (\<forall>j\<in>set (writers ?g k). \<exists>w t. eng_mem_get E (engine (lsm y)) k 0 = Some (w, t) \<and> j \<le> t)"
    proof (cases "k \<in> fst ` set (temp_map ?c)")
      case False
      then show ?thesis using old(2,3) [OF k] mem(2) [OF k False] by (simp add: eng id)
    next
      case True
      obtain w where w: "eng_mem_get E (engine (lsm y)) k 0 = Some (w, tc_tranc_id ?c)" using mem(3) [OF k True] eng by auto
      have lt: "j < tc_tranc_id ?c" if j: "j \<in> set (writers g k)" for j
      proof -
        obtain x t where "eng_mem_get E ?s k 0 = Some (x, t)" "j \<le> t" using old(3) [OF k j] by blast
        moreover have "t \<le> tc_tranc_id ?c" using calculation(1) new True unfolding newest_upto_def by blast
        moreover have "j \<noteq> tc_tranc_id ?c" using writers_installed [OF j] d(5) by blast
        ultimately show ?thesis by simp
      qed
      then show ?thesis using old(2) [OF k] True w by (auto simp: id sorted_wrt_append less_imp_le)
    qed
    ultimately show ?thesis by blast
  qed
  show ?thesis unfolding sched_data_def Let_def sys(1,2) using mem(1) one apply_sst sst by (simp add: eng)
qed

lemma direct_data:
  assumes wf: "sched_wf g" and data: "sched_data E content bounded m0 g" and ids: "ids_left g" and k0: "k0 \<noteq> []"
  shows "sched_data E content bounded m0 (install (nextTransactionId (tran_manager (lsm (sys g)))) [(k0, v)]
    (g\<lparr>sys := (sys g)\<lparr>lsm := LSM_put E (lsm (sys g)) k0 v\<rparr>\<rparr>))"
proof -
  let ?i = "nextTransactionId (tran_manager (lsm (sys g)))" and ?s = "engine (lsm (sys g))"
  let ?e = "eng_put E ?s k0 v ?i"
  have n: "next_nat ((sys g)\<lparr>lsm := LSM_put E (lsm (sys g)) k0 v\<rparr>) = Suc (unat ?i)"
    and eng: "engine (LSM_put E (lsm (sys g)) k0 v) = ?e"
    using next_nat_Suc [OF ids] by (simp_all add: LSM_put_def next_id_def getNextTransactionId_def next_nat_def)
  have b: "bounded ?s (unat ?i)" and sst: "\<And>k. eng_sst_get E ?s k 0 = None"
    and old: "\<And>k. k \<noteq> [] \<Longrightarrow> content ?s k = kv_puts (concat (map snd (installed g))) m0 k"
      "\<And>k. k \<noteq> [] \<Longrightarrow> sorted_wrt (<) (writers g k)"
      "\<And>k j. k \<noteq> [] \<Longrightarrow> j \<in> set (writers g k) \<Longrightarrow> \<exists>w t. eng_mem_get E ?s k 0 = Some (w, t) \<and> j \<le> t"
    using data by (auto simp: sched_data_def Let_def next_nat_def)
  have lt: "j < ?i" if "j \<in> set (writers g k)" for j k
    using wf writers_installed [OF that] unfolding sched_wf_def by (auto simp: next_nat_def word_less_nat_alt)
  obtain w where w: "eng_mem_get E ?e k0 0 = Some (w, ?i)" using put_visible [OF b order.refl] by blast
  let ?g = "install ?i [(k0, v)] (g\<lparr>sys := (sys g)\<lparr>lsm := LSM_put E (lsm (sys g)) k0 v\<rparr>\<rparr>)"
  have one: "content ?e k = kv_puts (concat (map snd (installed ?g))) m0 k \<and> sorted_wrt (<) (writers ?g k) \<and>
      (\<forall>j\<in>set (writers ?g k). \<exists>w t. eng_mem_get E ?e k 0 = Some (w, t) \<and> j \<le> t)" if k: "k \<noteq> []" for k
  proof -
    have "content ?e k = kv_puts (concat (map snd (installed ?g))) m0 k"
      using old(1) [OF k] eng_put_law [OF b order.refl, of k0 v] by (simp add: install_def kv_puts_append)
    moreover have "sorted_wrt (<) (writers ?g k)" using old(2) [OF k] lt by (auto simp: sorted_wrt_append)
    moreover have "\<exists>w t. eng_mem_get E ?e k 0 = Some (w, t) \<and> j \<le> t" if j: "j \<in> set (writers ?g k)" for j
    proof (cases "k = k0")
      case True
      then show ?thesis using w j lt [of j k] by (auto intro: less_imp_le)
    next
      case False
      then show ?thesis using old(3) [OF k] j put_other [OF b] by simp
    qed
    ultimately show ?thesis by blast
  qed
  have "bounded ?e (Suc (unat ?i))" by (rule eng_put_inv [OF b order.refl])
  then show ?thesis unfolding sched_data_def Let_def using one n sst
    by (simp add: install_def eng put_sst)
qed

lemma begin_data:
  assumes "sched_data E content bounded m0 g" "ids_left g" "new_tranc (sys g) level = (c, y)"
  shows "sched_data E content bounded m0 (g\<lparr>sys := y, ctxs := ctxs g @ [c]\<rparr>)"
proof -
  have "next_nat y = Suc (next_nat (sys g))" "engine (lsm y) = engine (lsm (sys g))"
    using assms(3) next_nat_Suc [OF assms(2)] by (auto simp: new_tranc_def next_id_def getNextTransactionId_def next_nat_def)
  then show ?thesis using assms(1) bounded_mono [of _ "next_nat (sys g)" "Suc (next_nat (sys g))"]
    by (simp add: sched_data_def Let_def)
qed

lemma data_step: "sched_step E log g g' \<Longrightarrow> sched_wf g \<Longrightarrow> sched_data E content bounded m0 g \<Longrightarrow>
    sched_data E content bounded m0 g'"
proof (induction rule: sched_step.induct)
  case (Begin level g c y)
  then show ?case using begin_data by blast
next
  case (Write g i k v c y)
  have "y = sys g" using write_wf [OF may_callD(1) [OF Write.prems(1) Write.hyps(1)] Write.hyps(2,3)] by blast
  then show ?case by (intro sched_data_same [OF Write.prems(2)]) simp_all
next
  case (Erase g i k c y)
  have "y = sys g" using erase_wf [OF may_callD(1) [OF Erase.prems(1) Erase.hyps(1)] Erase.hyps(2,3)] by blast
  then show ?case by (intro sched_data_same [OF Erase.prems(2)]) simp_all
next
  case (Read g i k r c)
  show ?case by (rule sched_data_same [OF Read.prems(2)]) simp_all
next
  case (Commit g i c y)
  show ?case by (rule commit_data [OF Commit.prems Commit.hyps])
next
  case (Refuse g i c y)
  have "engine (lsm y) = engine (lsm (sys g))" "next_nat y = next_nat (sys g)"
    using commit_wf [OF may_callD(1,2) [OF Refuse.prems(1) Refuse.hyps(1)] Refuse.hyps(2)] by (simp_all add: next_nat_def)
  then show ?case by (rule sched_data_same [OF Refuse.prems(2)])
next
  case (Log_fails g i e c y)
  have "y = sys g" using commit_wf [OF may_callD(1,2) [OF Log_fails.prems(1) Log_fails.hyps(1)] Log_fails.hyps(2)] by simp
  then show ?case by (intro sched_data_same [OF Log_fails.prems(2)]) simp_all
next
  case (Abort g i r c y)
  have "engine (lsm y) = engine (lsm (sys g))" "next_nat y = next_nat (sys g)"
    using abort_wf [OF may_callD(1,2) [OF Abort.prems(1) Abort.hyps(1)] Abort.hyps(2)] by (simp_all add: next_nat_def)
  then show ?case by (rule sched_data_same [OF Abort.prems(2)])
next
  case (Direct k g v)
  then show ?case using direct_data by blast
qed

lemma data_reach:
  assumes "sched_reach E log s w g" "bounded (engine s) (unat (nextTransactionId (tran_manager s)))"
    "\<And>k. eng_sst_get E (engine s) k 0 = None"
  shows "sched_wf g \<and> sched_data E content bounded (content (engine s)) g"
  using assms(1) unfolding sched_reach_def
proof (induction rule: rtranclp_induct)
  case base
  show ?case using assms(2,3) by (simp add: sched_wf_def sched_data_def sched_start_def next_nat_def Let_def writers_def)
next
  case (step g g')
  then show ?case using wf_step data_step by blast
qed

end

lemma wf_reach: "sched_reach E log s w g \<Longrightarrow> sched_wf g"
  unfolding sched_reach_def
proof (induction rule: rtranclp_induct)
  case base
  show ?case by (simp add: sched_wf_def sched_start_def)
next
  case (step g g')
  then show ?case using wf_step by blast
qed

subsection \<open>The log of a schedule\<close>

text \<open>Keys that were written without a transaction; such writes are not logged.\<close>

definition direct_keys :: "('s, 'w) Schedule \<Rightarrow> string set" where
  "direct_keys g = fst ` set (concat (map snd (filter (\<lambda>x. fst x \<notin> tc_tranc_id ` set (ctxs g)) (installed g))))"

text \<open>
  The log is an argument; \<open>R w L\<close> says that the log \<open>w\<close> holds the records \<open>L\<close>. \<open>wal_log\<close> writes them
  the way \<^verbatim>\<open>Record::encode\<close> does, one after another.
\<close>

definition appends :: "('w \<Rightarrow> Record list \<Rightarrow> 'w option) \<Rightarrow> ('w \<Rightarrow> Record list \<Rightarrow> bool) \<Rightarrow> bool" where
  "appends log R \<longleftrightarrow> (\<forall>w L rs w'. R w L \<longrightarrow> (\<forall>r\<in>set rs. constructed r) \<longrightarrow> log w rs = Some w' \<longrightarrow> R w' (L @ rs))"

definition wal_log :: "bytes \<Rightarrow> Record list \<Rightarrow> bytes option" where
  "wal_log w rs = do { bs \<leftarrow> those (map Record_encode rs); Some (w @ concat bs) }"

definition wal_holds :: "bytes \<Rightarrow> Record list \<Rightarrow> bool" where
  "wal_holds w L \<longleftrightarrow> (\<forall>r\<in>set L. storable r) \<and> w = concat (map wire L)"

lemma those_Some: "those xs = Some ys \<Longrightarrow> x \<in> set xs \<Longrightarrow> x \<noteq> None"
  by (induction xs arbitrary: ys) (auto split: option.splits)

lemma wal_log_appends: "appends wal_log wal_holds"
proof -
  have "wal_holds w' (L @ rs)" if w: "wal_holds w L" and c: "\<forall>r\<in>set rs. constructed r" and l: "wal_log w rs = Some w'" for w L rs w'
  proof -
    obtain bs where bs: "those (map Record_encode rs) = Some bs" "w' = w @ concat bs"
      using l by (auto simp: wal_log_def bind_Some_conv)
    have "storable r" if "r \<in> set rs" for r
      using encode_storable those_Some [OF bs(1), of "Record_encode r"] that c by auto
    then show ?thesis using w bs those_encode [of rs] by (auto simp: wal_holds_def)
  qed
  then show ?thesis unfolding appends_def by blast
qed

definition sched_log :: "('w \<Rightarrow> Record list \<Rightarrow> bool) \<Rightarrow> ('s, 'w) Schedule \<Rightarrow> bool" where
  "sched_log R g \<longleftrightarrow> (\<exists>L. R (wal (sys g)) L \<and> (\<forall>m k. k \<notin> direct_keys g \<longrightarrow>
     redo L m k = kv_puts (concat (map snd (installed g))) m k))"

lemma ctx_ids_called:
  "i < length (ctxs g) \<Longrightarrow> tc_tranc_id c = tc_tranc_id (ctxs g ! i) \<Longrightarrow>
   tc_tranc_id ` set ((ctxs g)[i := c]) = tc_tranc_id ` set (ctxs g)"
  using distinct_update_same [of i "ctxs g" tc_tranc_id c] by (metis list.set_map)

lemma sched_log_same:
  assumes "sched_log R g" "i < length (ctxs g)" "same_ctx (ctxs g ! i) c" "wal y = wal (sys g)"
  shows "sched_log R (called g i c y)"
  using assms ctx_ids_called [of i g c] by (simp add: sched_log_def direct_keys_def called_def same_ctx_def)

lemma log_step: "sched_step E log g g' \<Longrightarrow> appends log R \<Longrightarrow> sched_wf g \<Longrightarrow> sched_log R g \<Longrightarrow> sched_log R g'"
proof (induction rule: sched_step.induct)
  case (Begin level g c y)
  have c: "tc_tranc_id c = nextTransactionId (tran_manager (lsm (sys g)))" "wal y = wal (sys g)"
    using Begin.hyps(3) by (auto simp: new_tranc_def next_id_def getNextTransactionId_def TranContext_new_def)
  have "fst x \<noteq> tc_tranc_id c" if "x \<in> set (installed g)" for x
    using fresh_id(2) [OF Begin.prems(2) c(1)] imageI [OF that, of fst] by metis
  then have "filter (\<lambda>x. fst x \<notin> tc_tranc_id ` set (ctxs g @ [c])) (installed g) =
      filter (\<lambda>x. fst x \<notin> tc_tranc_id ` set (ctxs g)) (installed g)" by (intro filter_cong) auto
  then have "direct_keys (g\<lparr>sys := y, ctxs := ctxs g @ [c]\<rparr>) = direct_keys g"
    by (simp add: direct_keys_def)
  then show ?case using Begin.prems(3) by (simp add: sched_log_def c(2))
next
  case (Write g i k v c y)
  note d = may_callD [OF Write.prems(2) Write.hyps(1)]
  show ?case using write_wf [OF d(1) Write.hyps(2,3)] by (intro sched_log_same [OF Write.prems(3) d(3)]) simp_all
next
  case (Erase g i k c y)
  note d = may_callD [OF Erase.prems(2) Erase.hyps(1)]
  show ?case using erase_wf [OF d(1) Erase.hyps(2,3)] by (intro sched_log_same [OF Erase.prems(3) d(3)]) simp_all
next
  case (Read g i k r c)
  note d = may_callD [OF Read.prems(2) Read.hyps(1)]
  show ?case using read_wf [OF d(1) Read.hyps(2)] by (intro sched_log_same [OF Read.prems(3) d(3)]) simp_all
next
  case (Commit g i c y)
  note d = may_callD [OF Commit.prems(2) Commit.hyps(1)]
  note w = commit_wf [OF d(1,2) Commit.hyps(2)]
  let ?c = "ctxs g ! i" and ?g = "install (tc_tranc_id c) (temp_map c) (called g i c y)"
  have id: "tc_tranc_id c = tc_tranc_id ?c" "temp_map c = temp_map ?c" using w by (simp_all add: same_ctx_def)
  have "log (wal (sys g)) (operations ?c @ [commitRecord (tc_tranc_id ?c)]) = Some (wal y)"
    using Commit.hyps(2) d(1)
    by (auto simp: TranContext_commit_def log_and_finish_def ctx_wf_def snapshot_level_def Let_def bind_Some_conv set_ready_def
        on_engine_def split: if_splits option.splits)
  moreover have "\<forall>r\<in>set (operations ?c @ [commitRecord (tc_tranc_id ?c)]). constructed r"
    using d(1) by (simp add: ctx_wf_def)
  moreover obtain L where L: "R (wal (sys g)) L"
      "\<And>m k. k \<notin> direct_keys g \<Longrightarrow> redo L m k = kv_puts (concat (map snd (installed g))) m k"
    using Commit.prems(3) by (auto simp: sched_log_def)
  ultimately have R: "R (wal y) (L @ operations ?c @ [commitRecord (tc_tranc_id ?c)])"
    using Commit.prems(1) unfolding appends_def by blast
  have "tc_tranc_id ?c \<in> tc_tranc_id ` set (ctxs g)" using d(3) by simp
  then have dk: "direct_keys ?g = direct_keys g"
    using ctx_ids_called [OF d(3) id(1)] by (auto simp: direct_keys_def install_def called_def id(1))
  have "redo (L @ operations ?c @ [commitRecord (tc_tranc_id ?c)]) m k = kv_puts (concat (map snd (installed ?g))) m k" if k: "k \<notin> direct_keys g" for m k
  proof -
    have "kv_puts (temp_map ?c) (redo L m) k = kv_puts (temp_map ?c) (kv_puts (concat (map snd (installed g))) m) k"
      by (rule kv_puts_cong) (rule L(2) [OF k])
    moreover have "redo (operations ?c) (redo L m) = kv_puts (temp_map ?c) (redo L m)" using d(1) by (simp add: ctx_wf_def)
    ultimately show ?thesis by (simp add: install_def called_def kv_puts_append id(2))
  qed
  then have "\<forall>m k. k \<notin> direct_keys ?g \<longrightarrow> redo (L @ operations ?c @ [commitRecord (tc_tranc_id ?c)]) m k =
      kv_puts (concat (map snd (installed ?g))) m k" unfolding dk by blast
  moreover have "wal (sys ?g) = wal y" by (simp add: install_def called_def)
  ultimately show ?case unfolding sched_log_def using R by metis
next
  case (Refuse g i c y)
  note d = may_callD [OF Refuse.prems(2) Refuse.hyps(1)]
  show ?case using commit_wf [OF d(1,2) Refuse.hyps(2)] by (intro sched_log_same [OF Refuse.prems(3) d(3)]) simp_all
next
  case (Log_fails g i e c y)
  note d = may_callD [OF Log_fails.prems(2) Log_fails.hyps(1)]
  show ?case using commit_wf [OF d(1,2) Log_fails.hyps(2)] by (intro sched_log_same [OF Log_fails.prems(3) d(3)]) simp_all
next
  case (Abort g i r c y)
  note d = may_callD [OF Abort.prems(2) Abort.hyps(1)]
  show ?case using abort_wf [OF d(1,2) Abort.hyps(2)] by (intro sched_log_same [OF Abort.prems(3) d(3)]) simp_all
next
  case (Direct k g v)
  let ?i = "nextTransactionId (tran_manager (lsm (sys g)))"
  let ?g = "install ?i [(k, v)] (g\<lparr>sys := (sys g)\<lparr>lsm := LSM_put E (lsm (sys g)) k v\<rparr>\<rparr>)"
  have "?i \<notin> tc_tranc_id ` set (ctxs g)" by (rule fresh_id(1) [OF Direct.prems(2) refl])
  then have dk: "direct_keys ?g = insert k (direct_keys g)"
    by (simp add: direct_keys_def install_def)
  have "kv_puts (concat (map snd (installed ?g))) m j = kv_puts (concat (map snd (installed g))) m j" if "j \<noteq> k" for j m
    using that by (simp add: install_def kv_puts_append)
  moreover have "wal (sys ?g) = wal (sys g)" by (simp add: install_def)
  ultimately show ?case using Direct.prems(3) unfolding sched_log_def dk by fastforce
qed

lemma log_reach:
  assumes "sched_reach E log s w g" "appends log R" "R w []"
  shows "sched_log R g"
proof -
  have "sched_wf g \<and> sched_log R g" using assms(1) unfolding sched_reach_def
  proof (induction rule: rtranclp_induct)
    case base
    show ?case using assms(3) by (auto simp: sched_wf_def sched_log_def sched_start_def intro!: exI [of _ "[]"])
  next
    case (step g g')
    then show ?case using wf_step log_step [OF _ assms(2)] by blast
  qed
  then show ?thesis by blast
qed

subsection \<open>Running a schedule\<close>

datatype call = CBegin IsolationLevel | CWrite nat string string | CErase nat string | CRead nat string
  | CCommit nat | CAbort nat | CDirect string string

text \<open>One call, nothing when the client may not make it or the program is undefined.\<close>

fun sched_exec ::
    "'s engine_ops \<Rightarrow> ('w \<Rightarrow> Record list \<Rightarrow> 'w option) \<Rightarrow> call \<Rightarrow> ('s, 'w) Schedule \<Rightarrow> ('s, 'w) Schedule option" where
  "sched_exec E log (CBegin level) g =
     (if (level = REPEATABLE_READ \<or> level = SERIALIZABLE) \<and> ids_left g
      then case new_tranc (sys g) level of (c, y) \<Rightarrow> Some (g\<lparr>sys := y, ctxs := ctxs g @ [c]\<rparr>) else None)"
| "sched_exec E log (CWrite i k v) g =
     (if may_call g i \<and> k \<noteq> []
      then case TranContext_put E (ctxs g ! i) (sys g) k v of (c, y) \<Rightarrow> Some (called g i c y) else None)"
| "sched_exec E log (CErase i k) g =
     (if may_call g i \<and> k \<noteq> []
      then case TranContext_remove E (ctxs g ! i) (sys g) k of (c, y) \<Rightarrow> Some (called g i c y) else None)"
| "sched_exec E log (CRead i k) g =
     (if may_call g i
      then case TranContext_get E (ctxs g ! i) (sys g) k of (r, c) \<Rightarrow> Some (called g i c (sys g)) else None)"
| "sched_exec E log (CCommit i) g =
     (if may_call g i
      then case TranContext_commit E log (ctxs g ! i) (sys g) False of
             None \<Rightarrow> None
           | Some (Inr True, c, y) \<Rightarrow> Some (install (tc_tranc_id c) (temp_map c) (called g i c y))
           | Some (_, c, y) \<Rightarrow> Some (called g i c y)
      else None)"
| "sched_exec E log (CAbort i) g =
     (if may_call g i
      then case TranContext_abort E (ctxs g ! i) (sys g) of (r, c, y) \<Rightarrow> Some (called g i c y) else None)"
| "sched_exec E log (CDirect k v) g =
     (if k \<noteq> [] \<and> ids_left g
      then Some (install (nextTransactionId (tran_manager (lsm (sys g)))) [(k, v)]
        (g\<lparr>sys := (sys g)\<lparr>lsm := LSM_put E (lsm (sys g)) k v\<rparr>\<rparr>))
      else None)"

fun sched_run ::
    "'s engine_ops \<Rightarrow> ('w \<Rightarrow> Record list \<Rightarrow> 'w option) \<Rightarrow> call list \<Rightarrow> ('s, 'w) Schedule \<Rightarrow> ('s, 'w) Schedule option" where
  "sched_run E log [] g = Some g"
| "sched_run E log (a # as) g = Option.bind (sched_exec E log a g) (sched_run E log as)"

lemma sched_exec_step: "sched_exec E log a g = Some g' \<Longrightarrow> sched_step E log g g'"
  by (cases a) (auto split: if_splits prod.splits option.splits sum.splits bool.splits intro: sched_step.intros)

lemma sched_run_steps: "sched_run E log as g = Some g' \<Longrightarrow> (sched_step E log)\<^sup>*\<^sup>* g g'"
proof (induction as arbitrary: g)
  case (Cons a as)
  then obtain g1 where "sched_exec E log a g = Some g1" "sched_run E log as g1 = Some g'" by (auto simp: bind_Some_conv)
  then show ?case using Cons.IH sched_exec_step converse_rtranclp_into_rtranclp by metis
qed simp

text \<open>Every step is one call.\<close>

lemma sched_step_exec: "sched_step E log g g' \<Longrightarrow> \<exists>a. sched_exec E log a g = Some g'"
proof (induction rule: sched_step.induct)
  case (Begin level g c y)
  then show ?case by (intro exI [of _ "CBegin level"]) simp
next
  case (Write g i k v c y)
  then show ?case by (intro exI [of _ "CWrite i k v"]) simp
next
  case (Erase g i k c y)
  then show ?case by (intro exI [of _ "CErase i k"]) simp
next
  case (Read g i k r c)
  then show ?case by (intro exI [of _ "CRead i k"]) simp
next
  case (Commit g i c y)
  then show ?case by (intro exI [of _ "CCommit i"]) simp
next
  case (Refuse g i c y)
  then show ?case by (intro exI [of _ "CCommit i"]) simp
next
  case (Log_fails g i e c y)
  then show ?case by (intro exI [of _ "CCommit i"]) simp
next
  case (Abort g i r c y)
  then show ?case by (intro exI [of _ "CAbort i"]) simp
next
  case (Direct k g v)
  then show ?case by (intro exI [of _ "CDirect k v"]) simp
qed

lemma sched_reach_run: "sched_reach E log s w g \<longleftrightarrow> (\<exists>as. sched_run E log as (sched_start s w) = Some g)"
proof
  have app: "sched_run E log (as @ bs) h = Option.bind (sched_run E log as h) (sched_run E log bs)" for as bs h
    by (induction as arbitrary: h) (auto split: Option.bind_split)
  assume "sched_reach E log s w g"
  then show "\<exists>as. sched_run E log as (sched_start s w) = Some g" unfolding sched_reach_def
  proof (induction rule: rtranclp_induct)
    case base
    then show ?case by (intro exI [of _ "[]"]) simp
  next
    case (step g g')
    then obtain as a where "sched_run E log as (sched_start s w) = Some g" "sched_exec E log a g = Some g'"
      using sched_step_exec by blast
    then have "sched_run E log (as @ [a]) (sched_start s w) = Some g'" by (simp add: app)
    then show ?case by blast
  qed
qed (auto simp: sched_reach_def intro: sched_run_steps)

subsection \<open>The skip list engine\<close>

lemma sl_put_visible:
  assumes "sl_bounded s b"
  shows "sl_find (sl_put flips s k v i) k 0 = Some (v, i)"
proof -
  obtain es where es: "sl_abs s es" using assms by (auto simp: sl_bounded_def)
  obtain s' where s': "SkipList_put s flips k v i = Some s'" "sl_abs s' (vput k v i es)" using put_abs [OF es] by blast
  then show ?thesis by (simp add: sl_put_def sl_find_ok [OF s'(2)] vfind_vput_same)
qed

lemma sl_find_bounded:
  assumes "sl_bounded s b" "sl_find s k 0 = Some (v, i)"
  shows "unat i < b"
proof -
  obtain es where es: "sl_abs s es" "\<forall>e\<in>set es. unat (snd (snd e)) < b" using assms(1) by (auto simp: sl_bounded_def)
  obtain k' where "vfind k 0 es = Some (k', v, i)" using assms(2) by (auto simp: sl_find_ok [OF es(1)] split: option.splits)
  then have "(k', v, i) \<in> set es"
    by (auto simp: vfind_def split: list.splits if_splits dest!: arg_cong [where f = set] set_dropWhileD [where xs = es])
  then show ?thesis using es(2) by fastforce
qed

interpretation sl_sched: sched_engine "skiplist_engine flips" sl_content sl_bounded
  by unfold_locales (use sl_put_visible sl_put_frame(1) sl_find_bounded in \<open>auto simp: skiplist_engine_def\<close>)

text \<open>A transaction that was begun last meets no younger version.\<close>

context sched_engine
begin

lemma retry_scan:
  assumes "sched_data E content bounded m0 g" "engine (lsm y) = engine (lsm (sys g))"
    and "get_max_flushed_tranc_id (tran_manager (lsm y)) \<noteq> None" "i = nextTransactionId (tran_manager (lsm (sys g)))"
  shows "conflict_scan E (lsm y) i [(k, v)] = Some False"
proof -
  have b: "bounded (engine (lsm y)) (unat i)" and sst: "eng_sst_get E (engine (lsm y)) k 0 = None"
    using assms by (auto simp: sched_data_def Let_def next_nat_def)
  have "\<not> mem_conflict E (engine (lsm y)) i k"
    using mem_get_bounded [OF b, of k] by (force simp: mem_conflict_def word_less_nat_alt split: option.splits)
  then show ?thesis using assms(3) sst by (auto simp: sst_conflict_def)
qed

lemma retry_run:
  assumes data: "sched_data E content bounded m0 g" and ids: "ids_left g" and k: "k \<noteq> []"
    and fl: "get_max_flushed_tranc_id (tran_manager (lsm (sys g))) \<noteq> None" and log: "\<And>w rs. log w rs \<noteq> None"
  shows "\<exists>g'. sched_run E log [CBegin SERIALIZABLE, CWrite (length (ctxs g)) k v, CCommit (length (ctxs g))] g = Some g' \<and>
    isCommited (last (ctxs g')) \<and> installed g' = installed g @ [(nextTransactionId (tran_manager (lsm (sys g))), [(k, v)])]"
proof -
  let ?i = "nextTransactionId (tran_manager (lsm (sys g)))" and ?n = "length (ctxs g)"
  obtain c y where cy: "new_tranc (sys g) SERIALIZABLE = (c, y)" by fastforce
  have c: "c = TranContext_new ?i SERIALIZABLE" and y: "engine (lsm y) = engine (lsm (sys g))"
    "get_max_flushed_tranc_id (tran_manager (lsm y)) \<noteq> None"
    using cy fl by (auto simp: new_tranc_def next_id_def getNextTransactionId_def get_max_flushed_tranc_id_def)
  have c0: "open_ctx c" by (simp add: c TranContext_new_def open_ctx_def)
  obtain c2 where c2: "TranContext_put E c y k v = (c2, y)" "open_ctx c2" "tc_tranc_id c2 = ?i" "temp_map c2 = [(k, v)]"
      "isolation_level c2 = SERIALIZABLE"
    by (simp add: c TranContext_put_def TranContext_new_def Let_def umap_put_def open_ctx_def)
  obtain w where w: "log (wal y) (operations c2 @ [commitRecord ?i]) = Some w" using log by blast
  obtain c3 y3 where co: "TranContext_commit E log c2 y False = Some (Inr True, c3, y3)" "isCommited c3"
      "tc_tranc_id c3 = ?i" "temp_map c3 = [(k, v)]"
    using retry_scan [OF data y refl, of k v] w c2(3-5) by (simp add: TranContext_commit_def log_and_finish_def Let_def)
  show ?thesis
    using c0 by (simp add: ids cy may_call_def k called_def install_def c2(1,2) co)
qed

end

subsection \<open>Properties\<close>

text \<open>
  C21: in every state a schedule can reach, with every engine and every log: each transaction has an id of
  its own below the next one; its buffer has one entry for a key and none for the empty key; the
  operations it will log are its own and amount to the buffer; it is not both committed and
  aborted, and its fate was reported to the manager; a write set was installed for it exactly when
  it committed, once.
\<close>

theorem schedule_well_formed:
  assumes "sched_reach E log s w g"
  shows "sched_wf g"
  by (rule wf_reach [OF assms])




abbreviation demo_engine :: "SkipList engine_ops" where
  "demo_engine \<equiv> skiplist_engine (\<lambda>i. False)"

definition demo_run :: "call list \<Rightarrow> (SkipList, bytes) Schedule option" where
  "demo_run as = sched_run demo_engine wal_log as (sched_start sl_db [])"

definition demo_calls :: "call list" where
  "demo_calls = [CBegin SERIALIZABLE, CBegin REPEATABLE_READ, CWrite 0 ''k'' ''a'', CWrite 1 ''j'' ''b'', CCommit 1,
     CErase 0 ''j'', CDirect ''d'' ''x'', CCommit 0, CBegin SERIALIZABLE, CErase 2 ''j'', CWrite 2 ''k'' ''c'', CCommit 2]"

text \<open>The first transaction is refused: it wrote a key the second, which is younger, has committed.\<close>

lemma demo_run_calls:
  "map_option (\<lambda>g. (map isCommited (ctxs g), map isAborted (ctxs g), installed g, map (sl_content (engine (lsm (sys g)))) [''k'', ''j'', ''d'']))
     (demo_run demo_calls) =
   Some ([False, True, True], [True, False, False], [(2, [(''j'', ''b'')]), (3, [(''d'', ''x'')]), (4, [(''j'', []), (''k'', ''c'')])],
     [Some ''c'', None, Some ''x''])"
  by code_simp

lemma demo_reach:
  assumes "demo_run as = Some g"
  shows "sched_reach demo_engine wal_log sl_db [] g"
  using assms sched_run_steps unfolding demo_run_def sched_reach_def by blast

lemma demo_start:
  "sl_bounded (engine sl_db) (unat (nextTransactionId (tran_manager sl_db)))" "\<forall>k. eng_sst_get demo_engine (engine sl_db) k 0 = None"
  using sl_abs_new [of 16] by (auto simp: sl_bounded_def sl_db_def skiplist_engine_def)

lemma schedule_well_formed_witness: "\<exists>g. demo_run demo_calls = Some g \<and> sched_wf g"
proof -
  obtain g where g: "demo_run demo_calls = Some g" using demo_run_calls by (cases "demo_run demo_calls") auto
  with schedule_well_formed [OF demo_reach [OF g]] show ?thesis by blast
qed




text \<open>
  SERIALIZABLE does not serialise: the check of a commit looks for versions younger than the transaction
  only. Two transactions read the key, both write it, and both commit; the update of the
  first is lost.
\<close>

theorem serializable_lost_update:
  "map_option (\<lambda>g. (map (\<lambda>c. map (\<lambda>(k, r). (k, map_option fst r)) (read_map c)) (ctxs g), map isCommited (ctxs g), installed g))
     (demo_run [CBegin SERIALIZABLE, CBegin SERIALIZABLE, CRead 0 ''k'', CRead 1 ''k'', CWrite 0 ''k'' ''a'', CWrite 1 ''k'' ''b'',
        CCommit 0, CCommit 1]) =
   Some ([[(''k'', None)], [(''k'', None)]], [True, True], [(1, [(''k'', ''a'')]), (2, [(''k'', ''b'')])])"
  by code_simp

text \<open>
  Reads do not see one state of the database: a transaction reads one key before and the other after an
  older transaction that wrote both commits, and so sees half of its writes.
\<close>

theorem serializable_read_skew:
  "map_option (\<lambda>g. map (\<lambda>c. map (\<lambda>(k, r). (k, map_option fst r)) (read_map c)) (ctxs g))
     (demo_run [CBegin SERIALIZABLE, CBegin SERIALIZABLE, CWrite 0 ''x'' ''a'', CWrite 0 ''y'' ''b'', CRead 1 ''x'',
        CCommit 0, CRead 1 ''y'']) =
   Some [[], [(''x'', None), (''y'', Some ''b'')]]"
  by code_simp

text \<open>A commit does not look at \<^verbatim>\<open>isAborted\<close>: after an abort it still installs the writes.\<close>

theorem commit_after_abort_installs:
  "(case TranContext_put demo_engine (TranContext_new 1 REPEATABLE_READ) \<lparr>lsm = sl_db, wal = [], activeTrans = []\<rparr> ''k'' ''v'' of (c1, y1) \<Rightarrow>
    case TranContext_abort demo_engine c1 y1 of (r, c2, y2) \<Rightarrow>
    case TranContext_commit demo_engine wal_log c2 y2 False of
      Some (r', c3, y3) \<Rightarrow> (isAborted c3, r', sl_content (engine (lsm y3)) ''k'')) = (True, Inr True, Some ''v'')"
  by code_simp

end
