(* ===== verification/Sst_Builder.thy ===== *)
theory Sst_Builder
  imports Sst_Iter Bloom_Filter Config_File
begin

text \<open>
  The written parts of \<^verbatim>\<open>SSTBuilder\<close> in \<^verbatim>\<open>src/sst/sst.cpp\<close> and the accessors of a table: the two constructors
  and the sizes. \<^verbatim>\<open>add\<close>, \<^verbatim>\<open>finish_block\<close> and \<^verbatim>\<open>build\<close> have no bodies in the repository. A floating point value
  is its bit pattern, as in \<open>Bloom_Filter\<close>. The value log a builder writes to is only kept here.
\<close>

record SSTBuilder =
  bld_block :: Block
  bld_first_key :: string
  bld_last_key :: string
  bld_meta_entries :: "BlockMeta list"
  bld_data :: bytes
  bld_block_size :: nat
  bld_bloom_filter :: "BloomFilter option"
  bld_min_tranc_id :: u64
  bld_max_tranc_id :: u64
  bld_storage_mode :: u8
  bld_vlog :: "(u64 \<Rightarrow> u32 \<Rightarrow> string) option"
  bld_wisckey_threshold :: nat

definition builder_bloom :: "(u64 \<Rightarrow> u64 \<Rightarrow> u64 \<times> u64) \<Rightarrow> u64 TomlConfig \<Rightarrow> bool \<Rightarrow> BloomFilter option" where
  "builder_bloom sizing cfg has_bloom =
     (if has_bloom
      then Some (BloomFilter_new sizing (of_int (bloom_filter_expected_size cfg)) (bloom_filter_expected_error_rate cfg))
      else None)"

text \<open>\<open>junk\<close> is the value of a member that the constructor does not initialise.\<close>

definition SSTBuilder_new ::
    "(u64 \<Rightarrow> u64 \<Rightarrow> u64 \<times> u64) \<Rightarrow> u64 TomlConfig \<Rightarrow> nat \<Rightarrow> nat \<Rightarrow> bool \<Rightarrow> SSTBuilder" where
  "SSTBuilder_new sizing cfg junk block_size has_bloom =
     \<lparr>bld_block = Block_new block_size, bld_first_key = [], bld_last_key = [], bld_meta_entries = [], bld_data = [],
      bld_block_size = junk, bld_bloom_filter = builder_bloom sizing cfg has_bloom, bld_min_tranc_id = -1, bld_max_tranc_id = 0,
      bld_storage_mode = 0, bld_vlog = None, bld_wisckey_threshold = 0\<rparr>"

definition SSTBuilder_new_wisckey ::
    "(u64 \<Rightarrow> u64 \<Rightarrow> u64 \<times> u64) \<Rightarrow> u64 TomlConfig \<Rightarrow> nat \<Rightarrow> nat \<Rightarrow> bool \<Rightarrow> (u64 \<Rightarrow> u32 \<Rightarrow> string) option \<Rightarrow> nat \<Rightarrow> SSTBuilder" where
  "SSTBuilder_new_wisckey sizing cfg junk block_size has_bloom vlog wisckey_threshold =
     \<lparr>bld_block = Block_new block_size, bld_first_key = [], bld_last_key = [], bld_meta_entries = [], bld_data = [],
      bld_block_size = junk, bld_bloom_filter = builder_bloom sizing cfg has_bloom, bld_min_tranc_id = -1, bld_max_tranc_id = 0,
      bld_storage_mode = 1, bld_vlog = vlog, bld_wisckey_threshold = wisckey_threshold\<rparr>"

definition real_size :: "SSTBuilder \<Rightarrow> nat" where
  "real_size b = length (bld_data b) + Block_cur_size (bld_block b)"

definition estimated_size :: "SSTBuilder \<Rightarrow> nat" where
  "estimated_size b = length (bld_data b)"

definition get_first_key :: "SST \<Rightarrow> string" where
  "get_first_key s = sst_first_key s"

definition get_last_key :: "SST \<Rightarrow> string" where
  "get_last_key s = sst_last_key s"

definition get_sst_id :: "SST \<Rightarrow> nat" where
  "get_sst_id s = sst_id s"

lemma estimated_below_real: "estimated_size b + 2 \<le> real_size b"
  by (simp add: estimated_size_def real_size_def Block_cur_size_def)

text \<open>The parameter of the constructors hides the member \<^verbatim>\<open>block_size\<close>, which is never set.\<close>

lemma builder_block_size_unset:
  "bld_block_size (SSTBuilder_new sizing cfg junk n hb) = junk"
  "bld_block_size (SSTBuilder_new_wisckey sizing cfg junk n hb vlog threshold) = junk"
  by (simp_all add: SSTBuilder_new_def SSTBuilder_new_wisckey_def)

subsection \<open>Values kept outside a table\<close>

text \<open>What a block holds in place of a value that went to the value log.\<close>

definition vlog_reference :: "u64 \<Rightarrow> u32 \<Rightarrow> string" where
  "vlog_reference off sz = bytes_string (enc64 off @ enc32 sz)"

lemma string_bytes_string [simp]: "string_bytes (bytes_string b) = b"
proof (induction b)
  case (Cons a b)
  have "unat a mod 256 = unat a" using unsigned_less [of a, where ?'a = nat] by simp
  then show ?case using Cons by (simp add: string_bytes_def bytes_string_def)
qed (simp add: string_bytes_def bytes_string_def)

lemma take_drop_bytes_string: "take n (bytes_string b) = bytes_string (take n b)" "drop n (bytes_string b) = bytes_string (drop n b)"
  by (simp_all add: bytes_string_def take_map drop_map)

lemma vlog_reference_resolves:
  assumes "storage_mode s \<noteq> 0" "sst_vlog s = Some read_value"
  shows "resolve_value s (vlog_reference off sz) = Inr (read_value off sz)"
proof -
  have l: "length (vlog_reference off sz) = 12" by (simp add: vlog_reference_def bytes_string_def)
  have t: "string_bytes (take 8 (vlog_reference off sz)) = enc64 off"
    "string_bytes (take 4 (drop 8 (vlog_reference off sz))) = enc32 sz"
    by (simp_all add: vlog_reference_def take_drop_bytes_string)
  show ?thesis using assms l t by (auto simp: resolve_value_def Let_def)
qed

text \<open>
  A value of 12 bytes or more that was kept in the block is taken for a reference: with a threshold above
  11 the values between are not read back.
\<close>

lemma inline_value_misread:
  assumes "storage_mode s \<noteq> 0" "sst_vlog s = Some (\<lambda>off sz. ''logged'')" "12 \<le> length v"
  shows "resolve_value s v = Inr ''logged''"
  using assms by (auto simp: resolve_value_def Let_def)

end
