(* ===== verification/Lsm_Lifecycle.thy ===== *)
theory Lsm_Lifecycle
  imports Tran_Context Mem_Table
begin

text \<open>
  Opening and closing a database: the constructor and the destructor of \<^verbatim>\<open>LSM\<close> in \<^verbatim>\<open>src/lsm/engine.cpp\<close> with the
  transaction id file of its manager, and \<^verbatim>\<open>begin_tran\<close>. The replay of the log at opening and the
  constructor of the engine have no bodies in the repository; the engine, its flush and its size are arguments.
\<close>

definition isolation_level_to_string :: "IsolationLevel \<Rightarrow> string" where
  "isolation_level_to_string level =
     (case level of
        READ_UNOP_COMMITTED \<Rightarrow> ''READ_UNOP_COMMITTED''
      | READ_OP_COMMITTED \<Rightarrow> ''READ_OP_COMMITTED''
      | REPEATABLE_READ \<Rightarrow> ''REPEATABLE_READ''
      | SERIALIZABLE \<Rightarrow> ''SERIALIZABLE'')"

definition get_isolation_level :: "TranContext \<Rightarrow> IsolationLevel" where
  "get_isolation_level c = isolation_level c"

definition get_flushed_tranc_ids :: "TranManager \<Rightarrow> u64 list" where
  "get_flushed_tranc_ids t = flushedTrancIds t"

text \<open>The path and the data directory, which is set to the current one when it is empty.\<close>

definition get_tranc_id_file_path :: "string \<Rightarrow> string \<times> string" where
  "get_tranc_id_file_path data_dir =
     (let data_dir = (if data_dir = [] then ''./'' else data_dir) in (data_dir @ ''/tranc_id'', data_dir))"

text \<open>The answer of \<^verbatim>\<open>write_to_wal\<close>: an exception of the log is caught.\<close>

definition write_to_wal :: "('w \<Rightarrow> Record list \<Rightarrow> 'w option) \<Rightarrow> 'w \<Rightarrow> Record list \<Rightarrow> bool \<times> 'w" where
  "write_to_wal log w records = (case log w records of None \<Rightarrow> (False, w) | Some w \<Rightarrow> (True, w))"

definition TranManager_destroy :: "TranManager \<Rightarrow> bytes \<Rightarrow> bytes option" where
  "TranManager_destroy t file = write_tranc_id_file t file"

definition LSM_begin_tran :: "('s, 'w) TranSystem \<Rightarrow> IsolationLevel \<Rightarrow> TranContext \<times> ('s, 'w) TranSystem" where
  "LSM_begin_tran y level = (case new_tranc y level of (tranc_context, y) \<Rightarrow> (tranc_context, y))"

text \<open>\<open>disk\<close> is the transaction id file, if the directory has one.\<close>

definition LSM_new :: "'s \<Rightarrow> bytes option \<Rightarrow> 's LSM option" where
  "LSM_new e disk =
     (case disk of
        None \<Rightarrow> Some \<lparr>engine = e, tran_manager = TranManager_new\<rparr>
      | Some file \<Rightarrow> do { t \<leftarrow> TranManager_open file; Some \<lparr>engine = e, tran_manager = t\<rparr> })"

text \<open>The file is written by the destructor of the database and again by that of its manager.\<close>

definition LSM_destroy :: "('s \<Rightarrow> 's option) \<Rightarrow> ('s \<Rightarrow> u64) \<Rightarrow> 's LSM \<Rightarrow> bytes \<Rightarrow> ('s \<times> bytes) option" where
  "LSM_destroy flush total_size s file =
     do { e \<leftarrow> flush_all flush total_size (engine s);
          file \<leftarrow> write_tranc_id_file (tran_manager s) file;
          file \<leftarrow> TranManager_destroy (tran_manager s) file;
          Some (e, file) }"

lemma flush_all_0: "flush_all flush total_size m = Some m' \<Longrightarrow> total_size m' = 0"
proof (rule flush_all.raw_induct [where P = "\<lambda>(flush :: 'a \<Rightarrow> 'a option) (total_size :: 'a \<Rightarrow> u64) m m'. total_size m' = 0"])
  fix f :: "('a \<Rightarrow> 'a option) \<Rightarrow> ('a \<Rightarrow> u64) \<Rightarrow> 'a \<Rightarrow> 'a option" and flush total_size m m'
  assume "\<And>flush total_size m m'. f flush total_size m = Some m' \<Longrightarrow> total_size m' = 0"
    and "(if 0 < total_size m then flush m \<bind> f flush total_size else Some m) = Some m'"
  then show "total_size m' = 0" by (auto split: if_splits simp: bind_Some_conv word_gt_0)
qed


text \<open>A database whose engine is a memory table with one entry, after four ids.\<close>

definition sample_db :: "MemTable LSM" where
  "sample_db = \<lparr>engine = sample_table,
     tran_manager = \<lparr>nextTransactionId = 5, readyToFlushTrancIds = [(3, OP_COMMITTED)], flushedTrancIds = [2]\<rparr>\<rparr>"


text \<open>
  The file is written by destructors only. A database whose process dies before its first shutdown leaves the empty file
  its constructor made, and cannot be opened again: reading the next id throws.
\<close>

theorem killed_first_run_cannot_reopen: "LSM_new e None \<noteq> None \<and> LSM_new e' (Some []) = None"
  by (simp add: LSM_new_def TranManager_open_def read_tranc_id_file_def read_at_def)

text \<open>
  After a later crash the file is the one of the last shutdown, so the ids handed out since then are handed out once more.
\<close>

theorem crash_reuses_ids:
  assumes "LSM_new e (Some file) = Some s" "LSM_new e' (Some file) = Some s'"
  shows "fst (next_id s') = fst (next_id s) \<and> flushedTrancIds (tran_manager s') = flushedTrancIds (tran_manager s)"
  using assms by (auto simp: LSM_new_def next_id_def getNextTransactionId_def bind_Some_conv split: option.splits)

text \<open>
  What a reader sees then. In the run that crashes a lookup and a write take the ids 1 and 2, and a further lookup finds the
  value. In the next run, with the same data, the first lookup has the id 1 again: the value is too new for it.
\<close>

definition crash_file :: bytes where
  "crash_file = the (write_tranc_id_file TranManager_new [])"

theorem crash_hides_data:
  "do { s \<leftarrow> LSM_new (SkipList_new 16) (Some crash_file);
        let s = LSM_put (skiplist_engine (\<lambda>_. False)) (snd (LSM_get (skiplist_engine (\<lambda>_. False)) s ''k'')) ''k'' ''v'';
        r \<leftarrow> LSM_new (engine s) (Some crash_file);
        Some (fst (LSM_get (skiplist_engine (\<lambda>_. False)) s ''k''), fst (LSM_get (skiplist_engine (\<lambda>_. False)) r ''k'')) } =
   Some (Some ''v'', None)"
  by code_simp

end
