(* ===== verification/Flush_Check.thy ===== *)
theory Flush_Check
  imports Tran_Context Mem_Table
begin

text \<open>
  The conflict check of a commit across a flush. A flush moves versions from the memory tables into an SST, where the
  check looks only when an id above the transaction's was reported as flushed. \<open>flush_last\<close> reports the ids whose commit
  marks it meets; that \<^verbatim>\<open>LSMEngine::flush\<close>, which has no body in the repository, passes them one by one to the
  transaction manager is what its comment says.
\<close>

definition report_flushed :: "u64 list \<Rightarrow> TranManager \<Rightarrow> TranManager" where
  "report_flushed ids t = foldl add_flushed_tranc_id t ids"

text \<open>The containers of the manager are in order, and something is flushed.\<close>

definition tm_ok :: "TranManager \<Rightarrow> bool" where
  "tm_ok t \<longleftrightarrow> sorted_wrt (<) (map fst (readyToFlushTrancIds t)) \<and> sorted_wrt (<) (flushedTrancIds t) \<and> flushedTrancIds t \<noteq> []"

lemma map_erase_sorted: "sorted_wrt (<) (map fst m) \<Longrightarrow> sorted_wrt (<) (map fst (map_erase i m))"
  by (simp add: map_erase_def sorted_wrt_map sorted_wrt_filter)

lemma map_erases_sorted: "sorted_wrt (<) (map fst m) \<Longrightarrow> sorted_wrt (<) (map fst (foldl (\<lambda>m i. map_erase i m) m is))"
  by (induction "is" arbitrary: m) (simp_all add: map_erase_sorted)

lemma sorted_le_last: "sorted_wrt (<) (xs :: u64 list) \<Longrightarrow> x \<in> set xs \<Longrightarrow> x \<le> last xs"
  by (induction xs) (auto intro: less_imp_le)

lemma add_flushed_step:
  assumes "tm_ok t" "t' = add_flushed_tranc_id t i"
  shows "tm_ok t'" "last (flushedTrancIds t) \<le> last (flushedTrancIds t')"
    "j \<in> fst ` set (readyToFlushTrancIds t) \<Longrightarrow> j \<le> last (flushedTrancIds t') \<or> j \<in> fst ` set (readyToFlushTrancIds t')"
    "i \<in> fst ` set (readyToFlushTrancIds t) \<Longrightarrow> i \<le> last (flushedTrancIds t')"
proof -
  let ?r = "readyToFlushTrancIds t" and ?f = "flushedTrancIds t"
  have t: "sorted_wrt (<) (map fst ?r)" "sorted_wrt (<) ?f" "?f \<noteq> []" using assms(1) by (auto simp: tm_ok_def)
  obtain fl rem where scan: "flushed_scan i ?r ?f [] = (fl, rem)" by (cases "flushed_scan i ?r ?f []")
  have fl: "set fl = set ?f \<union> moved i ?r" "set rem = moved i ?r" using flushed_scan_sets [OF t(1) scan] by auto
  have so: "sorted_wrt (<) fl" by (rule flushed_scan_sorted [OF t(2) scan])
  have ne: "fl \<noteq> []" using fl(1) t(3) by auto
  have t': "flushedTrancIds t' = compressSet fl" "readyToFlushTrancIds t' = foldl (\<lambda>m i. map_erase i m) ?r rem"
    by (simp_all add: assms(2) add_flushed_tranc_id_def scan)
  have lst: "last (flushedTrancIds t') = last fl" using compressSet_last [OF so ne] t'(1) by simp
  have le: "x \<le> last (flushedTrancIds t')" if "x \<in> set ?f \<union> moved i ?r" for x
    using sorted_le_last [OF so, of x] that fl(1) lst by simp
  show "tm_ok t'" using t(1) map_erases_sorted compressSet_sorted [OF so] ne by (simp add: tm_ok_def t')
  show "last ?f \<le> last (flushedTrancIds t')" by (rule le) (simp add: t(3))
  show "j \<in> fst ` set ?r \<Longrightarrow> j \<le> last (flushedTrancIds t') \<or> j \<in> fst ` set (readyToFlushTrancIds t')"
    using le [of j] fl(2) by (cases "j \<in> moved i ?r") (force simp: t'(2) set_map_erase_all)+
  show "i \<in> fst ` set ?r \<Longrightarrow> i \<le> last (flushedTrancIds t')" using le [of i] by (force simp: moved_def)
qed

lemma report_flushed_ok:
  assumes "tm_ok t"
  shows "tm_ok (report_flushed ids t) \<and> last (flushedTrancIds t) \<le> last (flushedTrancIds (report_flushed ids t)) \<and>
    (\<forall>i\<in>set ids. i \<in> fst ` set (readyToFlushTrancIds t) \<longrightarrow> i \<le> last (flushedTrancIds (report_flushed ids t)))"
  using assms
proof (induction ids arbitrary: t)
  case (Cons i ids)
  let ?t = "add_flushed_tranc_id t i"
  note a = add_flushed_step [where i = i and t = t, OF Cons.prems refl]
  note IH = Cons.IH [OF a(1)]
  have r: "report_flushed (i # ids) t = report_flushed ids ?t" by (simp add: report_flushed_def)
  have "j \<le> last (flushedTrancIds (report_flushed ids ?t))" if "j \<in> set (i # ids)" "j \<in> fst ` set (readyToFlushTrancIds t)" for j
    using that add_flushed_step(3) [where i = i and t = t and j = j, OF Cons.prems refl] a(4) IH by (auto intro: order_trans)
  then show ?case unfolding r using IH a(2) by (blast intro: order_trans)
qed (simp add: report_flushed_def)

subsection \<open>The contents of a flush\<close>

text \<open>The list that \<open>flush_last\<close> writes out.\<close>

definition flushed_list :: "entry list \<Rightarrow> entry list list \<Rightarrow> entry list" where
  "flushed_list es ess = (if ess = [] then es else last ess)"

text \<open>
  Every version was written by a transaction that has committed and whose mark lies in the same list, or whose id is not
  above the largest flushed one.
\<close>

definition settled :: "TranManager \<Rightarrow> entry list \<Rightarrow> bool" where
  "settled t es \<longleftrightarrow> (\<forall>(k, v, i)\<in>set es. i \<le> last (flushedTrancIds t) \<or>
     (([], [], i) \<in> set es \<and> i \<in> fst ` set (readyToFlushTrancIds t)))"

lemma in_commit_ids: "i \<in> set (commit_ids es) \<longleftrightarrow> ([], [], i) \<in> set es"
  by (force simp: commit_ids_def)

lemma settled_reported:
  assumes "tm_ok t" "settled t es"
  shows "tm_ok (report_flushed (commit_ids es) t)"
    "(k, v, i) \<in> set es \<Longrightarrow> i \<le> last (flushedTrancIds (report_flushed (commit_ids es) t))"
proof -
  note r = report_flushed_ok [OF assms(1), of "commit_ids es"]
  then show "tm_ok (report_flushed (commit_ids es) t)" by blast
  assume "(k, v, i) \<in> set es"
  then have "i \<le> last (flushedTrancIds t) \<or> i \<in> set (commit_ids es) \<and> i \<in> fst ` set (readyToFlushTrancIds t)"
    using assms(2) by (auto simp: settled_def in_commit_ids)
  then show "i \<le> last (flushedTrancIds (report_flushed (commit_ids es) t))" using r by (auto intro: order_trans)
qed

lemma flush_last_reports:
  assumes "mem_abs m es ess" "flush_last B b [] m = Some (Some sst, ids, b', m')" 
    "frozen_tables m \<noteq> [] \<or> SkipList_get_size (current_table m) \<noteq> 0"
  shows "ids = commit_ids (flushed_list es ess)"
  using flush_last_abs [OF assms(1,3), of B b "[]"] assms(2) by (auto simp: flushed_list_def)

lemma conflict_scan_sst:
  assumes "get_max_flushed_tranc_id (tran_manager s) = Some m" "i < m" "(k, v) \<in> set kvs" "sst_conflict E (engine s) i k"
  shows "conflict_scan E s i kvs = Some True"
  using assms(3,4)
proof (induction kvs)
  case (Cons kv kvs)
  then show ?case using assms(1,2) by (cases kv) auto
qed simp

subsection \<open>Properties\<close>

text \<open>
  C17: first committer wins across a flush: when a memory table was flushed whose versions were all written by committed
  transactions, and the reported ids have reached the manager, then a transaction that wrote a key of which
  the flush has put a younger version into an SST is refused, without a change to the data or the log.
\<close>

theorem flush_keeps_first_committer:
  assumes "mem_abs m es ess" "frozen_tables m \<noteq> [] \<or> SkipList_get_size (current_table m) \<noteq> 0"
    and "flush_last B b [] m = Some (Some sst, ids, b', m')" "tm_ok t" "settled t (flushed_list es ess)"
    and "tran_manager (lsm y) = report_flushed ids t"
    and "isolation_level c = REPEATABLE_READ \<or> isolation_level c = SERIALIZABLE" "(k, v) \<in> set (temp_map c)"
    and "eng_sst_get E (engine (lsm y)) k 0 = Some (v', i)" "(k, v', i) \<in> set (flushed_list es ess)" "tc_tranc_id c < i"
  shows "\<exists>c' y'. TranContext_commit E log c y f = Some (Inr False, c', y') \<and> isAborted c' \<and>
    engine (lsm y') = engine (lsm y) \<and> wal y' = wal y"
proof -
  have ids: "ids = commit_ids (flushed_list es ess)" by (rule flush_last_reports [OF assms(1,3,2)])
  note r = settled_reported [OF assms(4,5)]
  have "get_max_flushed_tranc_id (tran_manager (lsm y)) = Some (last (flushedTrancIds (report_flushed ids t)))"
    using r(1) by (simp add: get_max_flushed_tranc_id_def assms(6) ids tm_ok_def)
  moreover have "tc_tranc_id c < last (flushedTrancIds (report_flushed ids t))"
    using r(2) [OF assms(10)] assms(11) by (simp add: ids)
  moreover have "sst_conflict E (engine (lsm y)) (tc_tranc_id c) k" using assms(9,11) by (simp add: sst_conflict_def)
  ultimately have "conflict_scan E (lsm y) (tc_tranc_id c) (temp_map c) = Some True"
    using assms(8) by (intro conflict_scan_sst)
  then have "TranContext_commit E log c y f = Some (Inr False, c\<lparr>isAborted := True\<rparr>, set_ready (tc_tranc_id c) ABORTED y)"
    using assms(7) by (auto simp: TranContext_commit_def Let_def)
  then show ?thesis by (auto simp: set_ready_def)
qed

text \<open>An engine with one skip list and one flushed table, for examples.\<close>

definition table_lookup :: "entry list \<Rightarrow> string \<Rightarrow> (string \<times> u64) option" where
  "table_lookup es k = (case filter (\<lambda>(k', v, i). k' = k) es of [] \<Rightarrow> None | (k', v, i) # _ \<Rightarrow> Some (v, i))"

type_synonym two_level = "SkipList \<times> entry list"

definition two_level_get :: "two_level \<Rightarrow> string \<Rightarrow> u64 \<Rightarrow> (string \<times> u64) option" where
  "two_level_get s k t = (case sl_find (fst s) k t of None \<Rightarrow> table_lookup (snd s) k | r \<Rightarrow> r)"

definition two_level_engine :: "two_level engine_ops" where
  "two_level_engine = (stub_engine (\<lambda>s. s))
     \<lparr>eng_get := two_level_get, eng_put := (\<lambda>s k v t. (sl_put (\<lambda>_. False) (fst s) k v t, snd s)),
      eng_mem_get := (\<lambda>s. sl_find (fst s)), eng_mem_put := (\<lambda>s k v t. (sl_put (\<lambda>_. False) (fst s) k v t, snd s)),
      eng_sst_get := (\<lambda>s k t. table_lookup (snd s) k)\<rparr>"

text \<open>The flush of this engine, with the report to the manager.\<close>

definition two_level_flush :: "two_level LSM \<Rightarrow> two_level LSM option" where
  "two_level_flush s =
     do { (sst, ids, es, m) \<leftarrow> flush_last list_builder [] [] (MemTable_new\<lparr>current_table := fst (engine s)\<rparr>);
          Some (s\<lparr>engine := (current_table m, es), tran_manager := report_flushed ids (tran_manager s)\<rparr>) }"

definition two_level_db :: "(two_level, unit) TranSystem" where
  "two_level_db = \<lparr>lsm = \<lparr>engine = (SkipList_new 16, []), tran_manager = TranManager_new\<rparr>, wal = (), activeTrans = []\<rparr>"

text \<open>
  A transaction writes a key and stays open; another writer, of a later id, writes the same key; the memory table is
  flushed; the first transaction commits. The answer of the commit and what a lookup finds at the end.
\<close>

definition flush_race :: "(TranContext \<Rightarrow> (two_level, unit) TranSystem \<Rightarrow> (two_level, unit) TranSystem option) \<Rightarrow>
    ((tran_error + bool) \<times> (string \<times> u64) option) option" where
  "flush_race other =
     (case new_tranc two_level_db SERIALIZABLE of (c, y) \<Rightarrow>
      case TranContext_put two_level_engine c y ''k'' ''mine'' of (c, y) \<Rightarrow>
      do { y \<leftarrow> other c y;
           s \<leftarrow> two_level_flush (lsm y);
           (r, c, y) \<leftarrow> TranContext_commit two_level_engine (\<lambda>w rs. Some ()) c (y\<lparr>lsm := s\<rparr>) False;
           Some (r, eng_get two_level_engine (engine (lsm y)) ''k'' 0) })"

definition by_transaction :: "(two_level, unit) TranSystem \<Rightarrow> (two_level, unit) TranSystem option" where
  "by_transaction y =
     (case new_tranc y SERIALIZABLE of (c, y) \<Rightarrow>
      case TranContext_put two_level_engine c y ''k'' ''theirs'' of (c, y) \<Rightarrow>
      do { (r, c, y) \<leftarrow> TranContext_commit two_level_engine (\<lambda>w rs. Some ()) c y False; Some y })"

definition by_direct_call :: "(two_level, unit) TranSystem \<Rightarrow> (two_level, unit) TranSystem option" where
  "by_direct_call y = Some (y\<lparr>lsm := LSM_put two_level_engine (lsm y) ''k'' ''theirs''\<rparr>)"

text \<open>
  A write without a transaction leaves no commit mark, so the flush does not report its id, and the check of an older
  transaction does not look into the SST: the commit succeeds and its older write hides the younger one. The same
  race with a transaction as the other writer is refused.
\<close>

theorem flushed_direct_write_overwritten:
  "flush_race (\<lambda>_. by_direct_call) = Some (Inr True, Some (''mine'', 1)) \<and>
   flush_race (\<lambda>_. by_transaction) = Some (Inr False, Some (''theirs'', 2))"
  by code_simp

text \<open>A table with one committed transaction, and its flush.\<close>

definition committed_table :: MemTable where
  "committed_table = MemTable_new\<lparr>current_table :=
     sl_put (\<lambda>_. False) (sl_put (\<lambda>_. False) (SkipList_new 16) ''k'' ''theirs'' 2) [] [] 2\<rparr>"

definition committed_entries :: "entry list" where
  "committed_entries = [([], [], 2), (''k'', ''theirs'', 2)]"

lemma committed_table_abs: "mem_abs committed_table committed_entries []" "SkipList_get_size (current_table committed_table) \<noteq> 0"
proof -
  have "sl_abs (SkipList_new 16) []" by (rule sl_abs_new) simp
  then obtain s where s: "SkipList_put (SkipList_new 16) (\<lambda>_. False) ''k'' ''theirs'' 2 = Some s" "sl_abs s [(''k'', ''theirs'', 2)]"
      "size_bytes s = 15"
    using put_abs [of "SkipList_new 16" "[]" "\<lambda>_. False" "''k''" "''theirs''" 2]
    by (auto simp: vput_def vhit_def entry_size_def SkipList_new_def)
  then obtain s' where s': "SkipList_put s (\<lambda>_. False) [] [] 2 = Some s'" "sl_abs s' committed_entries" "size_bytes s' = 23"
    using put_abs [of s "[(''k'', ''theirs'', 2)]" "\<lambda>_. False" "[]" "[]" 2]
    by (auto simp: vput_def vhit_def entry_size_def committed_entries_def)
  show "mem_abs committed_table committed_entries []" "SkipList_get_size (current_table committed_table) \<noteq> 0"
    using s s' by (simp_all add: committed_table_def mem_abs_def MemTable_new_def SkipList_get_size_def sl_put_def)
qed

lemma flush_keeps_first_committer_witness:
  "\<exists>c' y'. TranContext_commit two_level_engine (\<lambda>w rs. Some ())
       (fst (TranContext_put two_level_engine (TranContext_new 1 SERIALIZABLE) two_level_db ''k'' ''mine''))
       (two_level_db\<lparr>lsm := \<lparr>engine = (SkipList_new 16, committed_entries),
          tran_manager = report_flushed [2] \<lparr>nextTransactionId = 3, readyToFlushTrancIds = [(2, OP_COMMITTED)], flushedTrancIds = [0]\<rparr>\<rparr>\<rparr>) False =
     Some (Inr False, c', y')"
proof -
  let ?t = "\<lparr>nextTransactionId = 3, readyToFlushTrancIds = [(2, OP_COMMITTED)], flushedTrancIds = [0]\<rparr>"
  let ?y = "two_level_db\<lparr>lsm := \<lparr>engine = (SkipList_new 16, committed_entries), tran_manager = report_flushed [2] ?t\<rparr>\<rparr>"
  let ?c = "fst (TranContext_put two_level_engine (TranContext_new 1 SERIALIZABLE) two_level_db ''k'' ''mine'')"
  obtain m' where m': "flush_last list_builder [] [] committed_table = Some (Some committed_entries, [2], committed_entries, m')"
    using flush_last_abs [OF committed_table_abs(1), of list_builder "[]" "[]"] committed_table_abs(2)
    by (auto simp: list_builder_def committed_entries_def commit_ids_def)
  have c: "isolation_level ?c = SERIALIZABLE" "(''k'', ''mine'') \<in> set (temp_map ?c)" "tc_tranc_id ?c = 1"
    by (simp_all add: TranContext_put_def TranContext_new_def Let_def umap_put_def)
  have t: "tm_ok ?t" "settled ?t (flushed_list committed_entries [])"
    by (simp_all add: tm_ok_def settled_def flushed_list_def committed_entries_def)
  have g: "eng_sst_get two_level_engine (engine (lsm ?y)) ''k'' 0 = Some (''theirs'', 2)"
    by (simp add: two_level_engine_def table_lookup_def committed_entries_def)
  have "\<exists>c' y'. TranContext_commit two_level_engine (\<lambda>w rs. Some ()) ?c ?y False = Some (Inr False, c', y') \<and> isAborted c' \<and>
      engine (lsm y') = engine (lsm ?y) \<and> wal y' = wal ?y"
    by (rule flush_keeps_first_committer [OF committed_table_abs(1) _ m' t _ _ c(2) g])
       (use committed_table_abs(2) c in \<open>auto simp: flushed_list_def committed_entries_def\<close>)
  then show ?thesis by blast
qed

subsection \<open>The checkpoint\<close>

text \<open>What happens to the manager while the database runs: ids are drawn, fates and flushes are reported.\<close>

datatype tm_event = Drawn | Ready u64 TransactionState | Flushed u64

fun tm_run :: "tm_event list \<Rightarrow> TranManager \<Rightarrow> TranManager" where
  "tm_run [] t = t"
| "tm_run (Drawn # evs) t = tm_run evs (snd (getNextTransactionId t))"
| "tm_run (Ready i st # evs) t = tm_run evs (add_ready_to_flush_tranc_id t i st)"
| "tm_run (Flushed i # evs) t = tm_run evs (add_flushed_tranc_id t i)"

definition blocked_at :: "u64 \<Rightarrow> TranManager \<Rightarrow> bool" where
  "blocked_at i t \<longleftrightarrow> tm_ok t \<and> hd (flushedTrancIds t) < i \<and> i \<notin> set (flushedTrancIds t) \<and> i \<notin> fst ` set (readyToFlushTrancIds t)"

lemma set_map_put_keys: "fst ` set (map_put i st m) = insert i (fst ` set m)"
  by (induction i st m rule: map_put.induct) auto

lemma map_put_sorted: "sorted_wrt (<) (map fst m) \<Longrightarrow> sorted_wrt (<) (map fst (map_put i st m))"
proof (induction i st m rule: map_put.induct)
  case (2 k v k' v' m)
  have "fst ` set (map_put k v m) = insert k (fst ` set m)" by (rule set_map_put_keys)
  then have "\<forall>x\<in>fst ` set (map_put k v m). k' < x" if "k' < k" using that 2(2) by auto
  then show ?case using 2 by (auto intro: less_trans simp: image_iff)
qed simp

lemma blocked_flushed:
  assumes "blocked_at i t"
  shows "blocked_at i (add_flushed_tranc_id t j)"
proof -
  let ?r = "readyToFlushTrancIds t" and ?f = "flushedTrancIds t" and ?t = "add_flushed_tranc_id t j"
  have t: "sorted_wrt (<) (map fst ?r)" "sorted_wrt (<) ?f" "?f \<noteq> []" "tm_ok t" "hd ?f < i" "i \<notin> set ?f" "i \<notin> fst ` set ?r"
    using assms by (auto simp: blocked_at_def tm_ok_def)
  obtain fl rem where scan: "flushed_scan j ?r ?f [] = (fl, rem)" by (cases "flushed_scan j ?r ?f []")
  have fl: "set fl = set ?f \<union> moved j ?r" "set rem = moved j ?r" using flushed_scan_sets [OF t(1) scan] by auto
  have so: "sorted_wrt (<) fl" by (rule flushed_scan_sorted [OF t(2) scan])
  have i: "i \<notin> set fl" using t(6,7) fl(1) by (force simp: moved_def)
  obtain x xs where x: "fl = x # xs" using fl(1) t(3) by (cases fl) auto
  have "hd ?f \<in> set fl" using fl(1) t(3) by simp
  then have "x \<le> hd ?f" using so x by (auto intro: less_imp_le)
  then have xi: "x < i" using t(5) by simp
  obtain l rest where c: "compressSet (x # xs) = l # rest" "set (x # xs) = {x..l} \<union> set rest"
    using so unfolding x by (rule compressSet_split)
  have "l < i" using c(2) i xi x by (metis UnI1 atLeastAtMost_iff less_imp_le not_le)
  moreover have "i \<notin> set (l # rest)" using c(2) i x calculation by auto
  moreover have "fst ` set (readyToFlushTrancIds ?t) \<subseteq> fst ` set ?r"
    by (auto simp: add_flushed_tranc_id_def scan set_map_erase_all)
  ultimately show ?thesis using add_flushed_step(1) [OF t(4) refl, of j] t(7) c(1) x
    by (auto simp: blocked_at_def add_flushed_tranc_id_def scan)
qed

lemma blocked_run:
  assumes "blocked_at i t" "\<forall>st. Ready i st \<notin> set evs"
  shows "blocked_at i (tm_run evs t)"
  using assms
proof (induction evs t rule: tm_run.induct)
  case (2 evs t)
  then show ?case by (simp add: getNextTransactionId_def blocked_at_def tm_ok_def)
next
  case (3 j st evs t)
  then show ?case
    using map_put_sorted [of "readyToFlushTrancIds t" j st] set_map_put_keys [of j st "readyToFlushTrancIds t"]
    by (auto simp: blocked_at_def tm_ok_def add_ready_to_flush_tranc_id_def)
next
  case (4 j evs t)
  then show ?case using blocked_flushed by simp
qed simp

text \<open>
  Every call of \<^verbatim>\<open>LSM::get\<close> or \<^verbatim>\<open>LSM::put\<close> draws a transaction id that is never reported. From then on the checkpoint
  stays below this id, whatever transactions commit and are flushed.
\<close>

theorem direct_call_blocks_checkpoint:
  assumes "tm_ok (tran_manager s)" "i = nextTransactionId (tran_manager s)"
    and "\<forall>j\<in>set (flushedTrancIds (tran_manager s)) \<union> fst ` set (readyToFlushTrancIds (tran_manager s)). j < i"
    and "LSM_get E s k = (r, s')" "\<forall>st. Ready i st \<notin> set evs"
  shows "\<exists>c. get_checkpoint_tranc_id (tm_run evs (tran_manager s')) = Some c \<and> c < i"
proof -
  have "tran_manager s' = snd (getNextTransactionId (tran_manager s))"
    using assms(4) by (auto simp: LSM_get_def next_id_def getNextTransactionId_def)
  then have "blocked_at i (tran_manager s')" using assms(1-3)
    by (force simp: getNextTransactionId_def blocked_at_def tm_ok_def)
  then have "blocked_at i (tm_run evs (tran_manager s'))" using assms(5) by (rule blocked_run)
  then show ?thesis by (auto simp: blocked_at_def tm_ok_def get_checkpoint_tranc_id_def)
qed

text \<open>With a lookup before it, a committed and flushed transaction leaves the checkpoint at 0; without, the checkpoint moves on.\<close>

lemma direct_call_blocks_checkpoint_witness:
  "get_checkpoint_tranc_id (tm_run [Drawn, Ready 2 OP_COMMITTED, Flushed 2]
      (tran_manager (snd (LSM_get (skiplist_engine (\<lambda>_. False)) sl_db ''k'')))) = Some 0 \<and>
   get_checkpoint_tranc_id (tm_run [Drawn, Ready 1 OP_COMMITTED, Flushed 1] (tran_manager sl_db)) = Some 1"
proof
  obtain r s where g: "LSM_get (skiplist_engine (\<lambda>_. False)) sl_db ''k'' = (r, s)" by fastforce
  have t: "tm_ok (tran_manager sl_db)" "nextTransactionId (tran_manager sl_db) = 1"
    by (simp_all add: sl_db_def TranManager_new_def tm_ok_def)
  have "\<exists>c. get_checkpoint_tranc_id (tm_run [Drawn, Ready 2 OP_COMMITTED, Flushed 2] (tran_manager s)) = Some c \<and> c < 1"
    by (rule direct_call_blocks_checkpoint [OF t(1) t(2) [symmetric] _ g]) (simp_all add: sl_db_def TranManager_new_def)
  moreover have "c = 0" if "c < 1" for c :: u64 using that by (simp add: word_less_1)
  ultimately show "get_checkpoint_tranc_id (tm_run [Drawn, Ready 2 OP_COMMITTED, Flushed 2]
      (tran_manager (snd (LSM_get (skiplist_engine (\<lambda>_. False)) sl_db ''k'')))) = Some 0" using g by auto
  show "get_checkpoint_tranc_id (tm_run [Drawn, Ready 1 OP_COMMITTED, Flushed 1] (tran_manager sl_db)) = Some 1" by code_simp
qed

end
