(* ===== verification/Lsm_Iter.thy ===== *)
theory Lsm_Iter
  imports Sst_Iter
begin

text \<open>
  The iterator over the whole database with the iterators it is built from: the constructor of
  \<^verbatim>\<open>Level_Iterator\<close> fills its vector with a heap iterator for the memory table, a heap iterator for the
  tables of level 0, and a concatenating iterator for each deeper level. A \<^verbatim>\<open>BaseIterator\<close> pointer to one
  of the two kinds is a sum, and a virtual call a case distinction.
\<close>

definition sum_ops :: "'a BaseIterator \<Rightarrow> 'b BaseIterator \<Rightarrow> ('a + 'b) BaseIterator" where
  "sum_ops A B =
     \<lparr>it_is_end = case_sum (it_is_end A) (it_is_end B), it_is_valid = case_sum (it_is_valid A) (it_is_valid B),
      it_deref = case_sum (it_deref A) (it_deref B),
      it_next = case_sum (\<lambda>a. map_option Inl (it_next A a)) (\<lambda>b. map_option Inr (it_next B b)),
      it_tranc_id = case_sum (it_tranc_id A) (it_tranc_id B)\<rparr>"

locale iter_sum =
  a: base_iterator A good_a rest_a limit + b: base_iterator B good_b rest_b limit
  for A :: "'a BaseIterator" and good_a rest_a
    and B :: "'b BaseIterator" and good_b rest_b and limit

sublocale iter_sum \<subseteq> either: base_iterator "sum_ops A B" "case_sum good_a good_b" "case_sum rest_a rest_b" limit
proof unfold_locales
  fix i :: "'a + 'b" assume g: "case_sum good_a good_b i"
  show "it_is_end (sum_ops A B) i \<longleftrightarrow> case_sum rest_a rest_b i = []"
    "it_is_valid (sum_ops A B) i \<longleftrightarrow> case_sum rest_a rest_b i \<noteq> []"
    using g by (cases i; simp add: sum_ops_def)+
  show "it_tranc_id (sum_ops A B) i \<le> limit" if "limit \<noteq> 0"
    using g that a.visible b.visible by (cases i) (simp_all add: sum_ops_def)
  fix e es assume r: "case_sum rest_a rest_b i = e # es"
  show "it_deref (sum_ops A B) i = Some (fst e)" "it_tranc_id (sum_ops A B) i = snd e"
    using g r a.deref b.deref a.tranc b.tranc by (cases i; simp add: sum_ops_def)+
  show "\<exists>j. it_next (sum_ops A B) i = Some j \<and> case_sum good_a good_b j \<and> case_sum rest_a rest_b j = es"
  proof (cases i)
    case (Inl x)
    then show ?thesis using a.advance [of x e es] g r by (auto simp: sum_ops_def)
  next
    case (Inr x)
    then show ?thesis using b.advance [of x e es] g r by (auto simp: sum_ops_def)
  qed
qed

text \<open>The level iterator over any two kinds of iterators.\<close>

sublocale iter_sum \<subseteq> level: level_iterator "sum_ops A B" "case_sum good_a good_b" "case_sum rest_a rest_b" limit
  by unfold_locales

interpretation db: iter_sum heap_ops "heap_good lim" heap_rest "concact_ops R" "con_good R False lim" "con_rest R" lim
  for R lim
  by unfold_locales

subsection \<open>Level 0\<close>

text \<open>
  The loop over the tables of level 0. An entry newer than the reader is not taken; the transaction
  id stored with an entry is the one the table iterator reports. The second half of the loop
  condition, \<^verbatim>\<open>iter != sst->end()\<close>, is implied by the first.
\<close>

partial_function (option) l0_collect ::
    "sst_reader \<Rightarrow> u64 \<Rightarrow> nat \<Rightarrow> SstIterator \<Rightarrow> SearchItem list \<Rightarrow> SearchItem list option" where
  "l0_collect R max_id sid it item_vec =
     (if SstIterator_is_valid it
      then if max_id \<noteq> 0 \<and> max_id < SstIterator_get_tranc_id R it
           then do { it \<leftarrow> SstIterator_next R it; l0_collect R max_id sid it item_vec }
           else do { k \<leftarrow> SstIterator_key R it;
                     v \<leftarrow> SstIterator_value R it;
                     let item = \<lparr>si_key = k, si_value = v, si_tranc_id = SstIterator_get_tranc_id R it,
                                 si_idx = neg_id sid, si_level = 0\<rparr>;
                     it \<leftarrow> SstIterator_next R it;
                     l0_collect R max_id sid it (item_vec @ [item]) }
      else Some item_vec)"

fun l0_items :: "sst_reader \<Rightarrow> u64 \<Rightarrow> SST list \<Rightarrow> SearchItem list \<Rightarrow> SearchItem list option" where
  "l0_items R max_id [] item_vec = Some item_vec"
| "l0_items R max_id (s # ssts) item_vec =
     do { it \<leftarrow> sst_begin R s max_id False;
          item_vec \<leftarrow> l0_collect R max_id (sst_id s) it item_vec;
          l0_items R max_id ssts item_vec }"

fun level_iters :: "sst_reader \<Rightarrow> u64 \<Rightarrow> SST list list \<Rightarrow> ConcactIterator list option" where
  "level_iters R max_id [] = Some []"
| "level_iters R max_id (ssts # levels) =
     do { c \<leftarrow> ConcactIterator_new R ssts max_id False; cs \<leftarrow> level_iters R max_id levels; Some (c # cs) }"

text \<open>The whole constructor: the iterator of the memory table, the tables of level 0, and the tables of the deeper levels.\<close>

definition database_iterator ::
    "sst_reader \<Rightarrow> HeapIterator \<Rightarrow> SST list \<Rightarrow> SST list list \<Rightarrow> u64 \<Rightarrow> (HeapIterator + ConcactIterator) Level_Iterator option" where
  "database_iterator R mem_iter l0 levels max_id =
     do { item_vec \<leftarrow> l0_items R max_id l0 [];
          cs \<leftarrow> level_iters R max_id levels;
          Level_Iterator_new (sum_ops heap_ops (concact_ops R))
            (Inl mem_iter # Inl (HeapIterator_new item_vec max_id True False) # map Inr cs) max_id }"

subsection \<open>Properties\<close>

lemma level_iters_correct:
  assumes "opens_at_first R" "\<forall>ssts\<in>set levels. \<forall>s\<in>set ssts. table_ok R False lim s"
  shows "\<exists>cs. level_iters R lim levels = Some cs \<and> (\<forall>c\<in>set cs. con_good R False lim c) \<and>
    map (con_rest R) cs = map (\<lambda>ssts. concat (map (sst_entries R False lim) ssts)) levels"
  using assms(2)
proof (induction levels)
  case (Cons ssts levels)
  then show ?case using concact_new_correct [OF assms(1), of ssts False lim] by fastforce
qed simp

lemma sst_entries_reported: "e \<in> set (sst_entries R False lim s) \<Longrightarrow> snd e = lim"
  by (auto simp: sst_entries_def si_present_def)

lemma heap_rest_reported: "heap_good m it \<Longrightarrow> e \<in> set (heap_rest it) \<Longrightarrow> snd e = m"
  by (auto simp: heap_rest_def heap_good_def)



text \<open>
  The heap iterators of the memory table and of level 0 drop deletion marks themselves, so the marks
  never reach the level iterator: a key deleted in level 0 is delivered again with the value a deeper
  level still has.
\<close>

declare l0_collect.simps [code] li_settle.simps [code] skip_key_one.simps [code]

lemma deleted_key_resurfaces:
  defines "R0 \<equiv> (sample_sst_reader [((''k'', []), 7), ((''k'', ''old''), 1)])
      \<lparr>read_block := (\<lambda>s i. Some \<lparr>blk_data = [], offsets = [of_nat (sst_id s)], blk_capacity = 0\<rparr>)\<rparr>"
  defines "R \<equiv> R0\<lparr>sst_begin := (\<lambda>s. SstIterator_new R0 (Some s))\<rparr>"
  shows "case database_iterator R (HeapIterator_new [] 9 True False) [sample_sst 0 1] [[sample_sst 1 1]] 9 of
      None \<Rightarrow> False
    | Some l \<Rightarrow> Level_Iterator_deref l = Some (''k'', ''old'')"
  unfolding R_def R0_def by code_simp

end
