(* ===== verification/Sst_Range.thy ===== *)
theory Sst_Range
  imports Sst_Iter
begin

text \<open>
  The range of a monotone predicate in a table, \<^verbatim>\<open>sst_iters_monotony_predicate\<close> of
  \<^verbatim>\<open>src/sst/sst_iterator.cpp\<close>: a scan of the block index that leaves out the blocks whose first and last
  keys show that they have nothing in the range, and asks the others. The search inside a block,
  \<^verbatim>\<open>Block::get_monotony_predicate_iters\<close>, has no body in the repository and is the parameter \<open>rng\<close>;
  \<open>block_range\<close> is what its comment describes. A predicate is positive left of the range, zero in it and
  negative right of it.

  Equality of iterators compares the blocks by identity; blocks are values here, and a position
  of a table is one block.
\<close>

type_synonym block_search = "Block \<Rightarrow> u64 \<Rightarrow> (string \<Rightarrow> int) \<Rightarrow> (BlockIterator \<times> BlockIterator) option"

definition set_block_idx :: "nat \<Rightarrow> SstIterator \<Rightarrow> SstIterator" where
  "set_block_idx idx it = it\<lparr>m_block_idx := idx\<rparr>"

definition set_block_it :: "BlockIterator option \<Rightarrow> SstIterator \<Rightarrow> SstIterator" where
  "set_block_it bi it = it\<lparr>m_block_it := bi\<rparr>"

definition BlockIterator_eq :: "BlockIterator \<Rightarrow> BlockIterator \<Rightarrow> bool" where
  "BlockIterator_eq a b =
     (case (bi_block a, bi_block b) of
        (None, None) \<Rightarrow> True
      | (Some x, Some y) \<Rightarrow> x = y \<and> current_index a = current_index b
      | _ \<Rightarrow> False)"

definition SstIterator_eq :: "SstIterator \<Rightarrow> SstIterator \<Rightarrow> bool" where
  "SstIterator_eq a b =
     (if m_sst a \<noteq> m_sst b \<or> m_block_idx a \<noteq> m_block_idx b then False
      else case (m_block_it a, m_block_it b) of
             (None, None) \<Rightarrow> True
           | (Some x, Some y) \<Rightarrow> BlockIterator_eq x y
           | _ \<Rightarrow> False)"

text \<open>The loop over the block index, from block \<open>i\<close>, with the two results found so far.\<close>

fun range_loop ::
    "sst_reader \<Rightarrow> block_search \<Rightarrow> SST \<Rightarrow> u64 \<Rightarrow> (string \<Rightarrow> int) \<Rightarrow> nat \<Rightarrow> BlockMeta list \<Rightarrow>
     SstIterator option \<Rightarrow> SstIterator option \<Rightarrow> (SstIterator option \<times> SstIterator option) option" where
  "range_loop R rng s tranc_id predicate i [] final_begin final_end = Some (final_begin, final_end)"
| "range_loop R rng s tranc_id predicate i (meta_i # ms) final_begin final_end =
     (if predicate (bm_first_key meta_i) < 0 then Some (final_begin, final_end)
      else if 0 < predicate (bm_last_key meta_i)
      then range_loop R rng s tranc_id predicate (Suc i) ms final_begin final_end
      else do {
        block \<leftarrow> read_block R s i;
        case rng block tranc_id predicate of
          None \<Rightarrow> range_loop R rng s tranc_id predicate (Suc i) ms final_begin final_end
        | Some (i_begin, i_end) \<Rightarrow> do {
            final_begin \<leftarrow>
              (if final_begin = None
               then do { it \<leftarrow> SstIterator_new R (Some s) tranc_id False;
                         Some (Some (set_block_it (Some i_begin) (set_block_idx i it))) }
               else Some final_begin);
            it \<leftarrow> SstIterator_new R (Some s) tranc_id False;
            let it = set_block_it (Some i_end) (set_block_idx i it);
            let it = (if SstIterator_is_end it \<and> m_block_idx it = num_blocks s then set_block_it None it else it);
            range_loop R rng s tranc_id predicate (Suc i) ms final_begin (Some it) } })"

definition sst_iters_monotony_predicate ::
    "sst_reader \<Rightarrow> block_search \<Rightarrow> SST \<Rightarrow> u64 \<Rightarrow> (string \<Rightarrow> int) \<Rightarrow> (SstIterator \<times> SstIterator) option option" where
  "sst_iters_monotony_predicate R rng s tranc_id predicate =
     do { (final_begin, final_end) \<leftarrow> range_loop R rng s tranc_id predicate 0 (sst_meta_entries s) None None;
          Some (case (final_begin, final_end) of (Some b, Some e) \<Rightarrow> Some (b, e) | _ \<Rightarrow> None) }"

subsection \<open>Reference\<close>

text \<open>Asking every block, and the iterator that points into block \<open>i\<close>.\<close>

definition range_hits ::
    "sst_reader \<Rightarrow> block_search \<Rightarrow> SST \<Rightarrow> u64 \<Rightarrow> (string \<Rightarrow> int) \<Rightarrow> nat \<Rightarrow> (nat \<times> BlockIterator \<times> BlockIterator) list" where
  "range_hits R rng s lim p i =
     concat (map (\<lambda>j. case read_block R s j of
                        None \<Rightarrow> []
                      | Some b \<Rightarrow> (case rng b lim p of None \<Rightarrow> [] | Some r \<Rightarrow> [(j, r)])) [i..<num_blocks s])"

definition sst_iter_at :: "SST \<Rightarrow> u64 \<Rightarrow> nat \<Rightarrow> BlockIterator \<Rightarrow> SstIterator" where
  "sst_iter_at s lim i bi =
     \<lparr>m_sst = Some s, m_block_idx = i, si_max_tranc_id = lim, m_block_it = Some bi, si_cached_value = None,
      si_keep_all_versions = False\<rparr>"

definition range_of_hits ::
    "SST \<Rightarrow> u64 \<Rightarrow> (nat \<times> BlockIterator \<times> BlockIterator) list \<Rightarrow> (SstIterator \<times> SstIterator) option" where
  "range_of_hits s lim hits =
     (if hits = [] then None
      else Some (sst_iter_at s lim (fst (hd hits)) (fst (snd (hd hits))),
                 sst_iter_at s lim (fst (last hits)) (snd (snd (last hits)))))"

text \<open>A predicate that is monotone along the keys.\<close>

definition monotone_predicate :: "(string \<Rightarrow> int) \<Rightarrow> bool" where
  "monotone_predicate p \<longleftrightarrow> (\<forall>k k'. k \<le> k' \<longrightarrow> (p k < 0 \<longrightarrow> p k' < 0) \<and> (0 < p k' \<longrightarrow> 0 < p k))"

text \<open>
  A table with its index: every block can be read, the first keys are in order, and a block whose search
  succeeds has a key of the range between its first and last key.
\<close>

definition index_ok :: "sst_reader \<Rightarrow> block_search \<Rightarrow> SST \<Rightarrow> u64 \<Rightarrow> (string \<Rightarrow> int) \<Rightarrow> bool" where
  "index_ok R rng s lim p \<longleftrightarrow>
     sorted (map bm_first_key (sst_meta_entries s)) \<and>
     (\<forall>i<num_blocks s. \<exists>b. read_block R s i = Some b \<and>
        (rng b lim p \<noteq> None \<longrightarrow>
           (\<exists>k. p k = 0 \<and> bm_first_key (sst_meta_entries s ! i) \<le> k \<and> k \<le> bm_last_key (sst_meta_entries s ! i))))"

lemma range_hits_step:
  "i < num_blocks s \<Longrightarrow> read_block R s i = Some b \<Longrightarrow>
   range_hits R rng s lim p i = (case rng b lim p of None \<Rightarrow> [] | Some r \<Rightarrow> [(i, r)]) @ range_hits R rng s lim p (Suc i)"
  by (simp add: range_hits_def upt_conv_Cons)

lemma range_hits_end: "num_blocks s \<le> i \<Longrightarrow> range_hits R rng s lim p i = []"
  by (simp add: range_hits_def)

lemma new_iterator:
  assumes "index_ok R rng s lim p" "0 < num_blocks s"
  shows "\<exists>it. SstIterator_new R (Some s) lim False = Some it \<and>
    (\<forall>i bi. set_block_it (Some bi) (set_block_idx i it) = sst_iter_at s lim i bi)"
proof -
  obtain b where b: "read_block R s 0 = Some b" using assms by (auto simp: index_ok_def)
  obtain bi0 where "BlockIterator_new (blk_reader R) (Some b) 0 lim False = Some bi0"
    using block_new_correct [of "blk_reader R" b lim False] by auto
  then show ?thesis using assms(2) b
    by (simp add: SstIterator_new_def seek_first_def si_init_def set_block_it_def set_block_idx_def sst_iter_at_def)
qed

lemma no_hit_left:
  assumes "index_ok R rng s lim p" "monotone_predicate p" "i < num_blocks s" "read_block R s i = Some b"
    "0 < p (bm_last_key (sst_meta_entries s ! i))"
  shows "rng b lim p = None"
proof (rule ccontr)
  assume "rng b lim p \<noteq> None"
  then obtain k where "p k = 0" "k \<le> bm_last_key (sst_meta_entries s ! i)"
    using assms(1,3,4) by (force simp: index_ok_def)
  with assms(2,5) show False unfolding monotone_predicate_def by force
qed

lemma no_hits_right:
  assumes "index_ok R rng s lim p" "monotone_predicate p" "p (bm_first_key (sst_meta_entries s ! i)) < 0"
  shows "range_hits R rng s lim p i = []"
proof -
  have "rng b lim p = None" if j: "i \<le> j" "j < num_blocks s" "read_block R s j = Some b" for j b
  proof (rule ccontr)
    assume "rng b lim p \<noteq> None"
    then obtain k where k: "p k = 0" "bm_first_key (sst_meta_entries s ! j) \<le> k"
      using assms(1) j by (force simp: index_ok_def)
    have "bm_first_key (sst_meta_entries s ! i) \<le> bm_first_key (sst_meta_entries s ! j)"
      using assms(1) j sorted_nth_mono [of "map bm_first_key (sst_meta_entries s)" i j]
      by (simp add: index_ok_def num_blocks_def)
    then have "bm_first_key (sst_meta_entries s ! i) \<le> k" using k(2) by (rule order_trans)
    with assms(2,3) have "p k < 0" unfolding monotone_predicate_def by blast
    with k(1) show False by simp
  qed
  then show ?thesis by (auto simp: range_hits_def split: option.splits)
qed

text \<open>The two results after the hits \<open>h\<close>.\<close>

definition first_hit :: "SST \<Rightarrow> u64 \<Rightarrow> (nat \<times> BlockIterator \<times> BlockIterator) list \<Rightarrow> SstIterator option" where
  "first_hit s lim h = (if h = [] then None else Some (sst_iter_at s lim (fst (hd h)) (fst (snd (hd h)))))"

definition last_hit :: "SST \<Rightarrow> u64 \<Rightarrow> (nat \<times> BlockIterator \<times> BlockIterator) list \<Rightarrow> SstIterator option" where
  "last_hit s lim h = (if h = [] then None else Some (sst_iter_at s lim (fst (last h)) (snd (snd (last h)))))"

lemma range_loop_correct:
  assumes ok: "index_ok R rng s lim p" and mono: "monotone_predicate p"
  shows "ms = drop i (sst_meta_entries s) \<Longrightarrow>
    range_loop R rng s lim p i ms (first_hit s lim h) (last_hit s lim h) =
    Some (first_hit s lim (h @ range_hits R rng s lim p i), last_hit s lim (h @ range_hits R rng s lim p i))"
proof (induction ms arbitrary: i h)
  case Nil
  then show ?case by (simp add: range_hits_end num_blocks_def)
next
  case (Cons meta ms)
  have i: "i < num_blocks s" using Cons.prems unfolding num_blocks_def
    by (metis drop_eq_Nil2 list.distinct(1) not_le)
  have meta: "meta = sst_meta_entries s ! i" "ms = drop (Suc i) (sst_meta_entries s)"
    using Cons.prems i by (auto simp: num_blocks_def Cons_nth_drop_Suc [symmetric])
  obtain b where b: "read_block R s i = Some b" using ok i by (auto simp: index_ok_def)
  note step = range_hits_step [OF i b, of rng lim p]
  show ?case
  proof (cases "p (bm_first_key meta) < 0")
    case True
    then show ?thesis using no_hits_right [OF ok mono, of i] meta(1) by simp
  next
    case first: False
    show ?thesis
    proof (cases "0 < p (bm_last_key meta)")
      case True
      then have "rng b lim p = None" using no_hit_left [OF ok mono i b] meta(1) by simp
      then show ?thesis using True first Cons.IH [OF meta(2), of h] step by simp
    next
      case False
      show ?thesis
      proof (cases "rng b lim p")
        case None
        then show ?thesis using False first b Cons.IH [OF meta(2), of h] step by simp
      next
        case (Some r)
        obtain b1 e1 where r: "r = (b1, e1)" by (cases r)
        obtain it where it: "SstIterator_new R (Some s) lim False = Some it"
          "\<And>bi. set_block_it (Some bi) (set_block_idx i it) = sst_iter_at s lim i bi"
          using new_iterator [OF ok] i by fastforce
        have "first_hit s lim (h @ [(i, b1, e1)]) =
            Some (if h = [] then sst_iter_at s lim i b1 else the (first_hit s lim h))"
          "last_hit s lim (h @ [(i, b1, e1)]) = Some (sst_iter_at s lim i e1)"
          by (simp_all add: first_hit_def last_hit_def)
        moreover have "first_hit s lim h = None \<longleftrightarrow> h = []" by (simp add: first_hit_def)
        moreover have "SstIterator_is_end (sst_iter_at s lim i e1) \<longleftrightarrow> False"
          by (simp add: SstIterator_is_end_def sst_iter_at_def)
        ultimately show ?thesis
          using Some r False first b it i Cons.IH [OF meta(2), of "h @ [(i, b1, e1)]"] step
          by (auto simp: Let_def)
      qed
    qed
  qed
qed

text \<open>
  C15: leaving out the blocks that the index excludes does not change the result: the range begins where the
  search of the first block with a key in it begins, and ends where that of the last such block ends.
\<close>

theorem sst_range_correct:
  assumes "index_ok R rng s lim p" "monotone_predicate p"
  shows "sst_iters_monotony_predicate R rng s lim p = Some (range_of_hits s lim (range_hits R rng s lim p 0))"
  using range_loop_correct [OF assms, of "sst_meta_entries s" 0 "[]"]
  by (auto simp: sst_iters_monotony_predicate_def first_hit_def last_hit_def range_of_hits_def)

subsection \<open>An example\<close>

text \<open>The search in a block as its comment describes it: from the first key of the range to behind the last.\<close>

definition block_range :: "block_reader \<Rightarrow> block_search" where
  "block_range B b lim p =
     (let keys = map ientry_key (block_entries B b);
          l = length (takeWhile (\<lambda>k. 0 < p k) keys);
          n = length (takeWhile (\<lambda>k. p k = 0) (drop l keys))
      in if n = 0 then None
         else do { i_begin \<leftarrow> BlockIterator_new B (Some b) l lim False;
                   i_end \<leftarrow> BlockIterator_new B (Some b) (l + n) lim False;
                   Some (i_begin, i_end) })"

text \<open>Two blocks with the keys a, b and c, d.\<close>

definition range_sst :: SST where
  "range_sst = (sample_sst 1 2)\<lparr>sst_meta_entries :=
     [\<lparr>bm_offset = 0, bm_first_key = ''a'', bm_last_key = ''b''\<rparr>, \<lparr>bm_offset = 0, bm_first_key = ''c'', bm_last_key = ''d''\<rparr>]\<rparr>"

definition range_reader :: sst_reader where
  "range_reader = (sample_sst_reader [((''a'', ''1''), 1), ((''b'', ''2''), 1), ((''c'', ''3''), 1), ((''d'', ''4''), 1)])
     \<lparr>read_block := (\<lambda>s i. Some \<lparr>blk_data = [], offsets = [of_nat (2 * i), of_nat (2 * i + 1)], blk_capacity = 0\<rparr>)\<rparr>"

definition key_cmp :: "string \<Rightarrow> string \<Rightarrow> string \<Rightarrow> int" where
  "key_cmp lo hi k = (if k < lo then 1 else if hi < k then - 1 else 0)"

lemma key_cmp_monotone: "lo \<le> hi \<Longrightarrow> monotone_predicate (key_cmp lo hi)"
  by (auto simp: monotone_predicate_def key_cmp_def)

theorem sst_range_correct_witness:
  "sst_iters_monotony_predicate range_reader (block_range (blk_reader range_reader)) range_sst 5 (key_cmp ''b'' ''c'') =
    Some (range_of_hits range_sst 5 (range_hits range_reader (block_range (blk_reader range_reader)) range_sst 5 (key_cmp ''b'' ''c'') 0))"
proof (rule sst_range_correct [OF _ key_cmp_monotone])
  show "index_ok range_reader (block_range (blk_reader range_reader)) range_sst 5 (key_cmp ''b'' ''c'')"
  proof -
    have "\<exists>k. key_cmp ''b'' ''c'' k = 0 \<and> bm_first_key (sst_meta_entries range_sst ! i) \<le> k \<and>
        k \<le> bm_last_key (sst_meta_entries range_sst ! i)" if "i < num_blocks range_sst" for i
      using that by (intro exI [of _ "[''b'', ''c''] ! i"])
        (auto simp: range_sst_def num_blocks_def less_Suc_eq key_cmp_def numeral_2_eq_2)
    moreover have "sorted (map bm_first_key (sst_meta_entries range_sst))" by (simp add: range_sst_def)
    moreover have "\<exists>b. read_block range_reader range_sst i = Some b" for i by (simp add: range_reader_def)
    ultimately show ?thesis unfolding index_ok_def by blast
  qed
qed simp

text \<open>
  A range that ends with a block: the end iterator stands at the end of that block, where an iterator that
  advances never is, because it enters the next block. The loop from begin to end passes the end of the
  range and delivers the keys behind it.
\<close>

lemma sst_range_end_missed:
  "(case sst_iters_monotony_predicate range_reader (block_range (blk_reader range_reader)) range_sst 5 (key_cmp ''a'' ''b'') of
      Some (Some (b, e)) \<Rightarrow>
        (case Option.bind (SstIterator_next range_reader b) (SstIterator_next range_reader) of
           Some it \<Rightarrow> \<not> SstIterator_eq it e \<and> SstIterator_deref range_reader it = Some (''c'', ''3'')
         | None \<Rightarrow> False)
    | _ \<Rightarrow> False)"
  by code_simp

end
