(* ===== verification/Iter_Compare.thy ===== *)
theory Iter_Compare
  imports Lsm_Iter Sst_Range Skip_List_Correct
begin

text \<open>
  The operators of the iterators that a caller uses in \<^verbatim>\<open>for (; it != end; ++it) it->first\<close>: \<^verbatim>\<open>operator==\<close>,
  \<^verbatim>\<open>operator!=\<close>, \<^verbatim>\<open>operator->\<close> and \<^verbatim>\<open>get_type\<close>. The other side of a comparison is a reference to a
  \<^verbatim>\<open>BaseIterator\<close>; its dynamic type is the constructor of \<open>any_iterator\<close>. The merging iterators compare the addresses of
  the iterators they own, which are given beside them.
\<close>

datatype IteratorType = SkipListIterator_type | MemTableIterator_type | SstIterator_type | HeapIterator_type
  | TwoMergeIterator_type | ConcactIterator_type | LevelIterator_type

type_synonym addresses = "nat option \<times> nat option"

datatype ('a, 'b, 'l) any_iterator = Any_SkipList SkipListIterator | Any_Sst SstIterator | Any_Heap HeapIterator
  | Any_TwoMerge addresses "('a, 'b) TwoMergeIterator" | Any_Concact ConcactIterator | Any_Level "'l Level_Iterator"

fun get_type :: "('a, 'b, 'l) any_iterator \<Rightarrow> IteratorType" where
  "get_type (Any_SkipList _) = SkipListIterator_type"
| "get_type (Any_Sst _) = SstIterator_type"
| "get_type (Any_Heap _) = HeapIterator_type"
| "get_type (Any_TwoMerge _ _) = TwoMergeIterator_type"
| "get_type (Any_Concact _) = ConcactIterator_type"
| "get_type (Any_Level _) = LevelIterator_type"

subsection \<open>Equality\<close>

definition SkipListIterator_eq :: "SkipListIterator \<Rightarrow> SkipListIterator \<Rightarrow> bool" where
  "SkipListIterator_eq a b \<longleftrightarrow> a = b"

definition TwoMergeIterator_eq ::
    "'a BaseIterator \<Rightarrow> 'b BaseIterator \<Rightarrow> addresses \<Rightarrow> ('a, 'b) TwoMergeIterator \<Rightarrow> addresses \<Rightarrow> ('a, 'b) TwoMergeIterator \<Rightarrow> bool" where
  "TwoMergeIterator_eq A B p m p' m' =
     (if TwoMergeIterator_is_end A B m \<and> TwoMergeIterator_is_end A B m' then True
      else if TwoMergeIterator_is_end A B m \<or> TwoMergeIterator_is_end A B m' then False
      else fst p = fst p' \<and> snd p = snd p' \<and> choose_a m = choose_a m')"

definition ConcactIterator_eq :: "ConcactIterator \<Rightarrow> ConcactIterator \<Rightarrow> bool" where
  "ConcactIterator_eq a b = SstIterator_eq (con_cur_iter b) (con_cur_iter a)"

definition Level_Iterator_eq :: "'i BaseIterator \<Rightarrow> 'i Level_Iterator \<Rightarrow> 'i Level_Iterator \<Rightarrow> bool option" where
  "Level_Iterator_eq I a b =
     (if Level_Iterator_is_valid I b \<and> Level_Iterator_is_valid I a
      then do { (key, value) \<leftarrow> Level_Iterator_deref b;
                (key', value') \<leftarrow> li_cached_value a;
                Some (key = key' \<and> value = value') }
      else if \<not> Level_Iterator_is_valid I b \<and> \<not> Level_Iterator_is_valid I a then Some True
      else Some False)"

text \<open>The virtual operator: iterators of different types are not equal; a failed dereference is \<^const>\<open>None\<close>.\<close>

fun any_eq :: "'a BaseIterator \<Rightarrow> 'b BaseIterator \<Rightarrow> 'l BaseIterator \<Rightarrow> ('a, 'b, 'l) any_iterator \<Rightarrow> ('a, 'b, 'l) any_iterator \<Rightarrow> bool option" where
  "any_eq A B I (Any_SkipList a) other = (case other of Any_SkipList b \<Rightarrow> Some (SkipListIterator_eq a b) | _ \<Rightarrow> Some False)"
| "any_eq A B I (Any_Sst a) other = (case other of Any_Sst b \<Rightarrow> Some (SstIterator_eq a b) | _ \<Rightarrow> Some False)"
| "any_eq A B I (Any_Heap a) other = (case other of Any_Heap b \<Rightarrow> Some (HeapIterator_eq a b) | _ \<Rightarrow> Some False)"
| "any_eq A B I (Any_TwoMerge p a) other =
     (case other of Any_TwoMerge p' b \<Rightarrow> Some (TwoMergeIterator_eq A B p a p' b) | _ \<Rightarrow> Some False)"
| "any_eq A B I (Any_Concact a) other = (case other of Any_Concact b \<Rightarrow> Some (ConcactIterator_eq a b) | _ \<Rightarrow> Some False)"
| "any_eq A B I (Any_Level a) other = (case other of Any_Level b \<Rightarrow> Level_Iterator_eq I a b | _ \<Rightarrow> Some False)"

definition any_ne :: "'a BaseIterator \<Rightarrow> 'b BaseIterator \<Rightarrow> 'l BaseIterator \<Rightarrow> ('a, 'b, 'l) any_iterator \<Rightarrow> ('a, 'b, 'l) any_iterator \<Rightarrow> bool option" where
  "any_ne A B I a b = map_option Not (any_eq A B I a b)"

lemma any_eq_type: "get_type a \<noteq> get_type b \<Longrightarrow> any_eq A B I a b = Some False"
  by (cases a; cases b) auto

subsection \<open>Access to the current pair\<close>

text \<open>Each fills a member with a copy of the current pair and points to it; the heap iterator's is null at the end.\<close>

definition HeapIterator_arrow :: "HeapIterator \<Rightarrow> (string \<times> string) option" where
  "HeapIterator_arrow it = (case items it of [] \<Rightarrow> None | x # _ \<Rightarrow> Some (si_key x, si_value x))"

definition TwoMergeIterator_arrow :: "'a BaseIterator \<Rightarrow> 'b BaseIterator \<Rightarrow> ('a, 'b) TwoMergeIterator \<Rightarrow> (string \<times> string) option" where
  "TwoMergeIterator_arrow A B m =
     (if choose_a m then do { a \<leftarrow> it_a m; it_deref A a } else do { b \<leftarrow> it_b m; it_deref B b })"

definition Level_Iterator_arrow :: "'i BaseIterator \<Rightarrow> 'i Level_Iterator \<Rightarrow> ((string \<times> string) \<times> 'i Level_Iterator) option" where
  "Level_Iterator_arrow I l = do { l \<leftarrow> li_update_current I l; kv \<leftarrow> li_cached_value l; Some (kv, l) }"

definition ConcactIterator_arrow :: "sst_reader \<Rightarrow> ConcactIterator \<Rightarrow> ((string \<times> string) \<times> ConcactIterator) option" where
  "ConcactIterator_arrow R c =
     do { (kv, it) \<leftarrow> SstIterator_arrow R (con_cur_iter c); Some (kv, c\<lparr>con_cur_iter := it\<rparr>) }"

definition ConcactIterator_key :: "sst_reader \<Rightarrow> ConcactIterator \<Rightarrow> string option" where
  "ConcactIterator_key R c = SstIterator_key R (con_cur_iter c)"

definition ConcactIterator_value :: "sst_reader \<Rightarrow> ConcactIterator \<Rightarrow> string option" where
  "ConcactIterator_value R c = SstIterator_value R (con_cur_iter c)"

subsection \<open>Default iterators\<close>

definition HeapIterator_default :: "bool \<Rightarrow> bool \<Rightarrow> HeapIterator" where
  "HeapIterator_default skip keep = \<lparr>items = [], max_tranc_id = 0, skip_delete = skip, keep_all_versions = keep\<rparr>"

definition Level_Iterator_default :: "'i Level_Iterator" where
  "Level_Iterator_default = \<lparr>iter_vec = [], li_cur_idx = 0, li_max_tranc_id = 0, li_cached_value = None\<rparr>"

subsection \<open>Loops up to an end iterator\<close>

text \<open>\<^verbatim>\<open>for (; it != stop; ++it)\<close>\<close>

partial_function (option) iterate_until :: "('i \<Rightarrow> 'i \<Rightarrow> bool option) \<Rightarrow> ('i, 'z) BaseIterator_scheme \<Rightarrow> 'i \<Rightarrow> 'i \<Rightarrow> iter_entry list option" where
  "iterate_until eq I stop i =
     do { e \<leftarrow> eq i stop;
          if e then Some []
          else do { kv \<leftarrow> it_deref I i;
                    j \<leftarrow> it_next I i;
                    es \<leftarrow> iterate_until eq I stop j;
                    Some ((kv, it_tranc_id I i) # es) } }"

text \<open>An iterator that equals \<open>stop\<close> exactly when it has nothing left.\<close>

locale end_iterator = base_iterator I good rest limit
  for I :: "'i BaseIterator" and good rest limit +
  fixes eq :: "'i \<Rightarrow> 'i \<Rightarrow> bool option" and stop :: 'i
  assumes eq_stop: "good i \<Longrightarrow> eq i stop = Some (rest i = [])"
begin

lemma iterate_until_rest: "good i \<Longrightarrow> iterate_until eq I stop i = Some (rest i)"
proof (induction "rest i" arbitrary: i)
  case Nil
  then show ?case using eq_stop [of i] by (subst iterate_until.simps) simp
next
  case (Cons e es)
  then obtain j where "it_next I i = Some j" "good j" "rest j = es" using advance [of i e es] by auto
  with Cons deref [of i e es] tranc [of i e es] eq_stop [of i] show ?case
    by (subst iterate_until.simps) (simp add: Cons.hyps(2) [symmetric])
qed

lemma until_agrees: "good i \<Longrightarrow> iterate_until eq I stop i = iterate I i"
  by (simp add: iterate_until_rest iterate_rest)

end

interpretation heap_end: end_iterator heap_ops "heap_good m" heap_rest m "\<lambda>a b. Some (HeapIterator_eq a b)" "HeapIterator_default skip keep"
  for m skip keep
proof unfold_locales
  fix i assume g: "heap_good m i"
  have "HeapIterator_eq i (HeapIterator_default skip keep) \<longleftrightarrow> HeapIterator_is_end i"
    by (auto simp: HeapIterator_eq_def HeapIterator_default_def HeapIterator_is_end_def split: list.splits)
  then show "Some (HeapIterator_eq i (HeapIterator_default skip keep)) = Some (heap_rest i = [])"
    using heap.is_end [OF g] by (simp add: heap_ops_def)
qed

sublocale level_iterator \<subseteq> li_end: end_iterator "level_ops I" "li_good good rest limit" "li_rest rest" limit
    "Level_Iterator_eq I" Level_Iterator_default
proof unfold_locales
  fix l assume g: "li_good good rest limit l"
  have "\<not> Level_Iterator_is_valid I Level_Iterator_default"
    by (simp add: Level_Iterator_is_valid_def Level_Iterator_is_end_def Level_Iterator_default_def)
  then show "Level_Iterator_eq I l Level_Iterator_default = Some (li_rest rest l = [])"
    using li.is_valid [OF g] by (simp add: Level_Iterator_eq_def level_ops_def)
qed

sublocale two_merge \<subseteq> tm_end: end_iterator "two_merge_ops A B" "tm_good good_a rest_a good_b rest_b limit keep"
    "tm_rest rest_a rest_b" limit "\<lambda>m m'. Some (TwoMergeIterator_eq A B p m p' m')" TwoMergeIterator_end for p p'
proof unfold_locales
  fix m assume g: "tm_good good_a rest_a good_b rest_b limit keep m"
  have "TwoMergeIterator_is_end A B TwoMergeIterator_end" by (simp add: TwoMergeIterator_is_end_def TwoMergeIterator_end_def)
  then show "Some (TwoMergeIterator_eq A B p m p' TwoMergeIterator_end) = Some (tm_rest rest_a rest_b m = [])"
    using tm.is_end [OF g] by (simp add: TwoMergeIterator_eq_def two_merge_ops_def)
qed

text \<open>
  The concatenating iterator. \<open>con_closed\<close>: once it is at its end, its table iterator is the empty one that the
  constructor without tables makes.
\<close>

definition con_closed :: "ConcactIterator \<Rightarrow> bool" where
  "con_closed c \<longleftrightarrow> (m_block_it (con_cur_iter c) = None \<longrightarrow> m_sst (con_cur_iter c) = None \<and> m_block_idx (con_cur_iter c) = 0)"

lemma opened_not_end:
  assumes "opens_at_first R" "table_ok R keep lim s" "sst_begin R s lim keep = Some it"
  shows "m_block_it it \<noteq> None"
proof -
  obtain it' where "SstIterator_new R (Some s) lim keep = Some it'" "si_rest R it' \<noteq> []"
    using sst_new_correct [OF assms(2)] by blast
  then show ?thesis using assms(1,3) by (cases "m_block_it it") (simp_all add: opens_at_first_def si_rest_def)
qed

lemma con_closed_new:
  assumes "opens_at_first R" "\<forall>s\<in>set ssts. table_ok R keep lim s" "ConcactIterator_new R ssts lim keep = Some c"
  shows "con_closed c"
proof (cases ssts)
  case Nil
  then show ?thesis using assms(3) by (auto simp: ConcactIterator_new_def con_closed_def si_init_def)
next
  case (Cons s ss)
  then obtain it where "sst_begin R s lim keep = Some it" "con_cur_iter c = it"
    using assms(3) by (auto simp: ConcactIterator_new_def bind_Some_conv)
  then show ?thesis using opened_not_end [OF assms(1), of keep lim s it] assms(2) Cons by (auto simp: con_closed_def)
qed

lemma con_closed_next:
  assumes "con_good R keep lim c" "ConcactIterator_next R c = Some j"
  shows "con_closed j"
proof -
  have o: "opens_at_first R" "\<forall>s\<in>set (con_ssts c). table_ok R keep lim s" "con_max_tranc_id c = lim" "con_keep_all_versions c = keep"
    using assms(1) by (auto simp: con_good_def)
  obtain it where it: "SstIterator_next R (con_cur_iter c) = Some it" using assms(2) by (auto simp: ConcactIterator_next_def bind_Some_conv)
  let ?i = "Suc (con_cur_idx c)"
  show ?thesis
  proof (cases "SstIterator_is_end it \<or> \<not> SstIterator_is_valid it")
    case True
    show ?thesis
    proof (cases "?i < length (con_ssts c)")
      case i: True
      then obtain it' where it': "sst_begin R (con_ssts c ! ?i) lim keep = Some it'" "con_cur_iter j = it'"
        using assms(2) it True o(3,4) by (auto simp: ConcactIterator_next_def Let_def bind_Some_conv)
      then show ?thesis using opened_not_end [OF o(1) _ it'(1)] o(2) i by (auto simp: con_closed_def)
    next
      case False
      then show ?thesis using assms(2) it True by (auto simp: ConcactIterator_next_def Let_def con_closed_def si_init_def)
    qed
  next
    case False
    then show ?thesis using assms(2) it by (auto simp: ConcactIterator_next_def con_closed_def SstIterator_is_end_def)
  qed
qed

definition con_open :: "sst_reader \<Rightarrow> bool \<Rightarrow> u64 \<Rightarrow> ConcactIterator \<Rightarrow> bool" where
  "con_open R keep lim c \<longleftrightarrow> con_good R keep lim c \<and> con_closed c"

definition ConcactIterator_end :: "u64 \<Rightarrow> ConcactIterator" where
  "ConcactIterator_end lim = \<lparr>con_cur_iter = si_init None lim False, con_cur_idx = 0, con_ssts = [], con_max_tranc_id = lim,
     con_keep_all_versions = False\<rparr>"

lemma concact_end_new: "ConcactIterator_new R [] lim False = Some (ConcactIterator_end lim)"
  by (simp add: ConcactIterator_new_def ConcactIterator_end_def)

interpretation concact_end: end_iterator "concact_ops R" "con_open R keep lim" "con_rest R" lim
    "\<lambda>a b. Some (ConcactIterator_eq a b)" "ConcactIterator_end lim'" for R keep lim lim'
proof unfold_locales
  fix c assume "con_open R keep lim c"
  then have g: "con_good R keep lim c" "con_closed c" by (auto simp: con_open_def)
  then have s: "si_good R keep lim (con_cur_iter c)" by (simp add: con_good_def)
  have "con_rest R c = [] \<longleftrightarrow> si_rest R (con_cur_iter c) = []" using g by (auto simp: con_good_def con_rest_def)
  then have "con_rest R c = [] \<longleftrightarrow> m_block_it (con_cur_iter c) = None"
    using sst_rest_empty(1) [OF s] by (simp add: SstIterator_is_end_def)
  then show "Some (ConcactIterator_eq c (ConcactIterator_end lim')) = Some (con_rest R c = [])"
    using g(2) by (auto simp: ConcactIterator_eq_def SstIterator_eq_def ConcactIterator_end_def si_init_def con_closed_def split: option.splits)
  show "lim \<noteq> 0 \<Longrightarrow> it_tranc_id (concact_ops R) c \<le> lim" by (rule concact.visible [OF g(1)])
  show "it_is_end (concact_ops R) c \<longleftrightarrow> con_rest R c = []" "it_is_valid (concact_ops R) c \<longleftrightarrow> con_rest R c \<noteq> []"
    using concact.is_end [OF g(1)] concact.is_valid [OF g(1)] by simp_all
  fix e es assume r: "con_rest R c = e # es"
  show "it_deref (concact_ops R) c = Some (fst e)" "it_tranc_id (concact_ops R) c = snd e"
    using concact.deref [OF g(1) r] concact.tranc [OF g(1) r] by simp_all
  show "\<exists>j. it_next (concact_ops R) c = Some j \<and> con_open R keep lim j \<and> con_rest R j = es"
    using concact.advance [OF g(1) r] con_closed_next [OF g(1)] by (auto simp: con_open_def concact_ops_def)
qed

subsection \<open>Properties\<close>



text \<open>
  What equality does not say: two database iterators at the same pair are equal however much each has left, and an
  \<^verbatim>\<open>operator->\<close> of the concatenating iterator shows the first pair it was asked for as long as it stays in a table.
\<close>

lemma level_eq_ignores_rest:
  "Level_Iterator_is_valid I a \<Longrightarrow> Level_Iterator_is_valid I b \<Longrightarrow> li_cached_value a = Some kv \<Longrightarrow> li_cached_value b = Some kv \<Longrightarrow>
   Level_Iterator_eq I a b = Some True"
  by (cases kv) (simp add: Level_Iterator_eq_def Level_Iterator_deref_def)

lemma concact_arrow_stale:
  assumes "ConcactIterator_arrow R c = Some (kv, c1)" "SstIterator_next R (con_cur_iter c1) = Some it" "SstIterator_is_valid it"
  shows "\<exists>c2. ConcactIterator_next R c1 = Some c2 \<and> ConcactIterator_arrow R c2 = Some (kv, c2)"
proof -
  obtain it1 where a: "SstIterator_arrow R (con_cur_iter c) = Some (kv, it1)" "c1 = c\<lparr>con_cur_iter := it1\<rparr>"
    using assms(1) by (auto simp: ConcactIterator_arrow_def bind_Some_conv)
  then have "SstIterator_arrow R it = Some (kv, it)" using sst_arrow_stale [OF a(1)] assms(2) by simp
  moreover have "\<not> SstIterator_is_end it" using assms(3) by (auto simp: SstIterator_is_valid_def SstIterator_is_end_def split: option.splits)
  ultimately show ?thesis using assms(2,3) a(2) by (simp add: ConcactIterator_next_def ConcactIterator_arrow_def)
qed

end
