(* ===== verification/Spec2Isabelle.thy ===== *)
theory Spec2Isabelle
  imports Wal_Record Block_Meta Bloom_Filter Block_Cache Tran_Context Server_Keyspace Engine_Files Mmap_File Tran_Schedule Sst_Builder Lsm_Lifecycle Flush_Check Iter_Compare
begin

text \<open>
  Tiny-LSM, a key-value store organised as a log-structured merge tree with transactions and a Redis
  front end: a model of its C++ sources and the theorems that make its components correct.

  \<^bold>\<open>The program.\<close> A request arrives as bytes at the server (\<^verbatim>\<open>server/src/server.cpp\<close>), which parses it and
  hands it to a handler (\<^verbatim>\<open>server/src/handler.cpp\<close>). The handlers call \<^verbatim>\<open>RedisWrapper\<close>
  (\<^verbatim>\<open>src/redis_wrapper/redis_wrapper.cpp\<close>), which lays out strings, hashes, lists, sets and sorted sets as
  keys of the class \<^verbatim>\<open>LSM\<close> (\<^verbatim>\<open>src/lsm/engine.cpp\<close>). \<^verbatim>\<open>LSM\<close> draws a transaction id from \<^verbatim>\<open>TranManager\<close>
  (\<^verbatim>\<open>src/lsm/transation.cpp\<close>) and calls \<^verbatim>\<open>LSMEngine\<close>; a transaction is a \<^verbatim>\<open>TranContext\<close> that buffers
  writes and logs them (\<^verbatim>\<open>src/wal\<close>) before it applies them. Below the engine are the memory table of skip
  lists, the sorted tables with their blocks, metadata, Bloom filter and block cache, the iterators that
  merge them, and the file layer.

  The repository is the skeleton of a course: some bodies are left to its readers and contain a marker
  and a fixed return value. Such a function is a parameter of the model. Its contract is a locale, stated
  from the comments and headers, and the locale is interpreted on definitions of the development; what the
  fixed return values amount to is a definition of its own where a component calls one
  (\<open>stub_reader\<close>, \<open>stub_sst_reader\<close>, \<open>stub_lookup\<close>).

  \<^bold>\<open>Conventions.\<close> \<^verbatim>\<open>uint8_t\<close> to \<^verbatim>\<open>uint64_t\<close> are the word types \<open>u8\<close> to \<open>u64\<close> and wrap around. A
  \<^verbatim>\<open>std::string\<close> is a list of characters in lexicographic order. Pointers to skip list nodes and list
  iterators of the cache are indices into an explicit store; other shared pointers are values, or options
  where the code tests for null. Exceptions are a sum type, null dereferences and out-of-range accesses the
  value \<^verbatim>\<open>None\<close>. Locks are not modelled: an operation is one step. Random levels, hash functions and the
  clock are parameters, and the theorems hold for every choice of them.

  \<^bold>\<open>Loops.\<close> No definition uses fuel. A loop over data is structural recursion or a function with a measure; a
  loop that may not end is a \<^verbatim>\<open>partial_function (option)\<close>, and the theorems about it state that it returns.
  The budget \<open>can s n\<close> of the Redis and transaction theorems says that \<open>n\<close> more operations are
  possible before the 64-bit counter of transaction ids wraps around.

  \<^bold>\<open>Theories.\<close>
  \<^item> \<open>Lsm_Prelude\<close>: machine integers, lists, options; \<open>Byte_Buffer\<close>: bytes, \<^verbatim>\<open>memcpy\<close>, little endian
    integers and their round trips; \<open>Cpp_String\<close>: \<^verbatim>\<open>std::to_string\<close>, \<^verbatim>\<open>std::stoi\<close>, \<^verbatim>\<open>std::stoll\<close> and the
    splitting of strings.
  \<^item> \<open>Skip_List\<close>: \<^verbatim>\<open>src/skiplist/skipList.cpp\<close> over an explicit node store. \<open>Skip_List_Correct\<close>: every level
    is a doubly linked path through the nodes of that height; from it memory safety, termination, and the
    refinement of put, get, remove and flush to a sorted list of versions, for every choice of levels.
  \<^item> \<open>Wal_Record\<close>: \<^verbatim>\<open>src/wal/record.cpp\<close>, round trip and the sizes at which the 16-bit length is exact.
    \<open>Wal_Files\<close>: \<^verbatim>\<open>src/wal/wal.cpp\<close>, the cleaner removes exactly the obsolete files and keeps the newest.
  \<^item> \<open>Block_Meta\<close>: \<^verbatim>\<open>src/block/blockmeta.cpp\<close>, round trip and detection of corruption.
    \<open>Bloom_Filter\<close>: \<^verbatim>\<open>src/utils/bloom_filter.cpp\<close>, no false negatives, round trip.
    \<open>Block_Cache\<close>: \<^verbatim>\<open>src/block/block_cache.cpp\<close>, invariant of the LRU-K lists and the choice of the victim.
  \<^item> \<open>File_Obj\<close>: \<^verbatim>\<open>std_file.cpp\<close>, \<^verbatim>\<open>files.cpp\<close> and \<^verbatim>\<open>cursor.cpp\<close> of \<^verbatim>\<open>src/utils\<close>, a stream with its error
    state, bounds checks, and the round trip of everything a cursor writes.
  \<^item> \<open>Heap_Iterator\<close>: \<^verbatim>\<open>src/iterator/iterator.cpp\<close>, the merge of search items. \<open>Base_Iterator\<close>: the virtual
    functions of an iterator as a record and their contract, the locale \<open>base_iterator\<close> (what is left to
    deliver, sorted, visible, and how each operation acts on it). \<open>Two_Merge\<close>, \<open>Level_Iter\<close>, \<open>Lsm_Iter\<close>
    (\<^verbatim>\<open>src/lsm/two_merge_iterator.cpp\<close>, \<^verbatim>\<open>src/lsm/level_iterator.cpp\<close>): merging iterators over any iterators
    with the contract, with the contract again as a sublocale, so that they compose. \<open>Block_Iter\<close>,
    \<open>Sst_Iter\<close> (\<^verbatim>\<open>src/block\<close>, \<^verbatim>\<open>src/sst\<close>): block, table and concatenating iterators. \<open>Sst_Range\<close>: the range of
    a monotone predicate in a table, equal to asking every block. The contract is interpreted
    for the heap (\<open>heap\<close>), two heaps (\<open>heap2\<close>), a block (\<open>block\<close>), a table (\<open>sst\<close>), a run of tables
    (\<open>concact\<close>) and the whole database (\<open>db\<close>); each theorem says which entries an iteration delivers and
    that it ends. \<open>Iter_Compare\<close>: the comparison operators and \<^verbatim>\<open>operator->\<close>; the locale \<open>end_iterator\<close> says which
    iterators a loop up to \<^verbatim>\<open>end()\<close> may compare with, and shows that such a loop is the loop up to \<^verbatim>\<open>is_end()\<close>.
  \<^item> \<open>Mem_Table\<close>: \<^verbatim>\<open>src/memtable/memtable.cpp\<close>, flushing of the oldest skip list, the byte count, and the end
    of the flush loop.
  \<^item> \<open>Tran_Manager\<close>: transaction ids, the compressed sets of ready and flushed ids and the file they are kept
    in. \<open>Lsm_Engine\<close>: the engine as a record of operations, its multi-version contract \<open>mvcc_engine\<close> and the
    operations of \<^verbatim>\<open>LSM\<close>; in the locale they act as a map. \<open>Skip_List_Engine\<close>: the contract for an engine
    made of one skip list (\<open>sl_engine\<close>). \<open>Tran_Context\<close>: transactions at the four isolation levels, private
    writes, repeatable reads, conflicts, the commit and the rollback. \<open>Tran_Schedule\<close>: several transactions and
    direct writes as a step relation on one database; every reachable state is well-formed, the database
    holds the committed write sets in the order of the commits, the bytes of the log give it back, and a new
    transaction can always commit (\<open>sched_engine\<close> is the contract, \<open>sl_sched\<close> its interpretation).
    \<open>Flush_Check\<close>: the conflict check against versions that were flushed, and what the report of flushed ids has
    to do for it. \<open>Lsm_Lifecycle\<close>: opening and closing; the ids go on where they stopped, but not after a crash.
  \<^item> \<open>Value_Log\<close>: \<^verbatim>\<open>src/vlog/vlog.cpp\<close>, the checksum detects every change within four bytes; opening.
    \<open>Config_File\<close>: \<^verbatim>\<open>src/config/config.cpp\<close>, a saved configuration loads as it was but for one setting, with the
    toml library as a parameter under its documented laws. \<open>Mmap_File\<close>: \<^verbatim>\<open>src/utils/mmap_file.cpp\<close>.
    \<open>Sst_Builder\<close>: the constructors and sizes of the table builder and the references to the value log.
    \<open>Engine_Files\<close>: the table names, the table sizes and \<^verbatim>\<open>clear\<close> of \<^verbatim>\<open>LSMEngine\<close>.
  \<^item> \<open>Redis_Base\<close>, \<open>Redis_Hash\<close>, \<open>Redis_List\<close>, \<open>Redis_Set\<close>, \<open>Redis_ZSet\<close>: the commands of each Redis type
    over a store with the contract \<open>redis_store\<close>, refined to a counter, an association list, a list and a set
    with deadlines. \<open>Keyspace\<close>: one keyspace of all four types and its representation; each command is a step of it
    and touches only the database keys that belong to its key. \<open>Redis_Commands\<close>: \<^verbatim>\<open>server/src/handler.cpp\<close> and the command table. \<open>Server\<close>: the parser
    and the reader of the receive buffer; a request in wire format is answered as the command it encodes.
    \<open>Server_Session\<close>: the cycle of reading and replying; a pipeline of requests is answered like running the
    commands one by one. \<open>Server_Keyspace\<close>: the composition of all these parts, from the bytes of a pipeline to the
    replies of the keyspace and the final database.

  \<^bold>\<open>Where the code falls short.\<close> The hypotheses of the theorems are the conditions under which the code does
  what it means to; the lemmas beside them show on concrete states what happens otherwise, for example
  that a deleted key can become visible again through the merge of sources (\<open>deleted_key_resurfaces\<close>), that
  the flush loop does not end after a clear (\<open>clear_then_flush_all_hangs\<close>), that the log cleaner does not
  end on a record of length zero (\<open>zero_length_record_hangs\<close>), that two transactions at SERIALIZABLE lose an
  update (\<open>serializable_lost_update\<close>), that an older transaction overwrites a direct write once it is flushed
  (\<open>flushed_direct_write_overwritten\<close>), that data is hidden after a crash (\<open>crash_hides_data\<close>), or that DEL leaves
  the members of a set (\<open>del_keeps_members\<close>).

  \<^bold>\<open>Not modelled.\<close> Functions without a body in the repository: most of \<^verbatim>\<open>LSMEngine\<close>, the writer and recovery of
  the log, the encoding, decoding and search of blocks, the table builder and reader, reading and appending
  of the value log. Sockets, the event loop and logging (calls of the asio and spdlog libraries). Debug
  output. Threads: an operation that holds its locks is one step, and \<open>Tran_Schedule\<close> interleaves such steps.
  The checks of a commit against flushed tables are modelled and treated in \<open>Flush_Check\<close>, with the tables as a parameter,
  but the schedules of \<open>Tran_Schedule\<close> run without a flush, since flushing is one of the functions without a body.
  The keyspace leaves out sorted sets (\<open>Redis_ZSet\<close> treats their commands one by one) and deadlines (the strings of
  \<open>Redis_Base\<close> and the sessions of \<open>Redis_Hash\<close> and \<open>Redis_Set\<close> have them).
\<close>

end
